(* ===== verification/Prelude.thy ===== *)
theory Prelude
  imports Main "HOL-Library.Word" "HOL-Library.AList" "HOL-Library.Multiset"
begin

text \<open>
  Shared vocabulary of the development: the Go run-time behaviour the models need.
  \<^item> \<open>'a go\<close> is the result of running Go code: a value, or the run-time panic that stopped it;
  \<^item> \<open>'a slice\<close> is a slice that the code compares with nil (\<open>None\<close> is nil);
  \<^item> \<open>copy_into\<close> is Go's \<^verbatim>\<open>copy(data[lo:hi], src)\<close>, bounds check included;
  \<^item> \<open>go_get\<close>, \<open>go_put\<close> and \<open>go_del\<close> are the operations of a Go map, stored as an association list;
    the interface is the locale \<open>go_map\<close>, interpreted on them below;
  \<^item> \<open>reach\<close> is the set of reachable states of a state machine, and the locale \<open>invariant_system\<close> its
    induction principle, interpreted for the node, its chain, its peer list and the simulated network.
\<close>

named_theorems go_simps \<open>evaluation of Go control flow\<close>
named_theorems pack_simps \<open>byte layout of packed structures\<close>

subsection \<open>Machine types\<close>

type_synonym byte = "8 word"
type_synonym bytes = "byte list"
type_synonym u32 = "32 word"

text \<open>A slice the code compares with nil.  \<open>sl\<close> reads it where nil and the empty slice agree.\<close>

type_synonym 'a slice = "'a list option"

definition sl :: "'a slice \<Rightarrow> 'a list" where
  "sl s = (case s of None \<Rightarrow> [] | Some xs \<Rightarrow> xs)"

subsection \<open>Panics\<close>

datatype panic =
    IndexOutOfRange   \<comment> \<open>an index outside a slice\<close>
  | SliceBounds       \<comment> \<open>a slice expression outside the backing array\<close>
  | NilDeref          \<comment> \<open>a field of a nil pointer\<close>
  | MakeSliceLen      \<comment> \<open>\<^verbatim>\<open>make\<close> with a negative length\<close>
  | StackOverflow     \<comment> \<open>unbounded recursion\<close>
  | Explicit string   \<comment> \<open>a call of \<^verbatim>\<open>panic\<close>\<close>
  | Unbounded         \<comment> \<open>not a panic: a pointer walk longer than the heap has cells\<close>

datatype 'a go = Panic panic | Ret 'a

fun bind_go :: "'a go \<Rightarrow> ('a \<Rightarrow> 'b go) \<Rightarrow> 'b go" where
  "bind_go (Panic p) f = Panic p"
| "bind_go (Ret x) f = f x"

text \<open>A \<^verbatim>\<open>for range\<close> loop that updates a state, and one that collects results.\<close>

fun fold_go :: "('a \<Rightarrow> 's \<Rightarrow> 's go) \<Rightarrow> 'a list \<Rightarrow> 's \<Rightarrow> 's go" where
  "fold_go f [] s = Ret s"
| "fold_go f (x # xs) s = bind_go (f x s) (fold_go f xs)"

fun mapM_go :: "('a \<Rightarrow> 'b go) \<Rightarrow> 'a list \<Rightarrow> 'b list go" where
  "mapM_go f [] = Ret []"
| "mapM_go f (x # xs) = bind_go (f x) (\<lambda>y. bind_go (mapM_go f xs) (\<lambda>ys. Ret (y # ys)))"

text \<open>Indexing a slice, assigning to an index, and dereferencing a pointer.\<close>

definition go_nth :: "'a list \<Rightarrow> nat \<Rightarrow> 'a go" where
  "go_nth xs i = (if i < length xs then Ret (xs ! i) else Panic IndexOutOfRange)"

definition go_upd :: "'a list \<Rightarrow> nat \<Rightarrow> 'a \<Rightarrow> 'a list go" where
  "go_upd xs i v = (if i < length xs then Ret (xs[i := v]) else Panic IndexOutOfRange)"

definition deref :: "'a option \<Rightarrow> 'a go" where
  "deref p = (case p of None \<Rightarrow> Panic NilDeref | Some x \<Rightarrow> Ret x)"

text \<open>\<^verbatim>\<open>copy(data[lo:hi], src)\<close> for a \<open>data\<close> whose capacity is its length.\<close>

definition copy_into :: "bytes \<Rightarrow> nat \<Rightarrow> nat \<Rightarrow> bytes \<Rightarrow> bytes go" where
  "copy_into data lo hi src =
     (if lo \<le> hi \<and> hi \<le> length data
      then Ret (take lo data @ take (hi - lo) src @ drop (lo + min (hi - lo) (length src)) data)
      else Panic SliceBounds)"

text \<open>\<^verbatim>\<open>xs[0:n]\<close> for a slice whose capacity is its length.\<close>

definition go_prefix :: "'a list \<Rightarrow> nat \<Rightarrow> 'a list go" where
  "go_prefix xs n = (if n \<le> length xs then Ret (take n xs) else Panic SliceBounds)"

subsection \<open>Go maps\<close>

type_synonym ('k, 'v) gomap = "('k \<times> 'v) list"

definition go_get :: "('k, 'v) gomap \<Rightarrow> 'k \<Rightarrow> 'v option" where
  "go_get m k = map_of m k"

definition go_put :: "'k \<Rightarrow> 'v \<Rightarrow> ('k, 'v) gomap \<Rightarrow> ('k, 'v) gomap" where
  "go_put k v m = AList.update k v m"

definition go_del :: "'k \<Rightarrow> ('k, 'v) gomap \<Rightarrow> ('k, 'v) gomap" where
  "go_del k m = AList.delete k m"

definition go_map_wf :: "('k, 'v) gomap \<Rightarrow> bool" where
  "go_map_wf m \<longleftrightarrow> distinct (map fst m)"

subsection \<open>Evaluation of panicking code\<close>

lemma bind_go_eq_Ret [go_simps]:
  "bind_go m f = Ret y \<longleftrightarrow> (\<exists>x. m = Ret x \<and> f x = Ret y)"
  by (cases m) auto

lemma bind_go_eq_Panic:
  "bind_go m f = Panic p \<longleftrightarrow> m = Panic p \<or> (\<exists>x. m = Ret x \<and> f x = Panic p)"
  by (cases m) auto

lemma bind_go_assoc: "bind_go (bind_go m f) g = bind_go m (\<lambda>x. bind_go (f x) g)"
  by (cases m) auto

lemma bind_go_Ret [simp]: "bind_go m Ret = m"
  by (cases m) auto

lemma bind_go_cong [fundef_cong]:
  "m = m' \<Longrightarrow> (\<And>x. m' = Ret x \<Longrightarrow> f x = f' x) \<Longrightarrow> bind_go m f = bind_go m' f'"
  by (cases m') auto

lemma deref_eq_Ret [go_simps]: "deref p = Ret x \<longleftrightarrow> p = Some x"
  by (auto simp: deref_def split: option.splits)

lemma deref_simps [simp]: "deref None = Panic NilDeref" "deref (Some x) = Ret x"
  by (simp_all add: deref_def)

lemma go_nth_eq_Ret [go_simps]: "go_nth xs i = Ret x \<longleftrightarrow> i < length xs \<and> x = xs ! i"
  by (auto simp: go_nth_def)

lemma go_upd_eq_Ret [go_simps]: "go_upd xs i v = Ret ys \<longleftrightarrow> i < length xs \<and> ys = xs[i := v]"
  by (auto simp: go_upd_def)

lemma go_nth_at: "n = length xs \<Longrightarrow> go_nth (xs @ y # ys) n = Ret y"
  by (simp add: go_nth_def)

lemma go_upd_at: "n = length xs \<Longrightarrow> go_upd (xs @ y # ys) n v = Ret (xs @ v # ys)"
  by (simp add: go_upd_def)

lemma go_prefix_eq_Ret [go_simps]: "go_prefix xs n = Ret ys \<longleftrightarrow> n \<le> length xs \<and> ys = take n xs"
  by (auto simp: go_prefix_def)

lemma fold_go_append: "fold_go f (xs @ ys) s = bind_go (fold_go f xs s) (fold_go f ys)"
proof (induction xs arbitrary: s)
  case Nil
  then show ?case by simp
next
  case (Cons x xs)
  then show ?case by (cases "f x s") simp_all
qed

lemma fold_go_snoc: "fold_go f (xs @ [x]) s = bind_go (fold_go f xs s) (f x)"
proof -
  have "fold_go f [x] t = f x t" for t by (cases "f x t") simp_all
  then have "fold_go f [x] = f x" by (rule ext)
  then show ?thesis by (simp only: fold_go_append)
qed

lemma fold_go_invariant:
  assumes "fold_go f xs s = Ret s'" and "P s"
    and "\<And>x t t'. x \<in> set xs \<Longrightarrow> P t \<Longrightarrow> f x t = Ret t' \<Longrightarrow> P t'"
  shows "P s'"
  using assms
proof (induction xs arbitrary: s)
  case Nil
  then show ?case by simp
next
  case (Cons x xs)
  from Cons.prems(1) obtain t where t: "f x s = Ret t" "fold_go f xs t = Ret s'"
    by (auto simp: go_simps)
  have "P t" using Cons.prems(3)[OF _ Cons.prems(2) t(1)] by simp
  with t(2) show ?case using Cons.IH Cons.prems(3) by (meson list.set_intros(2))
qed

lemma mapM_go_Ret: "mapM_go f xs = Ret ys \<longleftrightarrow> list_all2 (\<lambda>x y. f x = Ret y) xs ys"
proof (induction xs arbitrary: ys)
  case Nil
  then show ?case by auto
next
  case (Cons x xs)
  then show ?case by (cases ys) (auto simp: go_simps)
qed

lemma mapM_go_returns: "(\<exists>ys. mapM_go f xs = Ret ys) \<longleftrightarrow> (\<forall>x \<in> set xs. \<exists>y. f x = Ret y)"
  by (induction xs) (auto simp: go_simps)

lemma mapM_go_all_Ret: "(\<And>x. x \<in> set xs \<Longrightarrow> f x = Ret (g x)) \<Longrightarrow> mapM_go f xs = Ret (map g xs)"
  by (induction xs) auto

lemma sl_simps [simp]: "sl None = []" "sl (Some xs) = xs"
  by (simp_all add: sl_def)

subsection \<open>Copying into a buffer\<close>

lemma copy_into_length: "copy_into data lo hi src = Ret d \<Longrightarrow> length d = length data"
  by (auto simp: copy_into_def split: if_splits)

lemma copy_into_exact [pack_simps]:
  assumes "length a = lo" and "length b = length src" and "hi = lo + length src"
  shows "copy_into (a @ b @ c) lo hi src = Ret (a @ src @ c)"
  using assms by (simp add: copy_into_def)

lemma copy_into_front [pack_simps]:
  assumes "length b = length src" and "hi = length src"
  shows "copy_into (b @ c) 0 hi src = Ret (src @ c)"
  using copy_into_exact[of "[]" 0 b src hi c] assms by simp

lemma copy_into_back [pack_simps]:
  assumes "length a = lo" and "length b = length src" and "hi = lo + length src"
  shows "copy_into (a @ b) lo hi src = Ret (a @ src)"
  using copy_into_exact[of a lo b src hi "[]"] assms by simp

subsection \<open>The interface of a map\<close>

locale go_map =
  fixes emp :: 'm
    and get :: "'m \<Rightarrow> 'k \<Rightarrow> 'v option"
    and put :: "'k \<Rightarrow> 'v \<Rightarrow> 'm \<Rightarrow> 'm"
    and del :: "'k \<Rightarrow> 'm \<Rightarrow> 'm"
    and keys :: "'m \<Rightarrow> 'k list"
    and wf :: "'m \<Rightarrow> bool"
  assumes wf_emp: "wf emp"
    and wf_put: "wf m \<Longrightarrow> wf (put k v m)"
    and wf_del: "wf m \<Longrightarrow> wf (del k m)"
    and get_emp: "get emp k = None"
    and get_put: "get (put k v m) j = (if j = k then Some v else get m j)"
    and get_del: "get (del k m) j = (if j = k then None else get m j)"
    and set_keys: "set (keys m) = dom (get m)"
    and distinct_keys: "wf m \<Longrightarrow> distinct (keys m)"
begin

lemma put_put_get: "get (put k v (put k w m)) = get (put k v m)"
  by (rule ext) (simp add: get_put)

lemma put_swap_get: "j \<noteq> k \<Longrightarrow> get (put k v (put j w m)) = get (put j w (put k v m))"
  by (rule ext) (simp add: get_put)

lemma del_put_get: "get m k = None \<Longrightarrow> get (del k (put k v m)) = get m"
  by (rule ext) (simp add: get_put get_del)

lemma keys_put: "set (keys (put k v m)) = insert k (set (keys m))"
  by (auto simp: set_keys get_put split: if_splits)

lemma keys_del: "set (keys (del k m)) = set (keys m) - {k}"
  by (auto simp: set_keys get_del split: if_splits)

lemma keys_put_new:
  assumes "wf m" and "get m k = None"
  shows "mset (keys (put k v m)) = add_mset k (mset (keys m))"
proof -
  have "distinct (k # keys m)"
    using assms by (auto simp: set_keys intro: distinct_keys)
  moreover have "set (k # keys m) = set (keys (put k v m))"
    by (simp add: keys_put)
  moreover have "distinct (keys (put k v m))"
    using assms(1) by (intro distinct_keys wf_put)
  ultimately have "mset (k # keys m) = mset (keys (put k v m))"
    using set_eq_iff_mset_eq_distinct by blast
  then show ?thesis by simp
qed

lemma keys_put_old:
  assumes "wf m" and "get m k = Some w"
  shows "mset (keys (put k v m)) = mset (keys m)"
proof -
  have "set (keys (put k v m)) = set (keys m)"
    using assms(2) keys_put[of k v m] by (auto simp: set_keys insert_absorb)
  then show ?thesis
    using assms(1) wf_put distinct_keys set_eq_iff_mset_eq_distinct by metis
qed

lemma put_all_get:
  "get (fold (\<lambda>(k, v). put k v) kvs m) = get m ++ map_of (rev kvs)"
proof (induction kvs arbitrary: m)
  case Nil
  then show ?case by simp
next
  case (Cons kv kvs)
  obtain k v where kv: "kv = (k, v)" by (cases kv)
  have "get (put k v m) = (get m)(k \<mapsto> v)"
    by (rule ext) (simp add: get_put)
  then have "get m ++ map_of (rev kvs @ [(k, v)]) = get (put k v m) ++ map_of (rev kvs)"
    by (simp add: map_add_assoc)
  with Cons.IH kv show ?case by simp
qed

end

interpretation gm: go_map "[]" go_get go_put go_del "map fst" go_map_wf
proof unfold_locales
  show "set (map fst m) = dom (go_get m)" for m :: "('k \<times> 'v) list"
    by (simp add: go_get_def[abs_def] dom_map_of_conv_image_fst)
qed (simp_all add: go_get_def go_put_def go_del_def go_map_wf_def distinct_update
      distinct_delete update_conv' delete_conv')

declare gm.get_put [simp] gm.get_del [simp] gm.get_emp [simp] gm.wf_put [simp] gm.wf_del [simp] gm.wf_emp [simp]

lemma go_get_in_set: "go_get m k = Some v \<Longrightarrow> (k, v) \<in> set m"
  by (simp add: go_get_def map_of_SomeD)

lemma go_get_iff_in_set: "go_map_wf m \<Longrightarrow> go_get m k = Some v \<longleftrightarrow> (k, v) \<in> set m"
  by (simp add: go_get_def go_map_wf_def)

subsection \<open>Sums over finite maps\<close>

definition sum_values :: "('v \<Rightarrow> nat) \<Rightarrow> ('k \<rightharpoonup> 'v) \<Rightarrow> nat" where
  "sum_values v m = (\<Sum>k \<in> dom m. v (the (m k)))"

lemma sum_values_remove:
  assumes "finite (dom m)" and "m k = Some x"
  shows "sum_values v (m(k := None)) + v x = sum_values v m"
proof -
  have "(\<Sum>j \<in> dom m - {k}. v (the ((m(k := None)) j))) = (\<Sum>j \<in> dom m - {k}. v (the (m j)))"
    by (rule sum.cong) auto
  moreover have "sum_values v m = v x + (\<Sum>j \<in> dom m - {k}. v (the (m j)))"
    using assms by (simp add: sum_values_def sum.remove[of _ k] domI)
  ultimately show ?thesis by (simp add: sum_values_def)
qed

lemma sum_values_insert:
  assumes "finite (dom m)" and "m k = None"
  shows "sum_values v (m(k \<mapsto> x)) = sum_values v m + v x"
  using sum_values_remove[of "m(k \<mapsto> x)" k x v] assms by (simp add: fun_upd_idem)

lemma sum_values_restrict:
  assumes "finite (dom m)" and "distinct ks" and "set ks \<subseteq> dom m"
  shows "sum_values v (m |` (- set ks)) + (\<Sum>k \<leftarrow> ks. v (the (m k))) = sum_values v m"
  using assms
proof (induction ks)
  case Nil
  then show ?case by simp
next
  case (Cons k ks)
  let ?m = "m |` (- set ks)"
  have "?m k = m k" using Cons.prems(2) by simp
  moreover obtain x where "m k = Some x" using Cons.prems(3) by auto
  moreover have "?m(k := None) = m |` (- set (k # ks))" by (auto simp: restrict_map_def)
  moreover have "finite (dom ?m)" using Cons.prems(1) by (simp add: dom_restrict)
  ultimately have "sum_values v (m |` (- set (k # ks))) + v (the (m k)) = sum_values v ?m"
    using sum_values_remove[of ?m k x v] by simp
  with Cons show ?case by simp
qed

lemma sum_values_add_list:
  assumes "finite (dom m)" and "distinct (map fst kvs)" and "set (map fst kvs) \<inter> dom m = {}"
  shows "sum_values v (m ++ map_of kvs) = sum_values v m + (\<Sum>kv \<leftarrow> kvs. v (snd kv))"
  using assms
proof (induction kvs)
  case Nil
  then show ?case by simp
next
  case (Cons kv kvs)
  obtain k x where kv: "kv = (k, x)" by (cases kv)
  have "(m ++ map_of kvs) k = None"
    using Cons.prems(2,3) kv by (auto simp: map_add_None map_of_eq_None_iff)
  moreover have "finite (dom (m ++ map_of kvs))" using Cons.prems(1) by (simp add: finite_dom_map_of)
  ultimately have "sum_values v ((m ++ map_of kvs)(k \<mapsto> x)) = sum_values v (m ++ map_of kvs) + v x"
    by (intro sum_values_insert)
  moreover have "m ++ map_of (kv # kvs) = (m ++ map_of kvs)(k \<mapsto> x)"
    by (rule ext) (simp add: kv map_add_def)
  ultimately have "sum_values v (m ++ map_of (kv # kvs)) = sum_values v (m ++ map_of kvs) + v x" by simp
  moreover have "sum_values v (m ++ map_of kvs) = sum_values v m + (\<Sum>kv \<leftarrow> kvs. v (snd kv))"
    using Cons.prems by (intro Cons.IH) auto
  ultimately show ?case by (simp only: kv snd_conv list.map sum_list.Cons)
qed

subsection \<open>Reachable states\<close>

inductive reach :: "('s \<Rightarrow> bool) \<Rightarrow> ('s \<Rightarrow> 's \<Rightarrow> bool) \<Rightarrow> 's \<Rightarrow> bool"
  for init :: "'s \<Rightarrow> bool" and step :: "'s \<Rightarrow> 's \<Rightarrow> bool" where
  reach_init: "init s \<Longrightarrow> reach init step s"
| reach_step: "reach init step s \<Longrightarrow> step s s' \<Longrightarrow> reach init step s'"

locale invariant_system =
  fixes init :: "'s \<Rightarrow> bool" and step :: "'s \<Rightarrow> 's \<Rightarrow> bool" and inv :: "'s \<Rightarrow> bool"
  assumes inv_init: "init s \<Longrightarrow> inv s"
    and inv_step: "inv s \<Longrightarrow> step s s' \<Longrightarrow> inv s'"
begin

lemma inv_reach: "reach init step s \<Longrightarrow> inv s"
  by (induction rule: reach.induct) (auto intro: inv_init inv_step)

lemma inv_steps: "step\<^sup>*\<^sup>* s s' \<Longrightarrow> inv s \<Longrightarrow> inv s'"
  by (induction rule: rtranclp_induct) (auto intro: inv_step)

end

end
