(* ===== verification/Encoding.thy ===== *)
theory Encoding
  imports Prelude
begin

unbundle bit_operations_syntax

text \<open>
  The byte encodings of \<^verbatim>\<open>node\<close>: \<^verbatim>\<open>packInt\<close> (\<^verbatim>\<open>binary.LittleEndian.PutUint32\<close>) and the
  standard base64 alphabet of Go's \<^verbatim>\<open>encoding/base64\<close>, which carries addresses and transaction
  ids.  The decoder returns the bytes it produced before an error together with an error flag,
  as \<^verbatim>\<open>DecodeString\<close> does: \<^verbatim>\<open>MakeCoinbaseTx\<close> ignores the flag.
\<close>

subsection \<open>Little-endian integers\<close>

definition packInt :: "u32 \<Rightarrow> bytes" where
  "packInt myInt = [ucast myInt, ucast (drop_bit 8 myInt), ucast (drop_bit 16 myInt), ucast (drop_bit 24 myInt)]"

text \<open>The reference reader of four little-endian bytes.\<close>

definition unpackInt :: "bytes \<Rightarrow> u32" where
  "unpackInt bs = ucast (bs ! 0) OR push_bit 8 (ucast (bs ! 1)) OR push_bit 16 (ucast (bs ! 2)) OR
     push_bit 24 (ucast (bs ! 3))"

subsection \<open>Base64\<close>

definition b64_alphabet :: string where
  "b64_alphabet = ''ABCDEFGHIJKLMNOPQRSTUVWXYZabcdefghijklmnopqrstuvwxyz0123456789+/''"

fun index_of :: "'a \<Rightarrow> 'a list \<Rightarrow> nat option" where
  "index_of x [] = None"
| "index_of x (y # ys) = (if x = y then Some 0 else map_option Suc (index_of x ys))"

definition b64_value :: "char \<Rightarrow> nat option" where
  "b64_value c = index_of c b64_alphabet"

definition b64_char :: "nat \<Rightarrow> char" where
  "b64_char n = b64_alphabet ! n"

text \<open>\<^verbatim>\<open>base64.StdEncoding.EncodeToString\<close>.\<close>

fun EncodeToString :: "bytes \<Rightarrow> string" where
  "EncodeToString [] = []"
| "EncodeToString [a] =
     [b64_char (unat a div 4), b64_char (unat a mod 4 * 16), CHR ''='', CHR ''='']"
| "EncodeToString [a, b] =
     [b64_char (unat a div 4), b64_char (unat a mod 4 * 16 + unat b div 16),
      b64_char (unat b mod 16 * 4), CHR ''='']"
| "EncodeToString (a # b # c # rest) =
     b64_char (unat a div 4) # b64_char (unat a mod 4 * 16 + unat b div 16) #
     b64_char (unat b mod 16 * 4 + unat c div 64) # b64_char (unat c mod 64) # EncodeToString rest"

definition sextet1 :: "nat \<Rightarrow> nat \<Rightarrow> byte" where
  "sextet1 x y = word_of_nat (x * 4 + y div 16)"

definition sextet2 :: "nat \<Rightarrow> nat \<Rightarrow> byte" where
  "sextet2 y z = word_of_nat (y mod 16 * 16 + z div 4)"

definition sextet3 :: "nat \<Rightarrow> nat \<Rightarrow> byte" where
  "sextet3 z w = word_of_nat (z mod 4 * 64 + w)"

fun b64_decode :: "string \<Rightarrow> bytes \<times> bool" where
  "b64_decode [] = ([], False)"
| "b64_decode (a # b # c # d # rest) =
     (case (b64_value a, b64_value b) of
        (Some x, Some y) \<Rightarrow>
          (if c = CHR ''='' then
             (if d = CHR ''='' then ([sextet1 x y], rest \<noteq> []) else ([], True))
           else (case b64_value c of
               None \<Rightarrow> ([], True)
             | Some z \<Rightarrow>
                 (if d = CHR ''='' then ([sextet1 x y, sextet2 y z], rest \<noteq> [])
                  else (case b64_value d of
                      None \<Rightarrow> ([], True)
                    | Some w \<Rightarrow>
                        (case b64_decode rest of (bs, err) \<Rightarrow>
                          (sextet1 x y # sextet2 y z # sextet3 z w # bs, err))))))
      | _ \<Rightarrow> ([], True))"
| "b64_decode _ = ([], True)"

text \<open>\<^verbatim>\<open>base64.StdEncoding.DecodeString\<close>: line breaks are dropped first.\<close>

definition DecodeString :: "string \<Rightarrow> bytes \<times> bool" where
  "DecodeString s = b64_decode (filter (\<lambda>c. c \<noteq> CHR 0x0A \<and> c \<noteq> CHR 0x0D) s)"

subsection \<open>Lemmas\<close>

lemma length_packInt [simp, pack_simps]: "length (packInt v) = 4"
  by (simp add: packInt_def)

lemma unpackInt_packInt: "unpackInt (packInt v) = v"
proof (rule bit_word_eqI)
  fix n :: nat
  assume "n < LENGTH(32)"
  then have "n < 8 \<or> (8 \<le> n \<and> n < 16) \<or> (16 \<le> n \<and> n < 24) \<or> (24 \<le> n \<and> n < 32)"
    by auto
  then show "bit (unpackInt (packInt v)) n = bit v n"
    by (auto simp: unpackInt_def packInt_def bit_simps)
qed

lemma packInt_inject [simp]: "packInt v = packInt w \<longleftrightarrow> v = w"
  by (metis unpackInt_packInt)

lemma b64_table:
  "list_all (\<lambda>n. b64_value (b64_char n) = Some n \<and> b64_char n \<noteq> CHR ''='' \<and>
     b64_char n \<noteq> CHR 0x0A \<and> b64_char n \<noteq> CHR 0x0D \<and> b64_char n \<noteq> CHR '' '') [0..<64]"
  by code_simp

lemma b64_value_char [simp]: "n < 64 \<Longrightarrow> b64_value (b64_char n) = Some n"
  using b64_table by (simp add: list_all_iff)

lemma b64_char_plain [simp]:
  "n < 64 \<Longrightarrow> b64_char n \<noteq> CHR ''=''" "n < 64 \<Longrightarrow> b64_char n \<noteq> CHR 0x0A"
  "n < 64 \<Longrightarrow> b64_char n \<noteq> CHR 0x0D" "n < 64 \<Longrightarrow> b64_char n \<noteq> CHR '' ''"
  using b64_table by (simp_all add: list_all_iff)

lemma unat_byte_bound [simp]: "unat (a :: byte) < 256"
  using unsigned_less[of a] by simp

lemma sextet_bounds [simp]:
  "unat (a :: byte) div 4 < 64" "unat a mod 4 * 16 < 64" "unat a mod 16 * 4 < 64"
  "unat a mod 4 * 16 + unat (b :: byte) div 16 < 64" "unat a mod 16 * 4 + unat b div 64 < 64"
  using unat_byte_bound[of a] unat_byte_bound[of b] by linarith+

lemma word_of_unat_byte: "word_of_nat (unat a) = (a :: byte)"
  by simp

text \<open>Cutting three bytes into four sextets and joining them again, on natural numbers.\<close>

lemma nat_join1: "b < 256 \<Longrightarrow> a div 4 * 4 + (a mod 4 * 16 + b div 16) div 16 = (a :: nat)"
proof -
  assume "b < 256"
  then have "b div 16 < 16" by linarith
  then show ?thesis by simp
qed

lemma nat_join2:
  "b < 256 \<Longrightarrow> c < 256 \<Longrightarrow>
     (a mod 4 * 16 + b div 16) mod 16 * 16 + (b mod 16 * 4 + c div 64) div 4 = (b :: nat)"
proof -
  assume "b < 256" and "c < 256"
  then have "b div 16 < 16" and "c div 64 < 4" by linarith+
  then show ?thesis by simp
qed

lemma nat_join3: "c < 256 \<Longrightarrow> (b mod 16 * 4 + c div 64) mod 4 * 64 + c mod 64 = (c :: nat)"
proof -
  assume "c < 256"
  then have "c div 64 < 4" by linarith
  then show ?thesis by simp
qed

lemma sextet1_join: "sextet1 (unat a div 4) (unat a mod 4 * 16 + unat b div 16) = a"
  for a b :: byte
  by (simp only: sextet1_def nat_join1 unat_byte_bound word_of_unat_byte)

lemma sextet2_join:
  "sextet2 (unat a mod 4 * 16 + unat b div 16) (unat b mod 16 * 4 + unat c div 64) = b"
  for a b c :: byte
  by (simp only: sextet2_def nat_join2 unat_byte_bound word_of_unat_byte)

lemma sextet3_join: "sextet3 (unat b mod 16 * 4 + unat c div 64) (unat c mod 64) = c"
  for b c :: byte
  by (simp only: sextet3_def nat_join3 unat_byte_bound word_of_unat_byte)

lemma sextet1_last: "sextet1 (unat a div 4) (unat a mod 4 * 16) = a" for a :: byte
  using sextet1_join[of a 0] by simp

lemma sextet2_last: "sextet2 (unat a mod 4 * 16 + unat b div 16) (unat b mod 16 * 4) = b"
  for a b :: byte
  using sextet2_join[of a b 0] by simp

lemmas sextet_joins = sextet1_join sextet1_last sextet2_join sextet2_last sextet3_join

lemma b64_decode_encode: "b64_decode (EncodeToString bs) = (bs, False)"
  by (induction bs rule: EncodeToString.induct) (simp_all add: sextet_joins)

lemma EncodeToString_no_newlines:
  "filter (\<lambda>c. c \<noteq> CHR 0x0A \<and> c \<noteq> CHR 0x0D) (EncodeToString bs) = EncodeToString bs"
  by (induction bs rule: EncodeToString.induct) simp_all

lemma EncodeToString_no_space: "CHR '' '' \<notin> set (EncodeToString bs)"
  by (induction bs rule: EncodeToString.induct) (simp_all add: eq_commute[of "CHR '' ''"])

text \<open>Decoding a 28 character string with one padding character gives an address of 20 bytes.\<close>

lemma length_EncodeToString: "length (EncodeToString bs) = 4 * ((length bs + 2) div 3)"
  by (induction bs rule: EncodeToString.induct) (simp_all, arith)

subsection \<open>Properties\<close>

text \<open>\<^verbatim>\<open>packInt\<close> writes exactly four bytes, and reading them back as a little-endian integer gives the
  packed value, for all \<open>2 ^ 32\<close> values.\<close>

theorem packInt_roundtrip: "length (packInt v) = 4 \<and> unpackInt (packInt v) = v"
  by (simp add: unpackInt_packInt)

text \<open>Base64: \<^verbatim>\<open>DecodeString\<close> gives back the bytes that \<^verbatim>\<open>EncodeToString\<close> encoded, without an error,
  so the addresses and transaction ids that travel as text are not corrupted; the text of \<open>n\<close> bytes
  has \<open>4 * ((n + 2) div 3)\<close> characters.\<close>

theorem base64_roundtrip:
  "DecodeString (EncodeToString bs) = (bs, False) \<and> length (EncodeToString bs) = 4 * ((length bs + 2) div 3)"
  by (simp add: DecodeString_def EncodeToString_no_newlines b64_decode_encode length_EncodeToString)

end
