(* ===== verification/Crypto.thy ===== *)
theory Crypto
  imports Encoding
begin

text \<open>
  What the program takes from outside \<^verbatim>\<open>src/\<close>: the third-party packages
  \<^verbatim>\<open>golang.org/x/crypto/scrypt\<close> and \<^verbatim>\<open>github.com/btcsuite/btcd/btcec\<close>, and the two package
  variables \<^verbatim>\<open>DIFFICULTY\<close> and \<^verbatim>\<open>BLOCK_SIZE_THRESHOLD\<close> that the tests and the client set.  They are
  the fields of one record \<open>env\<close>, an argument of every definition that uses them.  What the
  theorems rely on is stated by \<open>scrypt_ok\<close> (scrypt returns as many bytes as asked for) and
  \<open>ecdsa_ok\<close> (a signature made with a key verifies under that key).

  A btcec signature is its pair \<^verbatim>\<open>(R, S)\<close>, a public key its point \<^verbatim>\<open>(X, Y)\<close>, a private key its
  scalar \<^verbatim>\<open>D\<close>; the curve argument is always \<^verbatim>\<open>S256()\<close>.

  On top of them: \<^verbatim>\<open>Hash\<close> and \<^verbatim>\<open>PKHash\<close> of \<^verbatim>\<open>src/node/hash.go\<close>.
\<close>

type_synonym signature = "int \<times> int"
type_synonym pubkey = "int \<times> int"
type_synonym privkey = int

record env =
  scrypt_Key :: "bytes \<Rightarrow> bytes \<Rightarrow> nat \<Rightarrow> nat \<Rightarrow> nat \<Rightarrow> nat \<Rightarrow> byte slice"
  ParseSignature :: "bytes \<Rightarrow> signature option"
  ParsePubKey :: "bytes \<Rightarrow> pubkey option"
  Verify :: "signature \<Rightarrow> bytes \<Rightarrow> pubkey \<Rightarrow> bool"
  PrivKeyFromBytes :: "bytes \<Rightarrow> privkey"
  PubKey :: "privkey \<Rightarrow> pubkey"
  SerializeCompressed :: "pubkey \<Rightarrow> bytes"
  Sign :: "privkey \<Rightarrow> bytes \<Rightarrow> signature option"
  Serialize :: "signature \<Rightarrow> bytes"
  DIFFICULTY :: u32
  BLOCK_SIZE_THRESHOLD :: int

definition HASH_NUM_BYTES :: nat where "HASH_NUM_BYTES = 32"
definition PKHASH_NUM_BYTES :: nat where "PKHASH_NUM_BYTES = 20"
definition DATA_NUM_BYTES :: nat where "DATA_NUM_BYTES = 80"

text \<open>\<^verbatim>\<open>scrypt.Key\<close> returns a nil slice with its error, and both functions drop the error.\<close>

definition Hash :: "env \<Rightarrow> bytes \<Rightarrow> byte slice" where
  "Hash E data = scrypt_Key E data data 1024 1 1 32"

definition PKHash :: "env \<Rightarrow> bytes \<Rightarrow> byte slice" where
  "PKHash E data = scrypt_Key E data data 1024 1 1 20"

subsection \<open>Documented behaviour of the external packages\<close>

definition scrypt_ok :: "env \<Rightarrow> bool" where
  "scrypt_ok E \<longleftrightarrow> (\<forall>d n. \<exists>dk. scrypt_Key E d d 1024 1 1 n = Some dk \<and> length dk = n)"

definition ecdsa_ok :: "env \<Rightarrow> bool" where
  "ecdsa_ok E \<longleftrightarrow>
     (\<forall>priv. ParsePubKey E (SerializeCompressed E (PubKey E priv)) = Some (PubKey E priv)) \<and>
     (\<forall>priv h. \<exists>s. Sign E priv h = Some s \<and> ParseSignature E (Serialize E s) = Some s \<and>
        Verify E s h (PubKey E priv))"

subsection \<open>A concrete instance for evaluation\<close>

text \<open>
  A small total instance, used only to evaluate the definitions at concrete inputs: the digest is a
  zero byte, two checksums and the length; a signature of a digest under key \<open>d\<close> is the pair of
  the key and the digest's checksum.
\<close>

definition byte_sum :: "bytes \<Rightarrow> byte" where
  "byte_sum bs = fold (\<lambda>b s. s + b) bs 0"

definition byte_mix :: "bytes \<Rightarrow> byte" where
  "byte_mix bs = fold (\<lambda>b s. 3 * s + b) bs 0"

definition demo_digest :: "nat \<Rightarrow> bytes \<Rightarrow> bytes" where
  "demo_digest n bs = take n ([0, byte_sum bs, byte_mix bs, word_of_nat (length bs)] @ replicate n 0)"

definition demo_env :: env where
  "demo_env =
    \<lparr>scrypt_Key = (\<lambda>pw salt N r p n. Some (demo_digest n pw)),
     ParseSignature = (\<lambda>bs. case bs of [a, b] \<Rightarrow> Some (uint a, uint b) | _ \<Rightarrow> None),
     ParsePubKey = (\<lambda>bs. case bs of [a] \<Rightarrow> Some (uint a, 0) | _ \<Rightarrow> None),
     Verify = (\<lambda>s h pub. fst s = fst pub \<and> snd s = uint (byte_mix h)),
     PrivKeyFromBytes = (\<lambda>bs. uint (byte_sum bs)),
     PubKey = (\<lambda>d. (d mod 256, 0)),
     SerializeCompressed = (\<lambda>pub. [word_of_int (fst pub)]),
     Sign = (\<lambda>d h. Some (d mod 256, uint (byte_mix h))),
     Serialize = (\<lambda>s. [word_of_int (fst s), word_of_int (snd s)]),
     DIFFICULTY = 1,
     BLOCK_SIZE_THRESHOLD = 1\<rparr>"

subsection \<open>Lemmas\<close>

lemma Hash_ok: "scrypt_ok E \<Longrightarrow> \<exists>dk. Hash E d = Some dk \<and> length dk = HASH_NUM_BYTES"
  by (simp add: scrypt_ok_def Hash_def HASH_NUM_BYTES_def)

lemma PKHash_ok: "scrypt_ok E \<Longrightarrow> \<exists>dk. PKHash E d = Some dk \<and> length dk = PKHASH_NUM_BYTES"
  by (simp add: scrypt_ok_def PKHash_def PKHASH_NUM_BYTES_def)

lemma length_Hash [simp]: "scrypt_ok E \<Longrightarrow> length (sl (Hash E d)) = HASH_NUM_BYTES"
  using Hash_ok[of E d] by auto

lemma length_PKHash [simp]: "scrypt_ok E \<Longrightarrow> length (sl (PKHash E d)) = PKHASH_NUM_BYTES"
  using PKHash_ok[of E d] by auto

lemma Hash_eq_Some: "scrypt_ok E \<Longrightarrow> Hash E d = Some (sl (Hash E d))"
  using Hash_ok[of E d] by auto

lemma demo_scrypt_ok: "scrypt_ok demo_env"
  by (simp add: scrypt_ok_def demo_env_def demo_digest_def)

lemma uint_byte_mod [simp]: "uint (a :: byte) mod 256 = uint a"
  using uint_lt2p[of a] by simp

lemma demo_ecdsa_ok: "ecdsa_ok demo_env"
  by (simp add: ecdsa_ok_def demo_env_def uint_word_of_int)

end
