(* ===== verification/Transaction.thy ===== *)
theory Transaction
  imports Crypto
begin

text \<open>
  \<^verbatim>\<open>src/node/transaction.go\<close>: transactions, their byte layout, the two hashes and the structural
  checks.  A \<^verbatim>\<open>[]byte\<close> field is a byte list; \<^verbatim>\<open>TxIns\<close>, \<^verbatim>\<open>Parent\<close> and \<^verbatim>\<open>Content\<close>, which the code
  compares with nil, are slices.  Field names carry the prefixes \<open>ti_\<close>, \<open>to_\<close> and \<open>tx_\<close>.

  Packing uses Go's \<^verbatim>\<open>copy\<close> into a buffer of the computed size and so panics when a hash is too
  short for its fixed-size field; \<open>validateComponents\<close> is the check that excludes this.
\<close>

definition COINBASE :: u32 where "COINBASE = 0"
definition TRANSFER :: u32 where "TRANSFER = 1"
definition POST :: u32 where "POST = 2"
definition COMMENT :: u32 where "COMMENT = 3"
definition UPVOTE :: u32 where "UPVOTE = 4"

lemmas tx_type_defs = COINBASE_def TRANSFER_def POST_def COMMENT_def UPVOTE_def

definition TX_FEE :: nat where "TX_FEE = 1"
definition TX_UPVOTE :: nat where "TX_UPVOTE = 10"
definition TX_COINBASE :: nat where "TX_COINBASE = 100"

record TxIn =
  ti_PrevTxHash :: bytes
  ti_PrevTxOutIndex :: u32
  ti_Sig :: bytes
  ti_PubKey :: bytes

record TxOut =
  to_Value :: u32
  to_PubKeyHash :: bytes

record Transaction =
  tx_Type :: u32
  tx_TxIns :: "TxIn slice"
  tx_TxOuts :: "TxOut list"
  tx_Parent :: "byte slice"
  tx_Content :: "byte slice"

subsection \<open>Packing\<close>

definition TxIn_pack :: "TxIn \<Rightarrow> bytes go" where
  "TxIn_pack txIn =
     bind_go (copy_into (replicate (length (ti_PrevTxHash txIn) + 4 + length (ti_Sig txIn) +
                           length (ti_PubKey txIn)) 0)
                0 HASH_NUM_BYTES (ti_PrevTxHash txIn)) (\<lambda>data.
     bind_go (copy_into data HASH_NUM_BYTES (4 + HASH_NUM_BYTES) (packInt (ti_PrevTxOutIndex txIn))) (\<lambda>data.
     bind_go (copy_into data (4 + HASH_NUM_BYTES) (4 + HASH_NUM_BYTES + length (ti_Sig txIn)) (ti_Sig txIn)) (\<lambda>data.
     copy_into data (4 + HASH_NUM_BYTES + length (ti_Sig txIn))
       (4 + HASH_NUM_BYTES + length (ti_Sig txIn) + length (ti_PubKey txIn)) (ti_PubKey txIn))))"

definition TxIn_packNoSig :: "TxIn \<Rightarrow> bytes go" where
  "TxIn_packNoSig txIn =
     bind_go (copy_into (replicate (length (ti_PrevTxHash txIn) + 4 + length (ti_PubKey txIn)) 0)
                0 HASH_NUM_BYTES (ti_PrevTxHash txIn)) (\<lambda>data.
     bind_go (copy_into data HASH_NUM_BYTES (4 + HASH_NUM_BYTES) (packInt (ti_PrevTxOutIndex txIn))) (\<lambda>data.
     copy_into data (4 + HASH_NUM_BYTES) (4 + HASH_NUM_BYTES + length (ti_PubKey txIn)) (ti_PubKey txIn)))"

definition TxOut_pack :: "TxOut \<Rightarrow> bytes go" where
  "TxOut_pack txOut =
     bind_go (copy_into (replicate (4 + length (to_PubKeyHash txOut)) 0) 0 4 (packInt (to_Value txOut))) (\<lambda>data.
     copy_into data 4 (4 + PKHASH_NUM_BYTES) (to_PubKeyHash txOut))"

subsection \<open>Hashing\<close>

text \<open>The bytes both hash functions feed to scrypt, with the packing of an input as a parameter.\<close>

definition tx_data :: "(TxIn \<Rightarrow> bytes go) \<Rightarrow> Transaction \<Rightarrow> bytes go" where
  "tx_data pack_in tx =
     bind_go (mapM_go pack_in (sl (tx_TxIns tx))) (\<lambda>ins.
     bind_go (mapM_go TxOut_pack (tx_TxOuts tx)) (\<lambda>outs.
     Ret (packInt (tx_Type tx) @ concat ins @ concat outs @ sl (tx_Parent tx) @ sl (tx_Content tx))))"

definition Tx_Hash :: "env \<Rightarrow> Transaction \<Rightarrow> byte slice go" where
  "Tx_Hash E tx = bind_go (tx_data TxIn_pack tx) (\<lambda>data. Ret (Hash E data))"

definition Tx_Id :: "env \<Rightarrow> Transaction \<Rightarrow> string go" where
  "Tx_Id E tx = bind_go (Tx_Hash E tx) (\<lambda>h. Ret (EncodeToString (sl h)))"

text \<open>A verdict \<^verbatim>\<open>(bool, error)\<close>: \<open>None\<close> is \<^verbatim>\<open>(true, nil)\<close>, \<open>Some e\<close> is \<^verbatim>\<open>(false, errors.New(e))\<close>.\<close>

type_synonym verdict = "string option"

definition validateComponents :: "Transaction \<Rightarrow> verdict" where
  "validateComponents tx =
     (if \<exists>txOut \<in> set (tx_TxOuts tx). length (to_PubKeyHash txOut) \<noteq> PKHASH_NUM_BYTES
      then Some ''Output PubKeyHash should be 20 bytes''
      else if \<exists>txIn \<in> set (sl (tx_TxIns tx)). length (ti_PrevTxHash txIn) \<noteq> HASH_NUM_BYTES
      then Some ''Input PrevTxHash should be 32 bytes''
      else None)"

definition HashNoSig :: "env \<Rightarrow> Transaction \<Rightarrow> (string + byte slice) go" where
  "HashNoSig E tx =
     (case validateComponents tx of
        Some err \<Rightarrow> Ret (Inl err)
      | None \<Rightarrow> bind_go (tx_data TxIn_packNoSig tx) (\<lambda>data. Ret (Inr (Hash E data))))"

subsection \<open>Structural validation\<close>

text \<open>
  \<^verbatim>\<open>ValidateStructure\<close>, one definition per block of the function; the \<open>go\<close> result is there for
  \<^verbatim>\<open>tx.TxIns[0]\<close>, which panics on a transaction without inputs.
\<close>

definition structure_post :: "env \<Rightarrow> Transaction \<Rightarrow> verdict go" where
  "structure_post E tx =
     (if tx_Type tx = POST \<or> tx_Type tx = COMMENT then
        (if length (tx_TxOuts tx) \<noteq> 1 then Ret (Some ''Transaction should only have one output'')
         else bind_go (go_nth (sl (tx_TxIns tx)) 0) (\<lambda>in0.
              bind_go (go_nth (tx_TxOuts tx) 0) (\<lambda>out0.
              if sl (PKHash E (ti_PubKey in0)) \<noteq> to_PubKeyHash out0
              then Ret (Some ''Output PubKeyHash not consistent with input'') else Ret None)))
      else Ret None)"

definition structure_upvote :: "env \<Rightarrow> Transaction \<Rightarrow> verdict go" where
  "structure_upvote E tx =
     (if tx_Type tx = UPVOTE then
        (if length (tx_TxOuts tx) \<noteq> 2 then Ret (Some ''Upvote Tx should only have two outputs'')
         else bind_go (go_nth (sl (tx_TxIns tx)) 0) (\<lambda>in0.
              bind_go (go_nth (tx_TxOuts tx) 1) (\<lambda>out1.
              if sl (PKHash E (ti_PubKey in0)) \<noteq> to_PubKeyHash out1
              then Ret (Some ''Output PubKeyHash not consistent with input'') else Ret None)))
      else Ret None)"

definition structure_parent :: "Transaction \<Rightarrow> verdict" where
  "structure_parent tx =
     (if tx_Type tx = COMMENT \<or> tx_Type tx = UPVOTE then
        (if tx_Parent tx = None then Some ''Comment/Upvote Tx must have parent'' else None)
      else (if tx_Parent tx \<noteq> None then Some ''Transfer/Post Tx should not parent'' else None))"

definition ValidateStructure :: "env \<Rightarrow> Transaction \<Rightarrow> verdict go" where
  "ValidateStructure E tx =
     bind_go (structure_post E tx) (\<lambda>v1.
       if v1 \<noteq> None then Ret v1
       else bind_go (structure_upvote E tx) (\<lambda>v2.
         if v2 \<noteq> None then Ret v2 else Ret (structure_parent tx)))"

lemmas structure_defs = ValidateStructure_def structure_post_def structure_upvote_def structure_parent_def

subsection \<open>Byte layout\<close>

lemma replicate_split: "n = a + b \<Longrightarrow> replicate n x = replicate a x @ replicate b x"
  by (simp add: replicate_add)

lemma TxIn_pack_layout [pack_simps]:
  assumes "length (ti_PrevTxHash t) = HASH_NUM_BYTES"
  shows "TxIn_pack t = Ret (ti_PrevTxHash t @ packInt (ti_PrevTxOutIndex t) @ ti_Sig t @ ti_PubKey t)"
  using assms by (simp add: TxIn_pack_def copy_into_def HASH_NUM_BYTES_def)

lemma TxIn_packNoSig_layout [pack_simps]:
  assumes "length (ti_PrevTxHash t) = HASH_NUM_BYTES"
  shows "TxIn_packNoSig t = Ret (ti_PrevTxHash t @ packInt (ti_PrevTxOutIndex t) @ ti_PubKey t)"
  using assms by (simp add: TxIn_packNoSig_def copy_into_def HASH_NUM_BYTES_def)

lemma TxOut_pack_layout [pack_simps]:
  assumes "length (to_PubKeyHash t) = PKHASH_NUM_BYTES"
  shows "TxOut_pack t = Ret (packInt (to_Value t) @ to_PubKeyHash t)"
  using assms by (simp add: TxOut_pack_def copy_into_def PKHASH_NUM_BYTES_def)

lemma TxIn_pack_returns: "(\<exists>d. TxIn_pack t = Ret d) \<longleftrightarrow> HASH_NUM_BYTES \<le> length (ti_PrevTxHash t)"
  by (auto simp: TxIn_pack_def go_simps copy_into_def HASH_NUM_BYTES_def)

lemma TxOut_pack_returns: "(\<exists>d. TxOut_pack t = Ret d) \<longleftrightarrow> PKHASH_NUM_BYTES \<le> length (to_PubKeyHash t)"
  by (auto simp: TxOut_pack_def go_simps copy_into_def PKHASH_NUM_BYTES_def)

lemma validateComponents_None:
  "validateComponents tx = None \<longleftrightarrow>
     (\<forall>t \<in> set (tx_TxOuts tx). length (to_PubKeyHash t) = PKHASH_NUM_BYTES) \<and>
     (\<forall>t \<in> set (sl (tx_TxIns tx)). length (ti_PrevTxHash t) = HASH_NUM_BYTES)"
  by (auto simp: validateComponents_def)

text \<open>The unpadded layout: what the packing writes when every hash has its nominal size.\<close>

definition in_layout :: "TxIn \<Rightarrow> bytes" where
  "in_layout t = ti_PrevTxHash t @ packInt (ti_PrevTxOutIndex t) @ ti_Sig t @ ti_PubKey t"

definition in_layout_nosig :: "TxIn \<Rightarrow> bytes" where
  "in_layout_nosig t = ti_PrevTxHash t @ packInt (ti_PrevTxOutIndex t) @ ti_PubKey t"

definition out_layout :: "TxOut \<Rightarrow> bytes" where
  "out_layout t = packInt (to_Value t) @ to_PubKeyHash t"

definition tx_layout :: "(TxIn \<Rightarrow> bytes) \<Rightarrow> Transaction \<Rightarrow> bytes" where
  "tx_layout lay tx = packInt (tx_Type tx) @ concat (map lay (sl (tx_TxIns tx))) @
     concat (map out_layout (tx_TxOuts tx)) @ sl (tx_Parent tx) @ sl (tx_Content tx)"

lemma tx_data_layout:
  assumes "validateComponents tx = None"
  shows "tx_data TxIn_pack tx = Ret (tx_layout in_layout tx)"
    and "tx_data TxIn_packNoSig tx = Ret (tx_layout in_layout_nosig tx)"
proof -
  note comps = assms[unfolded validateComponents_None]
  have outs: "mapM_go TxOut_pack (tx_TxOuts tx) = Ret (map out_layout (tx_TxOuts tx))"
    using comps by (intro mapM_go_all_Ret) (simp add: TxOut_pack_layout out_layout_def)
  have "mapM_go TxIn_pack (sl (tx_TxIns tx)) = Ret (map in_layout (sl (tx_TxIns tx)))"
    using comps by (intro mapM_go_all_Ret) (simp add: TxIn_pack_layout in_layout_def)
  with outs show "tx_data TxIn_pack tx = Ret (tx_layout in_layout tx)"
    by (simp add: tx_data_def tx_layout_def)
  have "mapM_go TxIn_packNoSig (sl (tx_TxIns tx)) = Ret (map in_layout_nosig (sl (tx_TxIns tx)))"
    using comps by (intro mapM_go_all_Ret) (simp add: TxIn_packNoSig_layout in_layout_nosig_def)
  with outs show "tx_data TxIn_packNoSig tx = Ret (tx_layout in_layout_nosig tx)"
    by (simp add: tx_data_def tx_layout_def)
qed

lemma Tx_Hash_layout:
  "validateComponents tx = None \<Longrightarrow> Tx_Hash E tx = Ret (Hash E (tx_layout in_layout tx))"
  by (simp add: Tx_Hash_def tx_data_layout)

lemma Tx_Hash_Ret_Some:
  "scrypt_ok E \<Longrightarrow> Tx_Hash E tx = Ret h \<Longrightarrow> \<exists>dk. h = Some dk \<and> length dk = HASH_NUM_BYTES"
  using Hash_ok by (auto simp: Tx_Hash_def go_simps)

lemma Tx_Hash_returns:
  "(\<exists>h. Tx_Hash E tx = Ret h) \<longleftrightarrow>
     (\<forall>t \<in> set (sl (tx_TxIns tx)). HASH_NUM_BYTES \<le> length (ti_PrevTxHash t)) \<and>
     (\<forall>t \<in> set (tx_TxOuts tx). PKHASH_NUM_BYTES \<le> length (to_PubKeyHash t))"
proof -
  have "(\<exists>h. Tx_Hash E tx = Ret h) \<longleftrightarrow>
      (\<exists>ins. mapM_go TxIn_pack (sl (tx_TxIns tx)) = Ret ins) \<and> (\<exists>outs. mapM_go TxOut_pack (tx_TxOuts tx) = Ret outs)"
    by (auto simp: Tx_Hash_def tx_data_def go_simps)
  then show ?thesis by (simp add: mapM_go_returns TxIn_pack_returns TxOut_pack_returns)
qed

text \<open>Signing: the digest that is signed does not depend on the signatures.\<close>

definition with_sigs :: "(TxIn \<Rightarrow> bytes) \<Rightarrow> Transaction \<Rightarrow> Transaction" where
  "with_sigs f tx = tx\<lparr>tx_TxIns := map_option (map (\<lambda>t. t\<lparr>ti_Sig := f t\<rparr>)) (tx_TxIns tx)\<rparr>"

lemma sl_map_option: "sl (map_option (map f) s) = map f (sl s)"
  by (cases s) auto

lemma mapM_go_map: "mapM_go f (map g xs) = mapM_go (\<lambda>x. f (g x)) xs"
  by (induction xs) simp_all

lemma validateComponents_with_sigs [simp]: "validateComponents (with_sigs f tx) = validateComponents tx"
  by (simp add: validateComponents_def with_sigs_def sl_map_option)

lemma TxIn_packNoSig_Sig [simp]: "TxIn_packNoSig (t\<lparr>ti_Sig := s\<rparr>) = TxIn_packNoSig t"
  by (simp add: TxIn_packNoSig_def)

lemma tx_data_with_sigs: "tx_data TxIn_packNoSig (with_sigs f tx) = tx_data TxIn_packNoSig tx"
  by (simp add: tx_data_def with_sigs_def sl_map_option mapM_go_map)

subsection \<open>Injectivity of the layout\<close>

definition same_shape :: "Transaction \<Rightarrow> Transaction \<Rightarrow> bool" where
  "same_shape tx tx' \<longleftrightarrow>
     list_all2 (\<lambda>t t'. length (ti_Sig t) = length (ti_Sig t')) (sl (tx_TxIns tx)) (sl (tx_TxIns tx')) \<and>
     list_all2 (\<lambda>t t'. length (ti_PubKey t) = length (ti_PubKey t')) (sl (tx_TxIns tx)) (sl (tx_TxIns tx')) \<and>
     length (tx_TxOuts tx) = length (tx_TxOuts tx') \<and>
     length (sl (tx_Parent tx)) = length (sl (tx_Parent tx'))"

lemma in_layout_inject:
  assumes "length (ti_PrevTxHash t) = length (ti_PrevTxHash t')"
    and "length (ti_Sig t) = length (ti_Sig t')"
    and "in_layout t @ r = in_layout t' @ r'" and "length (ti_PubKey t) = length (ti_PubKey t')"
  shows "t = t' \<and> r = r'"
  using assms by (simp add: in_layout_def)

lemma ins_layout_inject:
  assumes "list_all2 (\<lambda>t t'. length (ti_Sig t) = length (ti_Sig t')) xs ys"
    and "list_all2 (\<lambda>t t'. length (ti_PubKey t) = length (ti_PubKey t')) xs ys"
    and "\<forall>t \<in> set xs \<union> set ys. length (ti_PrevTxHash t) = n"
    and "concat (map in_layout xs) @ r = concat (map in_layout ys) @ r'"
  shows "xs = ys \<and> r = r'"
  using assms
proof (induction xs arbitrary: ys)
  case Nil
  then show ?case by simp
next
  case (Cons x xs)
  then obtain y ys' where ys: "ys = y # ys'" by (cases ys) auto
  have "x = y \<and> concat (map in_layout xs) @ r = concat (map in_layout ys') @ r'"
    using Cons.prems unfolding ys by (intro in_layout_inject) simp_all
  with Cons ys show ?case by simp
qed

lemma outs_layout_inject:
  assumes "length xs = length ys"
    and "\<forall>t \<in> set xs \<union> set ys. length (to_PubKeyHash t) = n"
    and "concat (map out_layout xs) @ r = concat (map out_layout ys) @ r'"
  shows "xs = ys \<and> r = r'"
  using assms
proof (induction xs arbitrary: ys)
  case Nil
  then show ?case by simp
next
  case (Cons x xs)
  then obtain y ys' where ys: "ys = y # ys'" by (cases ys) auto
  have "out_layout x @ concat (map out_layout xs) @ r = out_layout y @ concat (map out_layout ys') @ r'"
    using Cons.prems(3) ys by simp
  moreover have "length (to_PubKeyHash x) = length (to_PubKeyHash y)"
    using Cons.prems(2) ys by simp
  ultimately have "x = y \<and> concat (map out_layout xs) @ r = concat (map out_layout ys') @ r'"
    by (simp add: out_layout_def[of x] out_layout_def[of y])
  with Cons ys show ?case by simp
qed

lemma tx_layout_inject:
  assumes ok: "validateComponents tx = None" "validateComponents tx' = None"
    and shape: "same_shape tx tx'"
    and eq: "tx_layout in_layout tx = tx_layout in_layout tx'"
  shows "tx_Type tx = tx_Type tx' \<and> sl (tx_TxIns tx) = sl (tx_TxIns tx') \<and> tx_TxOuts tx = tx_TxOuts tx' \<and>
    sl (tx_Parent tx) = sl (tx_Parent tx') \<and> sl (tx_Content tx) = sl (tx_Content tx')"
proof -
  let ?rest = "\<lambda>tx. concat (map out_layout (tx_TxOuts tx)) @ sl (tx_Parent tx) @ sl (tx_Content tx)"
  from eq have ty: "tx_Type tx = tx_Type tx'"
    and "concat (map in_layout (sl (tx_TxIns tx))) @ ?rest tx = concat (map in_layout (sl (tx_TxIns tx'))) @ ?rest tx'"
    by (simp_all add: tx_layout_def)
  with ok shape have ins: "sl (tx_TxIns tx) = sl (tx_TxIns tx')" and "?rest tx = ?rest tx'"
    by (auto simp: same_shape_def validateComponents_None dest!: ins_layout_inject)
  with ok shape have "tx_TxOuts tx = tx_TxOuts tx'"
    and "sl (tx_Parent tx) @ sl (tx_Content tx) = sl (tx_Parent tx') @ sl (tx_Content tx')"
    by (auto simp: same_shape_def validateComponents_None dest!: outs_layout_inject)
  with ty ins shape show ?thesis by (simp add: same_shape_def)
qed

subsection \<open>Structural validation\<close>

lemma ValidateStructure_Ret_None:
  assumes "sl (tx_TxIns tx) = in0 # ins"
  shows "ValidateStructure E tx = Ret None \<longleftrightarrow>
    (tx_Type tx = POST \<or> tx_Type tx = COMMENT \<longrightarrow>
       (\<exists>out. tx_TxOuts tx = [out] \<and> to_PubKeyHash out = sl (PKHash E (ti_PubKey in0)))) \<and>
    (tx_Type tx = UPVOTE \<longrightarrow>
       (\<exists>out0 out1. tx_TxOuts tx = [out0, out1] \<and> to_PubKeyHash out1 = sl (PKHash E (ti_PubKey in0)))) \<and>
    (tx_Parent tx \<noteq> None \<longleftrightarrow> tx_Type tx = COMMENT \<or> tx_Type tx = UPVOTE)"
proof -
  have one: "length xs = Suc 0 \<longleftrightarrow> (\<exists>x. xs = [x])" and two: "length xs = 2 \<longleftrightarrow> (\<exists>x y. xs = [x, y])"
    for xs :: "TxOut list"
    by (auto simp: length_Suc_conv numeral_2_eq_2)
  consider "tx_Type tx = POST" | "tx_Type tx = COMMENT" | "tx_Type tx = UPVOTE"
    | "tx_Type tx \<notin> {POST, COMMENT, UPVOTE}" by blast
  then show ?thesis
    using assms by cases (auto simp: structure_defs tx_type_defs one two go_nth_def go_simps split: if_splits)
qed

lemma ValidateStructure_panics:
  "ValidateStructure E tx = Panic p \<longleftrightarrow>
     p = IndexOutOfRange \<and> sl (tx_TxIns tx) = [] \<and>
     ((tx_Type tx = POST \<or> tx_Type tx = COMMENT) \<and> length (tx_TxOuts tx) = 1 \<or>
      tx_Type tx = UPVOTE \<and> length (tx_TxOuts tx) = 2)"
proof -
  consider "tx_Type tx = POST" | "tx_Type tx = COMMENT" | "tx_Type tx = UPVOTE"
    | "tx_Type tx \<notin> {POST, COMMENT, UPVOTE}" by blast
  then show ?thesis
    by cases (auto simp: structure_defs tx_type_defs go_nth_def bind_go_eq_Panic split: if_splits)
qed

subsection \<open>Concrete transactions for evaluation\<close>

text \<open>A payment of \<open>v\<close> to the owner of the demo key \<open>k\<close>, and a post of that key spending output 0 of \<open>h\<close>.\<close>

definition demo_addr :: "byte \<Rightarrow> bytes" where
  "demo_addr k = sl (PKHash demo_env [k])"

definition demo_grant :: "byte \<Rightarrow> u32 \<Rightarrow> Transaction" where
  "demo_grant k v = \<lparr>tx_Type = COINBASE, tx_TxIns = None,
     tx_TxOuts = [\<lparr>to_Value = v, to_PubKeyHash = demo_addr k\<rparr>], tx_Parent = None, tx_Content = None\<rparr>"

definition demo_post :: "byte \<Rightarrow> bytes \<Rightarrow> u32 \<Rightarrow> Transaction" where
  "demo_post k h v = \<lparr>tx_Type = POST,
     tx_TxIns = Some [\<lparr>ti_PrevTxHash = h, ti_PrevTxOutIndex = 0, ti_Sig = [], ti_PubKey = [k]\<rparr>],
     tx_TxOuts = [\<lparr>to_Value = v, to_PubKeyHash = demo_addr k\<rparr>], tx_Parent = None, tx_Content = Some [104, 105]\<rparr>"

lemma demo_components [simp]:
  "validateComponents (demo_grant k v) = None"
  "length h = 32 \<Longrightarrow> validateComponents (demo_post k h v) = None"
  by (simp_all add: validateComponents_None demo_grant_def demo_post_def demo_addr_def demo_scrypt_ok HASH_NUM_BYTES_def)

subsection \<open>Properties\<close>

text \<open>The transaction hash is computed if and only if every hash field has at least its nominal size
  (32 bytes in inputs, 20 in outputs); a shorter one makes \<^verbatim>\<open>Hash\<close> panic, for every hash function.\<close>

theorem Tx_Hash_panics_iff:
  "(\<exists>p. Tx_Hash E tx = Panic p) \<longleftrightarrow>
     list_ex (\<lambda>t. length (ti_PrevTxHash t) < 32) (sl (tx_TxIns tx)) \<or>
     list_ex (\<lambda>t. length (to_PubKeyHash t) < 20) (tx_TxOuts tx)"
proof -
  have "(\<exists>p. Tx_Hash E tx = Panic p) \<longleftrightarrow> \<not> (\<exists>h. Tx_Hash E tx = Ret h)" by (cases "Tx_Hash E tx") auto
  then show ?thesis unfolding Tx_Hash_returns
    by (auto simp: list_ex_iff HASH_NUM_BYTES_def PKHASH_NUM_BYTES_def not_le)
qed

text \<open>The serialised bytes of a transaction determine it, among transactions whose components have the
  nominal sizes and whose variable-size fields have the same lengths.\<close>

theorem tx_data_injective:
  assumes "validateComponents tx = None" and "validateComponents tx' = None" and "same_shape tx tx'"
    and "tx_data TxIn_pack tx = tx_data TxIn_pack tx'"
  shows "tx_Type tx = tx_Type tx' \<and> sl (tx_TxIns tx) = sl (tx_TxIns tx') \<and> tx_TxOuts tx = tx_TxOuts tx' \<and>
    sl (tx_Parent tx) = sl (tx_Parent tx') \<and> sl (tx_Content tx) = sl (tx_Content tx')"
  using assms by (intro tx_layout_inject) (simp_all add: tx_data_layout)

theorem tx_data_injective_witness:
  "tx_data TxIn_pack (demo_grant 7 5) = tx_data TxIn_pack ((demo_grant 7 5)\<lparr>tx_TxIns := Some []\<rparr>) \<and>
   sl (tx_TxIns (demo_grant 7 5)) = sl (tx_TxIns ((demo_grant 7 5)\<lparr>tx_TxIns := Some []\<rparr>))"
proof -
  let ?a = "demo_grant 7 5" and ?b = "(demo_grant 7 5)\<lparr>tx_TxIns := Some []\<rparr>"
  have "validateComponents ?b = None" by (simp add: validateComponents_None demo_grant_def demo_addr_def demo_scrypt_ok)
  moreover have "same_shape ?a ?b" by (simp add: same_shape_def demo_grant_def)
  moreover have "tx_data TxIn_pack ?a = tx_data TxIn_pack ?b" by (simp add: tx_data_def demo_grant_def)
  ultimately show ?thesis using tx_data_injective[of ?a ?b] by simp
qed

text \<open>The bytes to sign do not depend on the signatures: replacing the signatures of the inputs of any
  transaction in any way leaves the result of \<^verbatim>\<open>HashNoSig\<close> unchanged, its error included.\<close>

theorem HashNoSig_ignores_signatures: "HashNoSig E (with_sigs f tx) = HashNoSig E tx"
  by (simp add: HashNoSig_def tx_data_with_sigs split: option.split)

text \<open>\<^verbatim>\<open>ValidateStructure\<close> on a transaction with inputs accepts exactly the posts and comments with one
  output back to the author, the upvotes with two outputs of which the second goes back to the voter,
  and any other type, provided that comments and upvotes, and only they, have a parent.\<close>

theorem ValidateStructure_accepts:
  assumes "sl (tx_TxIns tx) = in0 # ins"
  shows "ValidateStructure E tx = Ret None \<longleftrightarrow>
    (if tx_Type tx = POST \<or> tx_Type tx = COMMENT
     then length (tx_TxOuts tx) = 1 \<and> to_PubKeyHash (tx_TxOuts tx ! 0) = sl (PKHash E (ti_PubKey in0))
     else if tx_Type tx = UPVOTE
     then length (tx_TxOuts tx) = 2 \<and> to_PubKeyHash (tx_TxOuts tx ! 1) = sl (PKHash E (ti_PubKey in0))
     else True) \<and>
    (tx_Parent tx \<noteq> None) = (tx_Type tx = COMMENT \<or> tx_Type tx = UPVOTE)"
  unfolding ValidateStructure_Ret_None[OF assms]
  by (auto simp: tx_type_defs length_Suc_conv numeral_2_eq_2)

theorem ValidateStructure_accepts_witness:
  "ValidateStructure demo_env (demo_post 7 (replicate 32 0) 5) = Ret None"
  using ValidateStructure_accepts[of "demo_post 7 (replicate 32 0) 5" _ "[]" demo_env]
  by (simp add: demo_post_def demo_addr_def tx_type_defs)

text \<open>\<^verbatim>\<open>ValidateStructure\<close> panics (an index out of range, reading \<^verbatim>\<open>tx.TxIns[0]\<close>) exactly on posts and
  comments with one output and on upvotes with two outputs that have no input.\<close>

theorem ValidateStructure_panics_iff:
  "ValidateStructure E tx = Panic p \<longleftrightarrow>
     p = IndexOutOfRange \<and> sl (tx_TxIns tx) = [] \<and>
     ((tx_Type tx = POST \<or> tx_Type tx = COMMENT) \<and> length (tx_TxOuts tx) = 1 \<or>
      tx_Type tx = UPVOTE \<and> length (tx_TxOuts tx) = 2)"
  by (rule ValidateStructure_panics)

end
