(* ===== verification/Merkle.thy ===== *)
theory Merkle
  imports Transaction
begin

unbundle bit_operations_syntax

text \<open>
  \<^verbatim>\<open>src/node/merkle.go\<close>: the Merkle root of a block's transactions, computed in a linear array.  The
  array is a list of slices (\<open>None\<close> is a nil entry); every index is checked, so the equivalence with
  the recursive \<open>merkle_root\<close> also shows that no index is out of range.
\<close>

text \<open>
  \<^verbatim>\<open>uint(math.Log2(float64(n)))\<close> for \<open>0 < n\<close>.  A float64 represents every length below
  \<open>2 ^ 53\<close> exactly, and below \<open>2 ^ 48\<close> the distance from the logarithm of a number that is not a
  power of two to the next integer is more than the rounding error: the truncation is the floor.
\<close>

fun floor_log2 :: "nat \<Rightarrow> nat" where
  "floor_log2 n = (if n \<le> 1 then 0 else Suc (floor_log2 (n div 2)))"

declare floor_log2.simps [simp del]

definition nextPowerOfTwo :: "int \<Rightarrow> int" where
  "nextPowerOfTwo n =
     (if n AND (n - 1) = 0 then n
      else push_bit (floor_log2 (nat n) + 1) 1)"

definition HashMerkleBranches :: "env \<Rightarrow> bytes \<Rightarrow> bytes \<Rightarrow> byte slice go" where
  "HashMerkleBranches E left right =
     bind_go (copy_into (replicate (HASH_NUM_BYTES * 2) 0) 0 HASH_NUM_BYTES left) (\<lambda>hashData.
     bind_go (copy_into hashData HASH_NUM_BYTES (HASH_NUM_BYTES * 2) right) (\<lambda>hashData.
     Ret (Hash E hashData)))"

text \<open>One turn of the switch: the parent of the entries at \<open>i\<close> and \<open>i + 1\<close>.\<close>

definition merkle_parent :: "env \<Rightarrow> byte slice \<Rightarrow> byte slice \<Rightarrow> byte slice go" where
  "merkle_parent E left right =
     (case left of
        None \<Rightarrow> Ret None
      | Some l \<Rightarrow> (case right of
            None \<Rightarrow> HashMerkleBranches E l l
          | Some r \<Rightarrow> HashMerkleBranches E l r))"

text \<open>
  \<^verbatim>\<open>for i := 0; i < arraySize-1; i += 2\<close>.  The right entry is read only when the left one is not
  nil, as in the switch.
\<close>

function merkle_loop :: "env \<Rightarrow> nat \<Rightarrow> nat \<Rightarrow> byte slice list \<Rightarrow> byte slice list go" where
  "merkle_loop E i offset merkles =
     (if i + 1 < length merkles then
        bind_go (go_nth merkles i) (\<lambda>left.
        bind_go (if left = None then Ret None else go_nth merkles (i + 1)) (\<lambda>right.
        bind_go (merkle_parent E left right) (\<lambda>newHash.
        bind_go (go_upd merkles offset newHash) (\<lambda>merkles'.
        merkle_loop E (i + 2) (offset + 1) merkles'))))
      else Ret merkles)"
  by pat_completeness auto
termination
  by (relation "measure (\<lambda>(E, i, offset, merkles). length merkles - i)") (auto simp: go_simps)

declare merkle_loop.simps [simp del]

fun merkle_fill :: "env \<Rightarrow> nat \<Rightarrow> Transaction list \<Rightarrow> byte slice list \<Rightarrow> byte slice list go" where
  "merkle_fill E i [] merkles = Ret merkles"
| "merkle_fill E i (tx # txs) merkles =
     bind_go (Tx_Hash E tx) (\<lambda>h.
     bind_go (go_upd merkles i h) (\<lambda>merkles'. merkle_fill E (i + 1) txs merkles'))"

definition BuildMerkleTreeStore :: "env \<Rightarrow> Transaction list \<Rightarrow> byte slice go" where
  "BuildMerkleTreeStore E transactions =
     (let nextPoT = nextPowerOfTwo (int (length transactions));
          arraySize = nextPoT * 2 - 1
      in if arraySize < 0 then Panic MakeSliceLen
         else bind_go (merkle_fill E 0 transactions (replicate (nat arraySize) None)) (\<lambda>merkles.
              bind_go (merkle_loop E 0 (nat nextPoT) merkles) (\<lambda>merkles.
              go_nth merkles (length merkles - 1))))"

subsection \<open>Reference definition\<close>

text \<open>A row of the tree from the row below it: the last hash of an odd row is paired with itself.\<close>

fun merkle_row :: "env \<Rightarrow> bytes list \<Rightarrow> bytes list" where
  "merkle_row E [] = []"
| "merkle_row E [a] = [sl (Hash E (a @ a))]"
| "merkle_row E (a # b # r) = sl (Hash E (a @ b)) # merkle_row E r"

lemma length_merkle_row: "length (merkle_row E hs) = (length hs + 1) div 2"
  by (induction E hs rule: merkle_row.induct) simp_all

function merkle_root :: "env \<Rightarrow> bytes list \<Rightarrow> bytes" where
  "merkle_root E hs = (case hs of [] \<Rightarrow> [] | [h] \<Rightarrow> h | _ \<Rightarrow> merkle_root E (merkle_row E hs))"
  by pat_completeness auto
termination
  by (relation "measure (\<lambda>(E, hs). length hs)") (auto simp: length_merkle_row)

declare merkle_root.simps [simp del]

subsection \<open>Powers of two\<close>

lemma floor_log2_bounds: "0 < n \<Longrightarrow> 2 ^ floor_log2 n \<le> n \<and> n < 2 ^ Suc (floor_log2 n)"
proof (induction n rule: floor_log2.induct)
  case (1 n)
  show ?case
  proof (cases "n \<le> 1")
    case True
    with 1 show ?thesis by (simp add: floor_log2.simps)
  next
    case False
    with 1 have "2 ^ floor_log2 (n div 2) \<le> n div 2 \<and> n div 2 < 2 ^ Suc (floor_log2 (n div 2))"
      by simp
    with False show ?thesis by (auto simp: floor_log2.simps[of n])
  qed
qed

lemma and_pred_eq_0: "0 < n \<Longrightarrow> int n AND (int n - 1) = 0 \<longleftrightarrow> (\<exists>k. n = 2 ^ k)"
proof (induction n rule: less_induct)
  case (less n)
  show ?case
  proof (cases "even n")
    case True
    then obtain m where m: "n = 2 * m" "0 < m" using less.prems by (auto elim: evenE)
    have "(2 * int m - 1) div 2 = int m - 1" by presburger
    then have "int n AND (int n - 1) = 2 * (int m AND (int m - 1))"
      using m by (simp add: and_int_rec[of "2 * int m"])
    moreover have "(\<exists>k. n = 2 ^ k) \<longleftrightarrow> (\<exists>k. m = 2 ^ k)"
      using m by (metis One_nat_def even_power even_mult_iff mult_cancel1 nat_neq_iff not0_implies_Suc
          odd_one power_0 power_Suc zero_less_numeral dvd_triv_left)
    ultimately show ?thesis using less.IH[of m] m by simp
  next
    case False
    then obtain m where m: "n = 2 * m + 1" by (auto elim: oddE)
    have "int n AND (int n - 1) = 2 * int m"
      using m by (simp add: and_int_rec[of "1 + 2 * int m"])
    moreover have "(\<exists>k. n = 2 ^ k) \<longleftrightarrow> m = 0"
    proof
      assume "\<exists>k. n = 2 ^ k"
      then obtain k where "n = 2 ^ k" ..
      with False have "k = 0" by (cases k) simp_all
      with \<open>n = 2 ^ k\<close> m show "m = 0" by simp
    qed (use m in \<open>auto intro: exI[of _ 0]\<close>)
    ultimately show ?thesis by simp
  qed
qed

lemma nextPowerOfTwo_power:
  assumes "0 < n"
  obtains k where "nextPowerOfTwo (int n) = 2 ^ k" and "n \<le> 2 ^ k" and "2 ^ k < 2 * n"
proof (cases "int n AND (int n - 1) = 0")
  case True
  then obtain k where "n = 2 ^ k" using and_pred_eq_0 assms by blast
  with True that[of k] assms show thesis by (simp add: nextPowerOfTwo_def)
next
  case False
  let ?k = "Suc (floor_log2 n)"
  have "2 ^ floor_log2 n \<le> n" "n < 2 ^ ?k" using floor_log2_bounds[OF assms] by auto
  moreover have "n \<noteq> 2 ^ floor_log2 n" using False and_pred_eq_0 assms by blast
  ultimately show thesis
    using that[of ?k] False by (simp add: nextPowerOfTwo_def push_bit_eq_mult)
qed

subsection \<open>The array as a queue\<close>

text \<open>
  The loop reads pairs at the front of the unread part of the array and writes their parent
  behind it: it is a queue.  \<open>merkle_pairs\<close> is one whole row of it, nil entries included.
\<close>

definition parent_of :: "env \<Rightarrow> byte slice \<Rightarrow> byte slice \<Rightarrow> byte slice" where
  "parent_of E left right =
     (case left of None \<Rightarrow> None | Some l \<Rightarrow> Hash E (l @ (case right of None \<Rightarrow> l | Some r \<Rightarrow> r)))"

definition hash_sized :: "byte slice \<Rightarrow> bool" where
  "hash_sized s \<longleftrightarrow> (\<forall>h. s = Some h \<longrightarrow> length h = HASH_NUM_BYTES)"

lemma HashMerkleBranches_eq:
  assumes "length l = HASH_NUM_BYTES" and "length r = HASH_NUM_BYTES"
  shows "HashMerkleBranches E l r = Ret (Hash E (l @ r))"
  using assms by (simp add: HashMerkleBranches_def copy_into_def HASH_NUM_BYTES_def)

lemma merkle_parent_eq:
  "hash_sized a \<Longrightarrow> hash_sized b \<Longrightarrow> merkle_parent E a b = Ret (parent_of E a b)"
  by (auto simp: merkle_parent_def parent_of_def hash_sized_def HashMerkleBranches_eq split: option.splits)

lemma hash_sized_Hash: "scrypt_ok E \<Longrightarrow> hash_sized (Hash E d)"
  using Hash_ok[of E d] by (auto simp: hash_sized_def)

lemma hash_sized_parent_of: "scrypt_ok E \<Longrightarrow> hash_sized (parent_of E a b)"
  by (simp add: parent_of_def hash_sized_Hash split: option.split) (simp add: hash_sized_def)

fun merkle_queue :: "env \<Rightarrow> byte slice list \<Rightarrow> byte slice" where
  "merkle_queue E [] = None"
| "merkle_queue E [x] = x"
| "merkle_queue E (a # b # r) = merkle_queue E (r @ [parent_of E a b])"

fun merkle_pairs :: "env \<Rightarrow> byte slice list \<Rightarrow> byte slice list" where
  "merkle_pairs E (a # b # r) = parent_of E a b # merkle_pairs E r"
| "merkle_pairs E _ = []"

lemma merkle_loop_queue:
  assumes "scrypt_ok E" and "\<forall>x \<in> set q. hash_sized x" and "q \<noteq> []"
    and "length blank = length q - 1"
  shows "\<exists>ms. merkle_loop E (length pre) (length pre + length q) (pre @ q @ blank) = Ret ms \<and>
    length ms = length pre + length q + length blank \<and> last ms = merkle_queue E q"
  using assms
proof (induction E q arbitrary: pre blank rule: merkle_queue.induct)
  case (1 E)
  then show ?case by simp
next
  case (2 E x)
  then show ?case by (simp add: merkle_loop.simps)
next
  case (3 E a b r)
  then obtain z blank' where blank: "blank = z # blank'" by (cases blank) auto
  let ?p = "parent_of E a b"
  have step: "merkle_loop E (length pre) (length pre + length (a # b # r)) (pre @ (a # b # r) @ blank) =
      merkle_loop E (length (pre @ [a, b])) (length (pre @ [a, b]) + length (r @ [?p]))
        ((pre @ [a, b]) @ (r @ [?p]) @ blank')"
  proof -
    have "go_nth (pre @ a # b # r @ z # blank') (length pre) = Ret a"
      by (rule go_nth_at) simp
    moreover have "go_nth (pre @ a # b # r @ z # blank') (length pre + 1) = Ret b"
      using go_nth_at[of "length pre + 1" "pre @ [a]" b "r @ z # blank'"] by simp
    moreover have "go_upd (pre @ a # b # r @ z # blank') (length pre + length (a # b # r)) ?p =
        Ret (pre @ a # b # r @ ?p # blank')"
      using go_upd_at[of "length pre + length (a # b # r)" "pre @ a # b # r" z blank' ?p] by simp
    moreover have "merkle_parent E a b = Ret ?p"
      using "3.prems"(2) by (intro merkle_parent_eq) simp_all
    ultimately show ?thesis
      unfolding blank by (subst merkle_loop.simps) (cases a, simp_all add: parent_of_def merkle_parent_def)
  qed
  have "\<forall>x \<in> set (r @ [?p]). hash_sized x" and "length blank' = length (r @ [?p]) - 1"
    using 3 blank hash_sized_parent_of by auto
  from "3.IH"[OF "3.prems"(1) this(1) _ this(2), of "pre @ [a, b]"] show ?case
    unfolding step using blank by simp
qed

lemma merkle_queue_row:
  "even (length xs) \<Longrightarrow> merkle_queue E (xs @ ys) = merkle_queue E (ys @ merkle_pairs E xs)"
proof (induction xs arbitrary: ys rule: induct_list012)
  case (3 x y zs)
  then have "merkle_queue E (zs @ (ys @ [parent_of E x y])) = merkle_queue E ((ys @ [parent_of E x y]) @ merkle_pairs E zs)"
    by simp
  then show ?case by simp
qed simp_all

lemma length_merkle_pairs: "length (merkle_pairs E xs) = length xs div 2"
  by (induction E xs rule: merkle_pairs.induct) simp_all

lemma merkle_pairs_None: "merkle_pairs E (replicate m None) = replicate (m div 2) None"
  by (induction m rule: nat_induct2) (simp_all add: parent_of_def)

lemma merkle_pairs_padded:
  assumes "scrypt_ok E" and "even (length hs + m)"
  shows "merkle_pairs E (map Some hs @ replicate m None) =
    map Some (merkle_row E hs) @ replicate ((length hs + m) div 2 - length (merkle_row E hs)) None"
  using assms
proof (induction E hs rule: merkle_row.induct)
  case (1 E)
  then show ?case by (simp add: merkle_pairs_None)
next
  case (2 E a)
  then obtain k where "m = Suc k" by (cases m) auto
  with 2 show ?case by (simp add: parent_of_def merkle_pairs_None Hash_eq_Some[symmetric])
next
  case (3 E a b r)
  then show ?case by (simp add: parent_of_def Hash_eq_Some[symmetric])
qed

lemma merkle_root_single [simp]: "merkle_root E [h] = h"
  by (subst merkle_root.simps) simp

lemma merkle_root_step:
  "2 \<le> length hs \<Longrightarrow> merkle_root E hs = merkle_root E (merkle_row E hs)"
  by (subst merkle_root.simps) (auto split: list.splits)

lemma merkle_queue_root:
  assumes "scrypt_ok E" and "hs \<noteq> []" and "length hs + m = 2 ^ k" and "2 ^ k < 2 * length hs"
  shows "merkle_queue E (map Some hs @ replicate m None) = Some (merkle_root E hs)"
  using assms
proof (induction k arbitrary: hs m)
  case 0
  then obtain h where "hs = [h]" "m = 0" by (cases hs) auto
  then show ?case by simp
next
  case (Suc k)
  let ?row = "merkle_row E hs"
  have ev: "even (length hs + m)" and len2: "2 \<le> length hs"
    using Suc.prems by (simp, cases k) auto
  have half: "(length hs + m) div 2 = 2 ^ k" using Suc.prems(3) by simp
  have row_len: "length ?row = (length hs + 1) div 2" by (rule length_merkle_row)
  have "length ?row \<le> 2 ^ k" unfolding row_len using Suc.prems(3) by simp
  moreover have "2 ^ k < 2 * length ?row" unfolding row_len using Suc.prems(4) by simp
  moreover have "?row \<noteq> []" unfolding length_0_conv[symmetric] row_len using len2 by simp
  ultimately have row: "length ?row \<le> 2 ^ k" "2 ^ k < 2 * length ?row" "?row \<noteq> []" .
  have "merkle_queue E (map Some hs @ replicate m None) = merkle_queue E (merkle_pairs E (map Some hs @ replicate m None))"
    using merkle_queue_row[of "map Some hs @ replicate m None" E "[]"] ev by simp
  also have "\<dots> = merkle_queue E (map Some ?row @ replicate (2 ^ k - length ?row) None)"
    using merkle_pairs_padded[OF Suc.prems(1) ev] half by simp
  also have "\<dots> = Some (merkle_root E ?row)"
    using Suc.prems(1) row by (intro Suc.IH) simp_all
  finally show ?case using merkle_root_step[OF len2] by simp
qed

lemma merkle_fill_eq:
  assumes "list_all2 (\<lambda>tx h. Tx_Hash E tx = Ret h) txs hs" and "length txs \<le> length blank"
  shows "merkle_fill E (length pre) txs (pre @ blank) = Ret (pre @ hs @ drop (length txs) blank)"
  using assms
proof (induction txs hs arbitrary: pre blank rule: list_all2_induct)
  case Nil
  then show ?case by simp
next
  case (Cons tx txs h hs)
  then obtain z blank' where blank: "blank = z # blank'" by (cases blank) auto
  have "go_upd (pre @ blank) (length pre) h = Ret ((pre @ [h]) @ blank')"
    unfolding blank using go_upd_at[of "length pre" pre z blank' h] by simp
  moreover have "merkle_fill E (length (pre @ [h])) txs ((pre @ [h]) @ blank') =
      Ret ((pre @ [h]) @ hs @ drop (length txs) blank')"
    using Cons.prems blank by (intro Cons.IH) simp
  ultimately show ?case using Cons.hyps(1) blank by simp
qed

lemma BuildMerkleTreeStore_root:
  assumes scrypt: "scrypt_ok E" and ne: "txs \<noteq> []"
    and hashes: "list_all2 (\<lambda>tx h. Tx_Hash E tx = Ret (Some h)) txs hs"
  shows "BuildMerkleTreeStore E txs = Ret (Some (merkle_root E hs))"
proof -
  have len: "length hs = length txs" using hashes by (simp add: list_all2_lengthD)
  obtain k where k: "nextPowerOfTwo (int (length txs)) = 2 ^ k" "length txs \<le> 2 ^ k" "2 ^ k < 2 * length txs"
    using nextPowerOfTwo_power[of "length txs"] ne by auto
  define q where "q = map Some hs @ replicate (2 ^ k - length txs) None"
  define blank :: "byte slice list" where "blank = replicate (2 ^ k - 1) None"
  have lq: "length q = 2 ^ k" using k(2) len by (simp add: q_def)
  have size: "nat (2 ^ k * 2 - 1) = length q + length blank"
    by (simp add: lq blank_def nat_diff_distrib' nat_mult_distrib nat_power_eq)
  have "list_all2 (\<lambda>tx h. Tx_Hash E tx = Ret h) txs (map Some hs)"
    using hashes by (simp add: list_all2_map2)
  then have fill: "merkle_fill E 0 txs (replicate (nat (2 ^ k * 2 - 1)) None) = Ret (q @ blank)"
    using merkle_fill_eq[of E txs "map Some hs" "replicate (length q + length blank) None" "[]"] k(2) len lq
    by (simp add: size q_def blank_def flip: replicate_add)
  have "\<forall>x \<in> set q. hash_sized x"
    using hashes Tx_Hash_Ret_Some[OF scrypt]
    by (fastforce simp: q_def hash_sized_def list_all2_conv_all_nth in_set_conv_nth)
  moreover have qne: "q \<noteq> []" using lq by auto
  ultimately obtain ms where ms: "merkle_loop E 0 (length q) (q @ blank) = Ret ms"
      "length ms = length q + length blank" "last ms = merkle_queue E q"
    using merkle_loop_queue[OF scrypt, of q blank "[]"] lq qne by (auto simp: blank_def)
  have "merkle_queue E q = Some (merkle_root E hs)"
    unfolding q_def using scrypt ne k len by (intro merkle_queue_root) auto
  moreover have "ms \<noteq> []" using ms(2) lq by auto
  ultimately have "go_nth ms (length ms - 1) = Ret (Some (merkle_root E hs))"
    using ms(3) by (simp add: go_nth_def last_conv_nth)
  moreover have "nat (2 ^ k) = length q" by (simp add: lq nat_power_eq)
  moreover have "\<not> (2 :: int) ^ k * 2 < 1" using zero_less_power[of "2 :: int" k] by linarith
  ultimately show ?thesis
    using fill ms(1) by (simp add: BuildMerkleTreeStore_def k(1) Let_def)
qed

lemma length_merkle_root:
  assumes "scrypt_ok E" and "hs \<noteq> []" and "\<forall>h \<in> set hs. length h = HASH_NUM_BYTES"
  shows "length (merkle_root E hs) = HASH_NUM_BYTES"
  using assms
proof (induction E hs rule: merkle_root.induct)
  case (1 E hs)
  have row: "\<forall>h \<in> set (merkle_row E hs). length h = HASH_NUM_BYTES"
    using 1(2) by (induction E hs rule: merkle_row.induct) simp_all
  show ?case
  proof (cases "2 \<le> length hs")
    case True
    then obtain a b r where hs: "hs = a # b # r" by (cases hs; cases "tl hs") auto
    have "length (merkle_root E (merkle_row E hs)) = HASH_NUM_BYTES"
      using 1 row hs by simp
    then show ?thesis using merkle_root_step[OF True] by simp
  next
    case False
    with 1 obtain h where "hs = [h]" by (cases hs; cases "tl hs") auto
    with 1 show ?thesis by simp
  qed
qed

subsection \<open>Properties\<close>

text \<open>C9: The array algorithm computes the Merkle root: for every non-empty list of transactions that can
  be hashed, \<^verbatim>\<open>BuildMerkleTreeStore\<close> returns (no index is out of range) the root obtained row by row,
  pairing the last hash of an odd row with itself, and the root has the size of a hash.\<close>

theorem merkle_array_is_merkle_root:
  assumes "scrypt_ok E" and "txs \<noteq> []" and "mapM_go (Tx_Hash E) txs = Ret (map Some hs)"
  shows "BuildMerkleTreeStore E txs = Ret (Some (merkle_root E hs)) \<and> length (merkle_root E hs) = 32"
proof -
  have hashes: "list_all2 (\<lambda>tx h. Tx_Hash E tx = Ret (Some h)) txs hs"
    using assms(3) by (simp add: mapM_go_Ret list_all2_map2)
  then have "\<forall>h \<in> set hs. length h = HASH_NUM_BYTES"
    using Tx_Hash_Ret_Some[OF assms(1)] by (fastforce simp: list_all2_conv_all_nth in_set_conv_nth)
  moreover have "hs \<noteq> []" using hashes assms(2) by auto
  ultimately show ?thesis
    using BuildMerkleTreeStore_root[OF assms(1,2) hashes] length_merkle_root[OF assms(1)] by (simp add: HASH_NUM_BYTES_def)
qed

theorem merkle_array_is_merkle_root_witness:
  "\<exists>hs. BuildMerkleTreeStore demo_env [demo_grant 1 10, demo_grant 2 20, demo_grant 3 30] = Ret (Some (merkle_root demo_env hs)) \<and>
     length hs = 3"
proof -
  let ?txs = "[demo_grant 1 10, demo_grant 2 20, demo_grant 3 30]"
  let ?hs = "map (\<lambda>tx. sl (Hash demo_env (tx_layout in_layout tx))) ?txs"
  have "mapM_go (Tx_Hash demo_env) ?txs = Ret (map Some ?hs)"
    by (simp add: Tx_Hash_layout Hash_eq_Some[OF demo_scrypt_ok, symmetric])
  from merkle_array_is_merkle_root[OF demo_scrypt_ok _ this] show ?thesis by (intro exI[of _ ?hs]) simp
qed

text \<open>\<^verbatim>\<open>nextPowerOfTwo\<close> of a positive number of leaves is a power of two that holds them, and less than
  twice as many.\<close>

theorem nextPowerOfTwo_least:
  "\<exists>k. nextPowerOfTwo (int (Suc n)) = 2 ^ k \<and> Suc n \<le> 2 ^ k \<and> 2 ^ k < 2 * Suc n"
  using nextPowerOfTwo_power[of "Suc n"] by blast

end
