(* ===== verification/Block.thy ===== *)
theory Block
  imports Merkle
begin

text \<open>
  \<^verbatim>\<open>src/node/block.go\<close>: blocks, the 80-byte header, proof of work, block generation and block
  validation.  Field names carry the prefix \<open>b_\<close>.

  The proof-of-work loop has no bound: its nonce wraps around at \<open>2 ^ 32\<close> and it runs forever when no
  nonce fits.  It is a \<^theory_text>\<open>partial_function (option)\<close>, whose \<open>None\<close> means that the loop does not end,
  and so are the two functions that call it.
\<close>

record Block =
  b_PrevBlock :: bytes
  b_MerkleRoot :: bytes
  b_Timestamp :: u32
  b_Nonce :: u32
  b_Bits :: u32
  b_BlockHash :: bytes
  b_Transactions :: "Transaction list"

definition pack :: "Block \<Rightarrow> bytes go" where
  "pack block =
     bind_go (copy_into (replicate DATA_NUM_BYTES 0) 0 4 [1, 0, 0, 0]) (\<lambda>data.
     bind_go (copy_into data 4 (4 + HASH_NUM_BYTES) (b_PrevBlock block)) (\<lambda>data.
     bind_go (copy_into data (4 + HASH_NUM_BYTES) (4 + 2 * HASH_NUM_BYTES) (b_MerkleRoot block)) (\<lambda>data.
     bind_go (copy_into data (4 + 2 * HASH_NUM_BYTES) (4 + 2 * HASH_NUM_BYTES + 4) (packInt (b_Timestamp block))) (\<lambda>data.
     bind_go (copy_into data (8 + 2 * HASH_NUM_BYTES) (8 + 2 * HASH_NUM_BYTES + 4) (packInt (b_Bits block))) (\<lambda>data.
     copy_into data (12 + 2 * HASH_NUM_BYTES) (12 + 2 * HASH_NUM_BYTES + 4) (packInt (b_Nonce block)))))))"

subsection \<open>Coinbase transactions\<close>

definition MakeCoinbaseTx :: "Transaction list \<Rightarrow> string \<Rightarrow> Transaction" where
  "MakeCoinbaseTx txs pubHash =
     (let pkHash = fst (DecodeString pubHash);
          val = word_of_nat (length txs * TX_FEE + TX_COINBASE)
      in \<lparr>tx_Type = COINBASE, tx_TxIns = None, tx_TxOuts = [\<lparr>to_Value = val, to_PubKeyHash = pkHash\<rparr>],
          tx_Parent = None, tx_Content = None\<rparr>)"

definition VerifyCoinbaseTx :: "Transaction \<Rightarrow> verdict" where
  "VerifyCoinbaseTx tx =
     (if tx_Type tx \<noteq> COINBASE then Some ''last transaction is not coinbase''
      else if tx_TxIns tx \<noteq> None then Some ''coinbase transaction has non-empty txIn''
      else if length (tx_TxOuts tx) \<noteq> 1 then Some ''coinbase transaction has more or less than one txOut''
      else if tx_Parent tx \<noteq> None then Some ''coinbase transaction has non-empty parent''
      else if tx_Content tx \<noteq> None then Some ''coinbase transaction has non-empty content''
      else None)"

subsection \<open>Proof of work\<close>

text \<open>One turn of the loop: the patched header, its hash, and whether it has \<open>bits\<close> leading zeros.\<close>

definition pow_try :: "env \<Rightarrow> bytes \<Rightarrow> u32 \<Rightarrow> u32 \<Rightarrow> (bytes \<times> bytes \<times> bool) go" where
  "pow_try E data bits nonce =
     bind_go (copy_into data (12 + 2 * HASH_NUM_BYTES) (12 + 2 * HASH_NUM_BYTES + 4) (packInt nonce)) (\<lambda>data.
     bind_go (go_prefix (sl (Hash E data)) (unat bits)) (\<lambda>front.
     Ret (data, sl (Hash E data), front = replicate (unat bits) 0)))"

partial_function (option) pow_loop :: "env \<Rightarrow> bytes \<Rightarrow> u32 \<Rightarrow> u32 \<Rightarrow> (u32 \<times> bytes) go option" where
  "pow_loop E data bits nonce =
     (case pow_try E data bits nonce of
        Panic p \<Rightarrow> Some (Panic p)
      | Ret r \<Rightarrow> (if snd (snd r) then Some (Ret (nonce, fst (snd r)))
                  else pow_loop E (fst r) bits (nonce + 1)))"

declare pow_loop.simps [code]

definition proofOfWork :: "env \<Rightarrow> Block \<Rightarrow> Block go option" where
  "proofOfWork E block =
     (case pack block of
        Panic p \<Rightarrow> Some (Panic p)
      | Ret data \<Rightarrow>
          map_option (\<lambda>r. bind_go r (\<lambda>(nonce, hash). Ret (block\<lparr>b_Nonce := nonce, b_BlockHash := hash\<rparr>)))
            (pow_loop E data (b_Bits block) 0))"

subsection \<open>Generation\<close>

definition genesis_pubKeyHashB64 :: "string list" where
  "genesis_pubKeyHashB64 =
     [''ekZtvHY9XwiGbnzyVOvvMhCEDSE='', ''2WTu40XZmDEeVXplZMMbRLcp0Aw='',
      ''xR48QqPrOIR+aEoAigBVXIXfvrI='', ''Fag0WPJefAQmrE1tiiKQOrzkwJ0='',
      ''gy0QaOI+3nI16oz6lnmuA8zGzGk='', ''cPeHP2/uyu7tuzOptqgL9Y3R3/I='',
      ''uhVWws4xgu/N9lba+5pg6v3XKGY='', ''uSAfThFpURu+7MN7Dl4YOQWgO/8='',
      ''qyfnaoRKUnFTdgVLp+20YC1KTVk='', ''IJMO7/8wIeyS1/gVDEiZvXoLt4E='']"

definition genesis_tx :: Transaction where
  "genesis_tx =
     \<lparr>tx_Type = COINBASE, tx_TxIns = None,
      tx_TxOuts = map (\<lambda>b64. \<lparr>to_Value = 100, to_PubKeyHash = fst (DecodeString b64)\<rparr>) genesis_pubKeyHashB64,
      tx_Parent = None, tx_Content = None\<rparr>"

text \<open>
  A block under construction: all fields but the nonce and the hash, with the transactions already in
  place (the code sets them after the proof of work, which does not read them).
\<close>

definition unmined :: "env \<Rightarrow> bytes \<Rightarrow> bytes \<Rightarrow> u32 \<Rightarrow> Transaction list \<Rightarrow> Block" where
  "unmined E prev root now txs =
     \<lparr>b_PrevBlock = prev, b_MerkleRoot = root, b_Timestamp = now, b_Nonce = 0, b_Bits = DIFFICULTY E,
      b_BlockHash = [], b_Transactions = txs\<rparr>"

definition GenerateGenesisBlock :: "env \<Rightarrow> Block go option" where
  "GenerateGenesisBlock E =
     (case BuildMerkleTreeStore E [genesis_tx] of
        Panic p \<Rightarrow> Some (Panic p)
      | Ret root \<Rightarrow> proofOfWork E (unmined E (replicate HASH_NUM_BYTES 0) (sl root) 1494688622 [genesis_tx]))"

definition GenerateBlock :: "env \<Rightarrow> int \<Rightarrow> bytes \<Rightarrow> Transaction list \<Rightarrow> string \<Rightarrow> Block go option" where
  "GenerateBlock E now prevBlockHash txs pubHash =
     (let txs' = txs @ [MakeCoinbaseTx txs pubHash]
      in case BuildMerkleTreeStore E txs' of
           Panic p \<Rightarrow> Some (Panic p)
         | Ret root \<Rightarrow> proofOfWork E (unmined E prevBlockHash (sl root) (word_of_int now) txs'))"

subsection \<open>Validation\<close>

definition ValidateBlock :: "env \<Rightarrow> Block \<Rightarrow> verdict go" where
  "ValidateBlock E block =
     (if length (b_Transactions block) = 0 then Ret (Some ''Transaction list should be non-empty'')
      else if b_Bits block \<noteq> DIFFICULTY E then Ret (Some ''Block difficulty set incorrectly'')
      else bind_go (go_prefix (b_BlockHash block) (unat (b_Bits block))) (\<lambda>front.
        if front \<noteq> replicate (unat (b_Bits block)) 0 then Ret (Some ''Block hash does not match difficulty'')
        else bind_go (pack block) (\<lambda>data.
          if b_BlockHash block \<noteq> sl (Hash E data) then Ret (Some ''Block hash is incorrect'')
          else bind_go (BuildMerkleTreeStore E (b_Transactions block)) (\<lambda>merkle.
            if b_MerkleRoot block \<noteq> sl merkle then Ret (Some ''Merkle root is incorrect'')
            else bind_go (go_nth (b_Transactions block) (length (b_Transactions block) - 1)) (\<lambda>txCoinbase.
              case VerifyCoinbaseTx txCoinbase of
                Some err \<Rightarrow> Ret (Some err)
              | None \<Rightarrow>
                  (if \<exists>tx \<in> set (butlast (b_Transactions block)). tx_Type tx = COINBASE
                   then Ret (Some ''coinbase transaction found in non-last spot'') else Ret None))))))"

subsection \<open>The header\<close>

definition fit :: "nat \<Rightarrow> bytes \<Rightarrow> bytes" where
  "fit n bs = take n bs @ replicate (n - length bs) 0"

lemma length_fit [simp]: "length (fit n bs) = n"
  by (simp add: fit_def)

lemma fit_exact [simp]: "length bs = n \<Longrightarrow> fit n bs = bs"
  by (simp add: fit_def)

text \<open>The header is always 80 bytes; a hash of another size is cut or padded with zeros.\<close>

definition header :: "Block \<Rightarrow> bytes" where
  "header block = [1, 0, 0, 0] @ fit HASH_NUM_BYTES (b_PrevBlock block) @ fit HASH_NUM_BYTES (b_MerkleRoot block) @
     packInt (b_Timestamp block) @ packInt (b_Bits block) @ packInt (b_Nonce block)"

lemma copy_into_fit:
  assumes "length a = lo" and "hi = lo + n" and "length data = lo + n + length c"
    and "data = a @ replicate n 0 @ c"
  shows "copy_into data lo hi src = Ret (a @ fit n src @ c)"
  using assms by (simp add: copy_into_def fit_def min_def)

lemma pack_header: "pack block = Ret (header block)"
proof -
  let ?a = "[1, 0, 0, 0] :: bytes"
  let ?b = "fit HASH_NUM_BYTES (b_PrevBlock block)"
  let ?c = "fit HASH_NUM_BYTES (b_MerkleRoot block)"
  have "copy_into (replicate DATA_NUM_BYTES 0) 0 4 ?a = Ret (?a @ replicate 76 0)"
    by (simp add: copy_into_def DATA_NUM_BYTES_def)
  moreover have "copy_into (?a @ replicate 76 0) 4 (4 + HASH_NUM_BYTES) (b_PrevBlock block) =
      Ret (?a @ ?b @ replicate 44 0)"
    by (rule copy_into_fit) (simp_all add: HASH_NUM_BYTES_def flip: replicate_add)
  moreover have "copy_into (?a @ ?b @ replicate 44 0) (4 + HASH_NUM_BYTES) (4 + 2 * HASH_NUM_BYTES) (b_MerkleRoot block) =
      Ret ((?a @ ?b) @ ?c @ replicate 12 0)"
    by (rule copy_into_fit) (simp_all add: HASH_NUM_BYTES_def flip: replicate_add)
  ultimately show ?thesis
    by (simp add: pack_def header_def copy_into_def HASH_NUM_BYTES_def)
qed

lemma length_header [simp]: "length (header block) = DATA_NUM_BYTES"
  by (simp add: header_def HASH_NUM_BYTES_def DATA_NUM_BYTES_def)

text \<open>Patching the nonce into a header gives the header of the block with that nonce.\<close>

lemma copy_nonce:
  "copy_into (header block) (12 + 2 * HASH_NUM_BYTES) (12 + 2 * HASH_NUM_BYTES + 4) (packInt n) =
     Ret (header (block\<lparr>b_Nonce := n\<rparr>))"
  by (simp add: header_def copy_into_def HASH_NUM_BYTES_def)

lemma header_inject:
  assumes "header b = header b'"
    and "length (b_PrevBlock b) = HASH_NUM_BYTES" "length (b_PrevBlock b') = HASH_NUM_BYTES"
    and "length (b_MerkleRoot b) = HASH_NUM_BYTES" "length (b_MerkleRoot b') = HASH_NUM_BYTES"
  shows "b_PrevBlock b = b_PrevBlock b' \<and> b_MerkleRoot b = b_MerkleRoot b' \<and>
    b_Timestamp b = b_Timestamp b' \<and> b_Bits b = b_Bits b' \<and> b_Nonce b = b_Nonce b'"
  using assms by (simp add: header_def)

subsection \<open>Proof of work\<close>

definition block_hash :: "env \<Rightarrow> Block \<Rightarrow> bytes" where
  "block_hash E block = sl (Hash E (header block))"

definition leading_zeros :: "u32 \<Rightarrow> bytes \<Rightarrow> bool" where
  "leading_zeros bits hash \<longleftrightarrow> unat bits \<le> length hash \<and> take (unat bits) hash = replicate (unat bits) 0"

definition good_nonce :: "env \<Rightarrow> Block \<Rightarrow> u32 \<Rightarrow> bool" where
  "good_nonce E block n \<longleftrightarrow> leading_zeros (b_Bits block) (block_hash E (block\<lparr>b_Nonce := n\<rparr>))"

lemma pow_try_header:
  assumes "scrypt_ok E" and "unat bits \<le> HASH_NUM_BYTES"
  shows "pow_try E (header (block\<lparr>b_Nonce := m\<rparr>)) bits n =
    Ret (header (block\<lparr>b_Nonce := n\<rparr>), block_hash E (block\<lparr>b_Nonce := n\<rparr>),
         leading_zeros bits (block_hash E (block\<lparr>b_Nonce := n\<rparr>)))"
  using assms copy_nonce[of "block\<lparr>b_Nonce := m\<rparr>" n]
  by (simp add: pow_try_def go_prefix_def block_hash_def leading_zeros_def)

lemma pow_loop_finds:
  assumes "scrypt_ok E" and "unat (b_Bits block) \<le> HASH_NUM_BYTES"
    and "\<forall>j < k. \<not> good_nonce E block (n + word_of_nat j)" and "good_nonce E block (n + word_of_nat k)"
  shows "pow_loop E (header (block\<lparr>b_Nonce := m\<rparr>)) (b_Bits block) n =
    Some (Ret (n + word_of_nat k, block_hash E (block\<lparr>b_Nonce := n + word_of_nat k\<rparr>)))"
  using assms(3,4)
proof (induction k arbitrary: n m)
  case 0
  then show ?case
    using pow_try_header[OF assms(1,2)] by (subst pow_loop.simps) (simp add: good_nonce_def)
next
  case (Suc k)
  have "\<not> good_nonce E block n" using Suc.prems(1)[rule_format, of 0] by simp
  then have "pow_loop E (header (block\<lparr>b_Nonce := m\<rparr>)) (b_Bits block) n =
      pow_loop E (header (block\<lparr>b_Nonce := n\<rparr>)) (b_Bits block) (n + 1)"
    using pow_try_header[OF assms(1,2)] by (subst pow_loop.simps) (simp add: good_nonce_def)
  also have "\<dots> = Some (Ret (n + 1 + word_of_nat k, block_hash E (block\<lparr>b_Nonce := n + 1 + word_of_nat k\<rparr>)))"
  proof (rule Suc.IH)
    show "\<forall>j < k. \<not> good_nonce E block (n + 1 + word_of_nat j)"
    proof (intro allI impI)
      fix j assume "j < k"
      with Suc.prems(1) have "\<not> good_nonce E block (n + word_of_nat (Suc j))" by blast
      then show "\<not> good_nonce E block (n + 1 + word_of_nat j)" by (simp add: add.assoc)
    qed
    show "good_nonce E block (n + 1 + word_of_nat k)" using Suc.prems(2) by (simp add: add.assoc)
  qed
  finally show ?case by (simp add: add.assoc)
qed

text \<open>Partial correctness of the loop, without assumptions: whatever it returns has been checked.\<close>

lemma pow_try_Ret:
  "pow_try E (header (block\<lparr>b_Nonce := m\<rparr>)) bits n = Ret r \<Longrightarrow>
     r = (header (block\<lparr>b_Nonce := n\<rparr>), block_hash E (block\<lparr>b_Nonce := n\<rparr>),
          leading_zeros bits (block_hash E (block\<lparr>b_Nonce := n\<rparr>)))"
  using copy_nonce[of "block\<lparr>b_Nonce := m\<rparr>" n]
  by (auto simp: pow_try_def go_simps block_hash_def leading_zeros_def)

definition pow_result :: "env \<Rightarrow> Block \<Rightarrow> u32 \<Rightarrow> (u32 \<times> bytes) go \<Rightarrow> bool" where
  "pow_result E block bits x \<longleftrightarrow> (\<forall>n hash. x = Ret (n, hash) \<longrightarrow>
     hash = block_hash E (block\<lparr>b_Nonce := n\<rparr>) \<and> leading_zeros bits hash)"

lemma pow_loop_sound:
  assumes "pow_loop E (header (block\<lparr>b_Nonce := m\<rparr>)) bits n = Some x"
  shows "pow_result E block bits x"
proof -
  have "\<forall>m. d = header (block\<lparr>b_Nonce := m\<rparr>) \<longrightarrow> pow_result E' block bits x"
    if "pow_loop E' d bits n = Some x" for E' d bits n x
  proof (rule pow_loop.raw_induct[OF _ that, of
      "\<lambda>E' d bits n x. \<forall>m. d = header (block\<lparr>b_Nonce := m\<rparr>) \<longrightarrow> pow_result E' block bits x"], intro allI impI)
    fix f E' d bits n x m
    assume IH: "\<And>E' d bits n x. f E' d bits n = Some x \<Longrightarrow>
        \<forall>m. d = header (block\<lparr>b_Nonce := m\<rparr>) \<longrightarrow> pow_result E' block bits x"
      and eq: "(case pow_try E' d bits n of Panic p \<Rightarrow> Some (Panic p)
        | Ret q \<Rightarrow> if snd (snd q) then Some (Ret (n, fst (snd q))) else f E' (fst q) bits (n + 1)) = Some x"
      and d: "d = header (block\<lparr>b_Nonce := m\<rparr>)"
    show "pow_result E' block bits x"
    proof (cases "pow_try E' d bits n")
      case (Panic p)
      with eq show ?thesis by (auto simp: pow_result_def)
    next
      case (Ret q)
      let ?b = "block\<lparr>b_Nonce := n\<rparr>"
      have q: "q = (header ?b, block_hash E' ?b, leading_zeros bits (block_hash E' ?b))"
        using Ret by (intro pow_try_Ret) (simp add: d)
      show ?thesis
      proof (cases "leading_zeros bits (block_hash E' ?b)")
        case True
        then show ?thesis using eq Ret q by (auto simp: pow_result_def)
      next
        case False
        then have "f E' (header ?b) bits (n + 1) = Some x" using eq Ret q by simp
        from IH[OF this] show ?thesis by blast
      qed
    qed
  qed
  with assms show ?thesis by blast
qed

lemma good_nonce_least:
  assumes "good_nonce E block n"
  obtains k where "good_nonce E block (word_of_nat k)" and "\<forall>j < k. \<not> good_nonce E block (word_of_nat j)"
proof -
  have "good_nonce E block (word_of_nat (unat n))" using assms by simp
  then show thesis using that exists_least_iff[of "\<lambda>k. good_nonce E block (word_of_nat k)"] by blast
qed

text \<open>Proof of work: the whole behaviour, termination included.\<close>

lemma proofOfWork_finds:
  assumes "scrypt_ok E" and "unat (b_Bits block) \<le> HASH_NUM_BYTES" and "good_nonce E block n"
  obtains k where "good_nonce E block (word_of_nat k)" and "\<forall>j < k. \<not> good_nonce E block (word_of_nat j)"
    and "proofOfWork E block = Some (Ret (block\<lparr>b_Nonce := word_of_nat k,
           b_BlockHash := block_hash E (block\<lparr>b_Nonce := word_of_nat k\<rparr>)\<rparr>))"
proof -
  obtain k where k: "good_nonce E block (word_of_nat k)" "\<forall>j < k. \<not> good_nonce E block (word_of_nat j)"
    using good_nonce_least[OF assms(3)] .
  then have "pow_loop E (header (block\<lparr>b_Nonce := b_Nonce block\<rparr>)) (b_Bits block) 0 =
      Some (Ret (word_of_nat k, block_hash E (block\<lparr>b_Nonce := word_of_nat k\<rparr>)))"
    using pow_loop_finds[OF assms(1,2), of k 0 "b_Nonce block"] by simp
  with that[OF k] show thesis by (simp add: proofOfWork_def pack_header)
qed

lemma proofOfWork_diverges:
  assumes "scrypt_ok E" and "unat (b_Bits block) \<le> HASH_NUM_BYTES" and "\<forall>n. \<not> good_nonce E block n"
  shows "proofOfWork E block = None"
proof -
  have "pow_loop E (header (block\<lparr>b_Nonce := b_Nonce block\<rparr>)) (b_Bits block) 0 \<noteq> Some x" for x
  proof
    assume eq: "pow_loop E (header (block\<lparr>b_Nonce := b_Nonce block\<rparr>)) (b_Bits block) 0 = Some x"
    have "\<forall>m. d = header (block\<lparr>b_Nonce := m\<rparr>) \<longrightarrow> bits = b_Bits block \<longrightarrow> E' = E \<longrightarrow> False"
      if "pow_loop E' d bits n = Some x" for E' d bits n x
    proof (rule pow_loop.raw_induct[OF _ that, of
        "\<lambda>E' d bits n x. \<forall>m. d = header (block\<lparr>b_Nonce := m\<rparr>) \<longrightarrow> bits = b_Bits block \<longrightarrow> E' = E \<longrightarrow> False"],
        intro allI impI)
      fix f E' d bits n x m
      assume IH: "\<And>E' d bits n x. f E' d bits n = Some x \<Longrightarrow>
          \<forall>m. d = header (block\<lparr>b_Nonce := m\<rparr>) \<longrightarrow> bits = b_Bits block \<longrightarrow> E' = E \<longrightarrow> False"
        and eq: "(case pow_try E' d bits n of Panic p \<Rightarrow> Some (Panic p)
          | Ret q \<Rightarrow> if snd (snd q) then Some (Ret (n, fst (snd q))) else f E' (fst q) bits (n + 1)) = Some x"
        and hyps: "d = header (block\<lparr>b_Nonce := m\<rparr>)" "bits = b_Bits block" "E' = E"
      from assms(3) have "\<not> leading_zeros (b_Bits block) (block_hash E (block\<lparr>b_Nonce := n\<rparr>))"
        by (simp add: good_nonce_def)
      with eq hyps have "f E (header (block\<lparr>b_Nonce := n\<rparr>)) (b_Bits block) (n + 1) = Some x"
        using pow_try_header[OF assms(1,2)] by simp
      with IH show False by blast
    qed
    with eq show False by blast
  qed
  then have "pow_loop E (header block) (b_Bits block) 0 = None" by (cases "pow_loop E (header block) (b_Bits block) 0") auto
  then show ?thesis by (simp add: proofOfWork_def pack_header)
qed

lemma proofOfWork_total:
  assumes "scrypt_ok E" and "unat (b_Bits block) \<le> HASH_NUM_BYTES"
  shows "proofOfWork E block = None \<or>
    (\<exists>n. good_nonce E block n \<and>
       proofOfWork E block = Some (Ret (block\<lparr>b_Nonce := n, b_BlockHash := block_hash E (block\<lparr>b_Nonce := n\<rparr>)\<rparr>)))"
proof (cases "\<exists>n. good_nonce E block n")
  case True
  then show ?thesis using proofOfWork_finds[OF assms] by metis
next
  case False
  then show ?thesis using proofOfWork_diverges[OF assms] by blast
qed

subsection \<open>Validation\<close>

lemma block_hash_BlockHash [simp]: "block_hash E (b\<lparr>b_BlockHash := h\<rparr>) = block_hash E b"
  by (simp add: block_hash_def header_def)

lemma proofOfWork_Ret:
  assumes "proofOfWork E u = Some (Ret b)"
  shows "b_PrevBlock b = b_PrevBlock u" "b_MerkleRoot b = b_MerkleRoot u" "b_Bits b = b_Bits u"
    "b_Transactions b = b_Transactions u" "b_Timestamp b = b_Timestamp u" "b_BlockHash b = block_hash E b"
    "leading_zeros (b_Bits u) (b_BlockHash b)"
proof -
  obtain n hash where loop: "pow_loop E (header (u\<lparr>b_Nonce := b_Nonce u\<rparr>)) (b_Bits u) 0 = Some (Ret (n, hash))"
    and b: "b = u\<lparr>b_Nonce := n, b_BlockHash := hash\<rparr>"
    using assms by (auto simp: proofOfWork_def pack_header go_simps)
  have h: "hash = block_hash E (u\<lparr>b_Nonce := n\<rparr>)" and z: "leading_zeros (b_Bits u) hash"
    using pow_loop_sound[OF loop] unfolding pow_result_def by blast+
  show "b_PrevBlock b = b_PrevBlock u" "b_MerkleRoot b = b_MerkleRoot u" "b_Bits b = b_Bits u"
    "b_Transactions b = b_Transactions u" "b_Timestamp b = b_Timestamp u" "b_BlockHash b = block_hash E b"
    "leading_zeros (b_Bits u) (b_BlockHash b)"
    using h z by (simp_all add: b)
qed

lemma unmined_simps [simp]:
  "b_PrevBlock (unmined E prev root now txs) = prev" "b_MerkleRoot (unmined E prev root now txs) = root"
  "b_Bits (unmined E prev root now txs) = DIFFICULTY E" "b_Transactions (unmined E prev root now txs) = txs"
  by (simp_all add: unmined_def)

lemma ValidateBlock_None:
  "ValidateBlock E block = Ret None \<longleftrightarrow>
     b_Transactions block \<noteq> [] \<and> b_Bits block = DIFFICULTY E \<and>
     leading_zeros (b_Bits block) (b_BlockHash block) \<and> b_BlockHash block = block_hash E block \<and>
     (\<exists>root. BuildMerkleTreeStore E (b_Transactions block) = Ret root \<and> b_MerkleRoot block = sl root) \<and>
     VerifyCoinbaseTx (last (b_Transactions block)) = None \<and>
     (\<forall>tx \<in> set (butlast (b_Transactions block)). tx_Type tx \<noteq> COINBASE)"
proof (cases "b_Transactions block = []")
  case True
  then show ?thesis by (simp add: ValidateBlock_def)
next
  case False
  then have "go_nth (b_Transactions block) (length (b_Transactions block) - 1) = Ret (last (b_Transactions block))"
    by (simp add: go_nth_def last_conv_nth)
  with False show ?thesis
    by (auto simp: ValidateBlock_def pack_header block_hash_def leading_zeros_def go_simps split: option.splits if_splits)
qed

lemma VerifyCoinbaseTx_None:
  "VerifyCoinbaseTx tx = None \<longleftrightarrow> tx_Type tx = COINBASE \<and> tx_TxIns tx = None \<and> length (tx_TxOuts tx) = 1 \<and>
     tx_Parent tx = None \<and> tx_Content tx = None"
  by (auto simp: VerifyCoinbaseTx_def)

lemma VerifyCoinbaseTx_Make [simp]: "VerifyCoinbaseTx (MakeCoinbaseTx txs pubHash) = None"
  by (simp add: VerifyCoinbaseTx_None MakeCoinbaseTx_def Let_def)

lemma GenerateBlock_Ret:
  assumes "GenerateBlock E now prev txs pubHash = Some (Ret b)"
  obtains root where "BuildMerkleTreeStore E (txs @ [MakeCoinbaseTx txs pubHash]) = Ret root"
    and "b_PrevBlock b = prev" and "b_MerkleRoot b = sl root" and "b_Bits b = DIFFICULTY E"
    and "b_Transactions b = txs @ [MakeCoinbaseTx txs pubHash]"
    and "b_BlockHash b = block_hash E b" and "leading_zeros (DIFFICULTY E) (b_BlockHash b)"
proof -
  let ?txs = "txs @ [MakeCoinbaseTx txs pubHash]"
  obtain root where root: "BuildMerkleTreeStore E ?txs = Ret root"
    using assms by (auto simp: GenerateBlock_def Let_def split: go.splits)
  let ?u = "unmined E prev (sl root) (word_of_int now) ?txs"
  have "proofOfWork E ?u = Some (Ret b)" using assms root by (simp add: GenerateBlock_def Let_def)
  from proofOfWork_Ret[OF this] root show thesis by (intro that) simp_all
qed

lemma GenerateBlock_valid:
  assumes "GenerateBlock E now prev txs pubHash = Some (Ret b)"
    and "\<forall>tx \<in> set txs. tx_Type tx \<noteq> COINBASE"
  shows "ValidateBlock E b = Ret None"
  by (rule GenerateBlock_Ret[OF assms(1)]) (use assms(2) in \<open>simp add: ValidateBlock_None\<close>)

lemma GenerateBlock_coinbase_inside:
  assumes "GenerateBlock E now prev txs pubHash = Some (Ret b)"
    and "tx \<in> set txs" and "tx_Type tx = COINBASE"
  shows "ValidateBlock E b = Ret (Some ''coinbase transaction found in non-last spot'')"
proof -
  have nth: "go_nth (txs @ [c]) (length txs) = Ret c" for c :: Transaction
    by (simp add: go_nth_def)
  show ?thesis
    by (rule GenerateBlock_Ret[OF assms(1)])
      (use assms(2,3) nth in \<open>auto simp: ValidateBlock_def leading_zeros_def go_prefix_def pack_header block_hash_def\<close>)
qed

text \<open>The genesis transaction: ten outputs of 100 to ten addresses of the nominal size.\<close>

lemma genesis_addresses:
  "list_all (\<lambda>s. snd (DecodeString s) = False \<and> length (fst (DecodeString s)) = 20) genesis_pubKeyHashB64"
  by code_simp

lemma genesis_components: "validateComponents genesis_tx = None"
  using genesis_addresses
  by (auto simp: validateComponents_None genesis_tx_def PKHASH_NUM_BYTES_def list_all_iff)

lemma genesis_distinct: "distinct (map to_PubKeyHash (tx_TxOuts genesis_tx))"
proof -
  have "distinct (map (\<lambda>s. fst (DecodeString s)) genesis_pubKeyHashB64)" by code_simp
  then show ?thesis by (simp add: genesis_tx_def comp_def)
qed

lemma length_genesis_outs [simp]: "length (tx_TxOuts genesis_tx) = 10"
  by (simp add: genesis_tx_def genesis_pubKeyHashB64_def)

lemma genesis_merkle:
  assumes "scrypt_ok E"
  shows "BuildMerkleTreeStore E [genesis_tx] = Ret (Hash E (tx_layout in_layout genesis_tx))"
proof -
  have "Tx_Hash E genesis_tx = Ret (Some (sl (Hash E (tx_layout in_layout genesis_tx))))"
    using Tx_Hash_layout[OF genesis_components] Hash_eq_Some[OF assms] by simp
  then show ?thesis
    using BuildMerkleTreeStore_root[OF assms, of "[genesis_tx]" "[sl (Hash E (tx_layout in_layout genesis_tx))]"]
    by (simp add: Hash_eq_Some[OF assms, symmetric])
qed

lemma GenerateGenesisBlock_Ret:
  assumes "scrypt_ok E" and "GenerateGenesisBlock E = Some (Ret g)"
  shows "b_Transactions g = [genesis_tx]" and "b_PrevBlock g = replicate HASH_NUM_BYTES 0"
    and "b_BlockHash g = block_hash E g" and "leading_zeros (DIFFICULTY E) (b_BlockHash g)"
    and "b_Bits g = DIFFICULTY E" and "b_MerkleRoot g = sl (Hash E (tx_layout in_layout genesis_tx))"
proof -
  let ?u = "unmined E (replicate HASH_NUM_BYTES 0) (sl (Hash E (tx_layout in_layout genesis_tx))) 1494688622 [genesis_tx]"
  have "proofOfWork E ?u = Some (Ret g)"
    using assms(2) by (simp add: GenerateGenesisBlock_def genesis_merkle[OF assms(1)])
  from proofOfWork_Ret[OF this]
  show "b_Transactions g = [genesis_tx]" "b_PrevBlock g = replicate HASH_NUM_BYTES 0"
    "b_BlockHash g = block_hash E g" "leading_zeros (DIFFICULTY E) (b_BlockHash g)"
    "b_Bits g = DIFFICULTY E" "b_MerkleRoot g = sl (Hash E (tx_layout in_layout genesis_tx))"
    by simp_all
qed

lemma GenerateGenesisBlock_hash:
  assumes "GenerateGenesisBlock E = Some (Ret g)"
  shows "b_BlockHash g = block_hash E g" and "leading_zeros (DIFFICULTY E) (b_BlockHash g)"
proof -
  obtain root where "proofOfWork E (unmined E (replicate HASH_NUM_BYTES 0) (sl root) 1494688622 [genesis_tx]) = Some (Ret g)"
    using assms by (auto simp: GenerateGenesisBlock_def split: go.splits)
  from proofOfWork_Ret[OF this] show "b_BlockHash g = block_hash E g" "leading_zeros (DIFFICULTY E) (b_BlockHash g)" by simp_all
qed

text \<open>The genesis block itself is not a valid block: its coinbase has ten outputs.\<close>

lemma ValidateBlock_genesis:
  assumes "scrypt_ok E" and "GenerateGenesisBlock E = Some (Ret g)"
  shows "ValidateBlock E g = Ret (Some ''coinbase transaction has more or less than one txOut'')"
proof -
  note g = GenerateGenesisBlock_Ret[OF assms]
  have "VerifyCoinbaseTx genesis_tx = Some ''coinbase transaction has more or less than one txOut''"
    by (simp add: VerifyCoinbaseTx_def) (simp add: genesis_tx_def)
  then show ?thesis
    using g genesis_merkle[OF assms(1)]
    by (simp add: ValidateBlock_def go_prefix_def leading_zeros_def pack_header go_nth_def) (simp add: block_hash_def)
qed

lemma demo_DIFFICULTY [simp]: "DIFFICULTY demo_env = 1"
  by (simp add: demo_env_def)

lemma demo_good_nonce [simp]:
  assumes "b_Bits block = 1"
  shows "good_nonce demo_env block n"
proof -
  have "leading_zeros 1 (demo_digest 32 bs)" for bs
    by (simp add: leading_zeros_def demo_digest_def)
  then show ?thesis using assms by (simp add: good_nonce_def block_hash_def Hash_def demo_env_def)
qed

subsection \<open>Properties\<close>

text \<open>C11: Proof of work, success: when some nonce gives the required leading zeros, the loop ends and the
  block gets the least such nonce and the hash of its header.\<close>

theorem proofOfWork_least:
  assumes "scrypt_ok E" and "unat (b_Bits block) \<le> 32" and "good_nonce E block m"
  shows "\<exists>n. good_nonce E block n \<and> (\<forall>j. j < n \<longrightarrow> \<not> good_nonce E block j) \<and>
    proofOfWork E block =
      Some (Ret (block\<lparr>b_Nonce := n, b_BlockHash := block_hash E (block\<lparr>b_Nonce := n\<rparr>)\<rparr>))"
proof -
  have bits: "unat (b_Bits block) \<le> HASH_NUM_BYTES" using assms(2) by (simp add: HASH_NUM_BYTES_def)
  obtain k where k: "good_nonce E block (word_of_nat k)" "\<forall>j < k. \<not> good_nonce E block (word_of_nat j)"
      "proofOfWork E block = Some (Ret (block\<lparr>b_Nonce := word_of_nat k,
           b_BlockHash := block_hash E (block\<lparr>b_Nonce := word_of_nat k\<rparr>)\<rparr>))"
    by (rule proofOfWork_finds[OF assms(1) bits assms(3)])
  have "\<not> good_nonce E block j" if "j < word_of_nat k" for j
  proof -
    have "unat (word_of_nat k :: u32) \<le> k" by (simp add: unsigned_of_nat take_bit_nat_def)
    then have "unat j < k" using that by (simp add: word_less_nat_alt)
    then have "\<not> good_nonce E block (word_of_nat (unat j))" using k(2) by blast
    then show ?thesis by simp
  qed
  with k show ?thesis by blast
qed

theorem proofOfWork_least_witness:
  "\<exists>n. proofOfWork demo_env (unmined demo_env [] [] 0 []) =
     Some (Ret ((unmined demo_env [] [] 0 [])\<lparr>b_Nonce := n,
       b_BlockHash := block_hash demo_env ((unmined demo_env [] [] 0 [])\<lparr>b_Nonce := n\<rparr>)\<rparr>))"
  using proofOfWork_least[OF demo_scrypt_ok, of "unmined demo_env [] [] 0 []" 0]
  by auto

text \<open>C12: Proof of work, termination: the loop runs forever if and only if no nonce at all gives the
  required leading zeros, and it never panics for a difficulty of at most 32 bytes.\<close>

theorem proofOfWork_diverges_iff:
  assumes "scrypt_ok E" and "unat (b_Bits block) \<le> 32"
  shows "(proofOfWork E block = None) = (\<forall>n. \<not> good_nonce E block n) \<and> (\<forall>p. proofOfWork E block \<noteq> Some (Panic p))"
proof -
  have bits: "unat (b_Bits block) \<le> HASH_NUM_BYTES" using assms(2) by (simp add: HASH_NUM_BYTES_def)
  show ?thesis
  proof (cases "\<exists>n. good_nonce E block n")
    case True
    then obtain n where "good_nonce E block n" by blast
    then show ?thesis by (rule proofOfWork_finds[OF assms(1) bits]) auto
  next
    case False
    then show ?thesis using proofOfWork_diverges[OF assms(1) bits] by auto
  qed
qed

text \<open>An instance in which no hash ever starts with a zero byte.\<close>

definition ones_env :: env where
  "ones_env = demo_env\<lparr>scrypt_Key := \<lambda>pw salt N r p n. Some (replicate n 1)\<rparr>"

theorem proofOfWork_diverges_iff_witness: "proofOfWork ones_env (unmined ones_env [] [] 0 []) = None"
proof -
  have "scrypt_ok ones_env" by (simp add: scrypt_ok_def ones_env_def)
  moreover have "DIFFICULTY ones_env = 1" by (simp add: ones_env_def)
  moreover have "\<not> good_nonce ones_env (unmined ones_env [] [] 0 []) n" for n
    by (simp add: good_nonce_def block_hash_def Hash_def ones_env_def leading_zeros_def)
  ultimately show ?thesis using proofOfWork_diverges_iff[of ones_env "unmined ones_env [] [] 0 []"] by simp
qed

text \<open>C10: \<^verbatim>\<open>ValidateBlock\<close> accepts exactly the blocks with at least one transaction, the configured
  difficulty, a hash that has the required leading zeros and is the hash of the packed header, the Merkle
  root of their transactions, a well-formed coinbase as last transaction and no other coinbase.\<close>

theorem ValidateBlock_accepts_iff:
  "ValidateBlock E block = Ret None \<longleftrightarrow>
     b_Transactions block \<noteq> [] \<and> b_Bits block = DIFFICULTY E \<and>
     leading_zeros (b_Bits block) (b_BlockHash block) \<and> b_BlockHash block = sl (Hash E (header block)) \<and>
     map_go sl (BuildMerkleTreeStore E (b_Transactions block)) = Ret (b_MerkleRoot block) \<and>
     VerifyCoinbaseTx (last (b_Transactions block)) = None \<and>
     list_all (\<lambda>tx. tx_Type tx \<noteq> COINBASE) (butlast (b_Transactions block))"
  unfolding ValidateBlock_None
  by (cases "BuildMerkleTreeStore E (b_Transactions block)") (auto simp: block_hash_def list_all_iff)

subsection \<open>Generation ends\<close>

text \<open>Every header has a fitting nonce; what the miner relies on to make progress.\<close>

definition pow_solvable :: "env \<Rightarrow> bool" where
  "pow_solvable E \<longleftrightarrow> unat (DIFFICULTY E) \<le> 32 \<and> (\<forall>block. b_Bits block = DIFFICULTY E \<longrightarrow> (\<exists>n. good_nonce E block n))"

lemma demo_pow_solvable: "pow_solvable demo_env"
  by (simp add: pow_solvable_def)

lemma proofOfWork_solvable:
  assumes "scrypt_ok E" and "pow_solvable E" and "b_Bits u = DIFFICULTY E"
  shows "\<exists>b. proofOfWork E u = Some (Ret b)"
proof -
  have bits: "unat (b_Bits u) \<le> HASH_NUM_BYTES" using assms(2,3) by (simp add: pow_solvable_def HASH_NUM_BYTES_def)
  obtain n where "good_nonce E u n" using assms(2,3) by (auto simp: pow_solvable_def)
  then show ?thesis by (rule proofOfWork_finds[OF assms(1) bits]) blast
qed

lemma MerkleTree_returns:
  assumes "scrypt_ok E" and "txs \<noteq> []" and "\<forall>tx \<in> set txs. validateComponents tx = None"
  shows "\<exists>root. BuildMerkleTreeStore E txs = Ret (Some root)"
proof -
  have "list_all2 (\<lambda>tx h. Tx_Hash E tx = Ret (Some h)) txs (map (\<lambda>tx. sl (Hash E (tx_layout in_layout tx))) txs)"
    using assms(3) by (simp add: list_all2_conv_all_nth Tx_Hash_layout Hash_eq_Some[OF assms(1), symmetric])
  from BuildMerkleTreeStore_root[OF assms(1,2) this] show ?thesis by blast
qed

lemma GenerateBlock_returns:
  assumes "scrypt_ok E" and "pow_solvable E" and "\<forall>tx \<in> set txs. validateComponents tx = None"
    and "length (fst (DecodeString pubHash)) = PKHASH_NUM_BYTES"
  shows "\<exists>b. GenerateBlock E now prev txs pubHash = Some (Ret b)"
proof -
  have "validateComponents (MakeCoinbaseTx txs pubHash) = None"
    using assms(4) by (simp add: validateComponents_None MakeCoinbaseTx_def Let_def)
  then obtain root where "BuildMerkleTreeStore E (txs @ [MakeCoinbaseTx txs pubHash]) = Ret (Some root)"
    using MerkleTree_returns[OF assms(1), of "txs @ [MakeCoinbaseTx txs pubHash]"] assms(3) by auto
  then show ?thesis
    using proofOfWork_solvable[OF assms(1,2)] by (simp add: GenerateBlock_def Let_def)
qed

lemma GenerateGenesisBlock_returns:
  assumes "scrypt_ok E" and "pow_solvable E"
  shows "\<exists>g. GenerateGenesisBlock E = Some (Ret g)"
  using proofOfWork_solvable[OF assms] by (simp add: GenerateGenesisBlock_def genesis_merkle[OF assms(1)])

text \<open>C33: \<^verbatim>\<open>GenerateBlock\<close> returns, and \<^verbatim>\<open>ValidateBlock\<close> accepts its result: for transactions of the nominal
  component sizes, none of them a coinbase, and an address of 20 bytes, the block has the given
  predecessor and transactions plus a coinbase worth 100 and one for each transaction.\<close>

theorem GenerateBlock_makes_valid_block:
  assumes "scrypt_ok E" and "pow_solvable E" and "length (fst (DecodeString pubHash)) = 20"
    and "list_all (\<lambda>tx. validateComponents tx = None \<and> tx_Type tx \<noteq> COINBASE) txs"
  shows "\<exists>b. GenerateBlock E now prev txs pubHash = Some (Ret b) \<and> ValidateBlock E b = Ret None \<and> b_PrevBlock b = prev \<and>
    (\<exists>coinbase. b_Transactions b = txs @ [coinbase] \<and>
       tx_TxOuts coinbase = [\<lparr>to_Value = word_of_nat (length txs + 100), to_PubKeyHash = fst (DecodeString pubHash)\<rparr>])"
proof -
  have txs: "\<forall>tx \<in> set txs. validateComponents tx = None" "\<forall>tx \<in> set txs. tx_Type tx \<noteq> COINBASE"
    using assms(4) by (auto simp: list_all_iff)
  obtain b where b: "GenerateBlock E now prev txs pubHash = Some (Ret b)"
    using GenerateBlock_returns[OF assms(1,2) txs(1), of pubHash now prev] assms(3) by (auto simp: PKHASH_NUM_BYTES_def)
  then have "b_PrevBlock b = prev" "b_Transactions b = txs @ [MakeCoinbaseTx txs pubHash]"
    by (auto elim: GenerateBlock_Ret)
  moreover have "tx_TxOuts (MakeCoinbaseTx txs pubHash) =
      [\<lparr>to_Value = word_of_nat (length txs + 100), to_PubKeyHash = fst (DecodeString pubHash)\<rparr>]"
    by (simp add: MakeCoinbaseTx_def Let_def TX_FEE_def TX_COINBASE_def)
  ultimately show ?thesis using b GenerateBlock_valid[OF b txs(2)] by blast
qed

theorem GenerateBlock_makes_valid_block_witness:
  "\<exists>b. GenerateBlock demo_env 0 (replicate 32 0) [demo_post 7 (replicate 32 0) 5] ''ekZtvHY9XwiGbnzyVOvvMhCEDSE='' = Some (Ret b) \<and>
     ValidateBlock demo_env b = Ret None"
proof -
  have "length (fst (DecodeString ''ekZtvHY9XwiGbnzyVOvvMhCEDSE='')) = 20" by code_simp
  moreover have "list_all (\<lambda>tx. validateComponents tx = None \<and> tx_Type tx \<noteq> COINBASE) [demo_post 7 (replicate 32 0) 5]"
    by simp (simp add: demo_post_def tx_type_defs)
  ultimately show ?thesis using GenerateBlock_makes_valid_block[OF demo_scrypt_ok demo_pow_solvable] by blast
qed

text \<open>The genesis block: start-up always gets one when the proof of work can be solved; it holds one
  transaction that pays 100 to each of ten different addresses of 20 bytes, and its hash is that of its
  header.  \<^verbatim>\<open>ValidateBlock\<close> rejects it, because of the ten outputs of its coinbase.\<close>

theorem genesis_block:
  assumes "scrypt_ok E" and "pow_solvable E"
  shows "\<exists>g tx. GenerateGenesisBlock E = Some (Ret g) \<and> b_Transactions g = [tx] \<and>
    length (tx_TxOuts tx) = 10 \<and> list_all (\<lambda>out. to_Value out = 100 \<and> length (to_PubKeyHash out) = 20) (tx_TxOuts tx) \<and>
    distinct (map to_PubKeyHash (tx_TxOuts tx)) \<and> b_BlockHash g = sl (Hash E (header g)) \<and>
    ValidateBlock E g = Ret (Some ''coinbase transaction has more or less than one txOut'')"
proof -
  obtain g where g: "GenerateGenesisBlock E = Some (Ret g)" using GenerateGenesisBlock_returns[OF assms] by blast
  have "list_all (\<lambda>out. to_Value out = 100 \<and> length (to_PubKeyHash out) = 20) (tx_TxOuts genesis_tx)"
    using genesis_addresses by (simp add: genesis_tx_def list_all_iff)
  then show ?thesis
    using g GenerateGenesisBlock_Ret[OF assms(1) g] ValidateBlock_genesis[OF assms(1) g] genesis_distinct
    by (intro exI[of _ g] exI[of _ genesis_tx]) (simp add: block_hash_def)
qed

theorem genesis_block_witness: "\<exists>g. GenerateGenesisBlock demo_env = Some (Ret g) \<and> length (b_Transactions g) = 1"
  using genesis_block[OF demo_scrypt_ok demo_pow_solvable] by auto

end
