(* ===== verification/UtxoDb.thy ===== *)
theory UtxoDb
  imports Block
begin

text \<open>
  \<^verbatim>\<open>src/node/utxodb.go\<close> and \<^verbatim>\<open>updateUtxoDb\<close> of \<^verbatim>\<open>src/node/miner.go\<close>: the database of unspent transaction
  outputs.  The two nested Go maps are association lists (their pointers are never shared, so they are
  stored by value); the order in which \<^verbatim>\<open>range\<close> visits a map is an argument of \<open>GetUnspentTxs\<close>, and its
  theorems hold for every order the run-time may choose.

  The abstract view is the map \<open>unspent\<close> from outpoints (transaction hash, output index) to coins
  (owner, value).  The locale \<open>ledger\<close> states what such a database promises: spending removes one
  outpoint, creating adds one.  The interpretation \<open>utxo\<close> discharges it for the code's operations.
\<close>

record UtxoOutput =
  uo_Spent :: bool
  uo_PubKeyHash :: bytes
  uo_Value :: u32

record UtxoEntry =
  ue_outputs :: "(u32, UtxoOutput) gomap"

record UtxoDb =
  ud_Entries :: "(bytes, UtxoEntry) gomap"

record UnspentTx =
  ut_TxHash :: bytes
  ut_TxOutIndex :: u32
  ut_Value :: u32

type_synonym outpoint = "bytes \<times> u32"
type_synonym coin = "bytes \<times> u32"

subsection \<open>Lookup\<close>

text \<open>An iteration order: the visited hashes, each with the visited indices of its outputs.\<close>

type_synonym visit = "(bytes \<times> u32 list) list"

definition unspent_of :: "bytes \<Rightarrow> bytes \<Rightarrow> UtxoEntry \<Rightarrow> u32 \<Rightarrow> UnspentTx list" where
  "unspent_of pubkeyHash txHash utxoEntry txOutIndex =
     (case go_get (ue_outputs utxoEntry) txOutIndex of
        None \<Rightarrow> []
      | Some utxoOut \<Rightarrow>
          (if uo_Spent utxoOut = False \<and> uo_PubKeyHash utxoOut = pubkeyHash
           then [\<lparr>ut_TxHash = txHash, ut_TxOutIndex = txOutIndex, ut_Value = uo_Value utxoOut\<rparr>] else []))"

definition GetUnspentTxs :: "visit \<Rightarrow> UtxoDb \<Rightarrow> bytes \<Rightarrow> UnspentTx list \<times> bool" where
  "GetUnspentTxs ord utxodb pubkeyHash =
     (let out = concat (map (\<lambda>(txHash, idxs).
            case go_get (ud_Entries utxodb) txHash of
              None \<Rightarrow> []
            | Some utxoEntry \<Rightarrow> concat (map (unspent_of pubkeyHash txHash utxoEntry) idxs)) ord)
      in (out, length out \<noteq> 0))"

text \<open>The orders Go may use: every key of each map exactly once.\<close>

definition visits :: "visit \<Rightarrow> UtxoDb \<Rightarrow> bool" where
  "visits ord utxodb \<longleftrightarrow>
     mset (map fst ord) = mset (map fst (ud_Entries utxodb)) \<and>
     (\<forall>(h, idxs) \<in> set ord. \<forall>e. go_get (ud_Entries utxodb) h = Some e \<longrightarrow> mset idxs = mset (map fst (ue_outputs e)))"

definition list_order :: "UtxoDb \<Rightarrow> visit" where
  "list_order utxodb = map (\<lambda>(h, e). (h, map fst (ue_outputs e))) (ud_Entries utxodb)"

subsection \<open>Update\<close>

text \<open>The body of the input loop: mark one output spent, drop the entry when all its outputs are.\<close>

definition spendOutput :: "outpoint \<Rightarrow> UtxoDb \<Rightarrow> UtxoDb go" where
  "spendOutput p utxodb =
     (case go_get (ud_Entries utxodb) (fst p) of
        None \<Rightarrow> Panic (Explicit ''invalid transaction detected'')
      | Some utxoEntry \<Rightarrow>
          bind_go (deref (go_get (ue_outputs utxoEntry) (snd p))) (\<lambda>utxoOut.
            let outs = go_put (snd p) (utxoOut\<lparr>uo_Spent := True\<rparr>) (ue_outputs utxoEntry)
            in if list_all (\<lambda>(i, utxoOutput). uo_Spent utxoOutput) outs
               then Ret (utxodb\<lparr>ud_Entries := go_del (fst p) (ud_Entries utxodb)\<rparr>)
               else Ret (utxodb\<lparr>ud_Entries := go_put (fst p) (utxoEntry\<lparr>ue_outputs := outs\<rparr>) (ud_Entries utxodb)\<rparr>)))"

text \<open>The body of the output loop: a new entry for the transaction if there is none yet.\<close>

definition addOutput :: "outpoint \<Rightarrow> coin \<Rightarrow> UtxoDb \<Rightarrow> UtxoDb" where
  "addOutput p c utxodb =
     (let utxoEntry = (case go_get (ud_Entries utxodb) (fst p) of None \<Rightarrow> \<lparr>ue_outputs = []\<rparr> | Some e \<Rightarrow> e);
          utxoOut = \<lparr>uo_Spent = False, uo_PubKeyHash = fst c, uo_Value = snd c\<rparr>
      in utxodb\<lparr>ud_Entries := go_put (fst p)
           (utxoEntry\<lparr>ue_outputs := go_put (snd p) utxoOut (ue_outputs utxoEntry)\<rparr>) (ud_Entries utxodb)\<rparr>)"

definition tx_inputs :: "Transaction \<Rightarrow> outpoint list" where
  "tx_inputs tx = map (\<lambda>txIn. (ti_PrevTxHash txIn, ti_PrevTxOutIndex txIn)) (sl (tx_TxIns tx))"

definition tx_outputs :: "bytes \<Rightarrow> Transaction \<Rightarrow> (outpoint \<times> coin) list" where
  "tx_outputs txHash tx =
     map (\<lambda>(idx, txOut). ((txHash, word_of_nat idx), (to_PubKeyHash txOut, to_Value txOut)))
       (enumerate 0 (tx_TxOuts tx))"

definition updateUtxoDb :: "env \<Rightarrow> Transaction \<Rightarrow> UtxoDb \<Rightarrow> UtxoDb go" where
  "updateUtxoDb E tx utxodb =
     bind_go (fold_go spendOutput (tx_inputs tx) utxodb) (\<lambda>utxodb.
     bind_go (Tx_Hash E tx) (\<lambda>txHash.
     Ret (fold (\<lambda>(p, c). addOutput p c) (tx_outputs (sl txHash) tx) utxodb)))"

subsection \<open>The abstract ledger\<close>

definition unspent :: "UtxoDb \<Rightarrow> outpoint \<Rightarrow> coin option" where
  "unspent utxodb p =
     (case go_get (ud_Entries utxodb) (fst p) of
        None \<Rightarrow> None
      | Some e \<Rightarrow> (case go_get (ue_outputs e) (snd p) of
            None \<Rightarrow> None
          | Some out \<Rightarrow> (if uo_Spent out then None else Some (uo_PubKeyHash out, uo_Value out))))"

text \<open>Well-formedness: keys are unique and no entry is kept whose outputs are all spent.\<close>

definition utxo_wf :: "UtxoDb \<Rightarrow> bool" where
  "utxo_wf utxodb \<longleftrightarrow> go_map_wf (ud_Entries utxodb) \<and>
     (\<forall>h e. go_get (ud_Entries utxodb) h = Some e \<longrightarrow>
        go_map_wf (ue_outputs e) \<and> (\<exists>i out. go_get (ue_outputs e) i = Some out \<and> \<not> uo_Spent out))"

locale ledger =
  fixes wf :: "'db \<Rightarrow> bool"
    and coins :: "'db \<Rightarrow> 'p \<Rightarrow> 'c option"
    and spend :: "'p \<Rightarrow> 'db \<Rightarrow> 'db go"
    and create :: "'p \<Rightarrow> 'c \<Rightarrow> 'db \<Rightarrow> 'db"
  assumes wf_spend: "wf db \<Longrightarrow> spend p db = Ret db' \<Longrightarrow> wf db'"
    and wf_create: "wf db \<Longrightarrow> wf (create p c db)"
    and coins_spend: "spend p db = Ret db' \<Longrightarrow> coins db' = (coins db)(p := None)"
    and coins_create: "coins (create p c db) = (coins db)(p \<mapsto> c)"
    and spend_succeeds: "coins db p \<noteq> None \<Longrightarrow> \<exists>db'. spend p db = Ret db'"
    and finite_coins: "wf db \<Longrightarrow> finite (dom (coins db))"
begin

lemma wf_spend_all: "fold_go spend ps db = Ret db' \<Longrightarrow> wf db \<Longrightarrow> wf db'"
  by (erule fold_go_invariant) (auto intro: wf_spend)

lemma wf_create_all: "wf db \<Longrightarrow> wf (fold (\<lambda>(p, c). create p c) pcs db)"
  by (induction pcs arbitrary: db) (auto intro: wf_create)

lemma coins_spend_all: "fold_go spend ps db = Ret db' \<Longrightarrow> coins db' = coins db |` (- set ps)"
proof (induction ps arbitrary: db)
  case Nil
  then show ?case by simp
next
  case (Cons p ps)
  then obtain db1 where "spend p db = Ret db1" "coins db' = coins db1 |` (- set ps)"
    by (auto simp: go_simps)
  then show ?case using coins_spend by (auto simp: restrict_map_def fun_eq_iff)
qed

lemma spend_all_succeeds:
  "distinct ps \<Longrightarrow> set ps \<subseteq> dom (coins db) \<Longrightarrow> \<exists>db'. fold_go spend ps db = Ret db'"
proof (induction ps arbitrary: db)
  case Nil
  then show ?case by simp
next
  case (Cons p ps)
  have "coins db p \<noteq> None" using Cons.prems(2) by auto
  then obtain db1 where db1: "spend p db = Ret db1" using spend_succeeds by blast
  then have "set ps \<subseteq> dom (coins db1)"
    using Cons.prems coins_spend[OF db1] by (auto simp: subset_iff domIff)
  with Cons db1 show ?case by simp
qed

lemma coins_create_all: "coins (fold (\<lambda>(p, c). create p c) pcs db) = coins db ++ map_of (rev pcs)"
proof (induction pcs arbitrary: db)
  case Nil
  then show ?case by simp
next
  case (Cons pc pcs)
  obtain p c where pc: "pc = (p, c)" by (cases pc)
  have "coins db ++ map_of (rev pcs @ [(p, c)]) = coins (create p c db) ++ map_of (rev pcs)"
    by (simp add: coins_create map_add_assoc)
  with Cons pc show ?case by simp
qed

text \<open>What a batch of spends and creations does to the sum of the coins' values.\<close>

lemma sum_spend_create:
  assumes "wf db" and "fold_go spend ps db = Ret db1" and "distinct ps" and "set ps \<subseteq> dom (coins db)"
    and "distinct (map fst pcs)" and "set (map fst pcs) \<inter> dom (coins db1) = {}"
  shows "sum_values v (coins (fold (\<lambda>(p, c). create p c) pcs db1)) + (\<Sum>p \<leftarrow> ps. v (the (coins db p))) =
    sum_values v (coins db) + (\<Sum>pc \<leftarrow> pcs. v (snd pc))"
proof -
  have "sum_values v (coins db1) + (\<Sum>p \<leftarrow> ps. v (the (coins db p))) = sum_values v (coins db)"
    using sum_values_restrict[OF finite_coins[OF assms(1)] assms(3,4)] coins_spend_all[OF assms(2)] by simp
  moreover have "sum_values v (coins (fold (\<lambda>(p, c). create p c) pcs db1)) =
      sum_values v (coins db1) + (\<Sum>pc \<leftarrow> pcs. v (snd pc))"
    using sum_values_add_list[of "coins db1" "rev pcs" v] finite_coins[OF wf_spend_all[OF assms(2,1)]] assms(5,6)
    by (simp add: coins_create_all rev_map[symmetric] sum_list_rev)
  ultimately show ?thesis by simp
qed

end

subsection \<open>The code's database is a ledger\<close>

lemma unspent_addOutput: "unspent (addOutput p c db) = (unspent db)(p \<mapsto> c)"
  by (rule ext) (auto simp: unspent_def addOutput_def Let_def prod_eq_iff split: option.split)

lemma spendOutput_Ret:
  assumes "spendOutput p db = Ret db'"
  obtains e out outs where "go_get (ud_Entries db) (fst p) = Some e" and "go_get (ue_outputs e) (snd p) = Some out"
    and "outs = go_put (snd p) (out\<lparr>uo_Spent := True\<rparr>) (ue_outputs e)"
    and "db' = (if list_all (\<lambda>(i, out). uo_Spent out) outs
      then db\<lparr>ud_Entries := go_del (fst p) (ud_Entries db)\<rparr>
      else db\<lparr>ud_Entries := go_put (fst p) (e\<lparr>ue_outputs := outs\<rparr>) (ud_Entries db)\<rparr>)"
  using assms by (auto simp: spendOutput_def Let_def go_simps split: option.splits if_splits)

lemma unspent_spendOutput:
  assumes "spendOutput p db = Ret db'"
  shows "unspent db' = (unspent db)(p := None)"
proof -
  obtain e out outs where e: "go_get (ud_Entries db) (fst p) = Some e" "go_get (ue_outputs e) (snd p) = Some out"
      "outs = go_put (snd p) (out\<lparr>uo_Spent := True\<rparr>) (ue_outputs e)"
    and db': "db' = (if list_all (\<lambda>(i, out). uo_Spent out) outs
      then db\<lparr>ud_Entries := go_del (fst p) (ud_Entries db)\<rparr>
      else db\<lparr>ud_Entries := go_put (fst p) (e\<lparr>ue_outputs := outs\<rparr>) (ud_Entries db)\<rparr>)"
    using spendOutput_Ret[OF assms] .
  show ?thesis
  proof (cases "list_all (\<lambda>(i, out). uo_Spent out) outs")
    case True
    have "uo_Spent o'" if "go_get (ue_outputs e) i = Some o'" "i \<noteq> snd p" for i o'
    proof -
      have "go_get outs i = Some o'" using that e(3) by simp
      with True show ?thesis by (auto simp: list_all_iff dest: go_get_in_set)
    qed
    with True db' e show ?thesis
      by (auto simp: unspent_def fun_eq_iff prod_eq_iff split: option.split)
  next
    case False
    with db' e show ?thesis
      by (auto simp: unspent_def fun_eq_iff prod_eq_iff split: option.split)
  qed
qed

lemma utxo_wf_addOutput: "utxo_wf db \<Longrightarrow> utxo_wf (addOutput p c db)"
  unfolding utxo_wf_def addOutput_def Let_def
  by (auto split: option.split if_splits)

lemma utxo_wf_spendOutput:
  assumes "utxo_wf db" and "spendOutput p db = Ret db'"
  shows "utxo_wf db'"
proof -
  obtain e out outs where e: "go_get (ud_Entries db) (fst p) = Some e" "go_get (ue_outputs e) (snd p) = Some out"
      "outs = go_put (snd p) (out\<lparr>uo_Spent := True\<rparr>) (ue_outputs e)"
    and db': "db' = (if list_all (\<lambda>(i, out). uo_Spent out) outs
      then db\<lparr>ud_Entries := go_del (fst p) (ud_Entries db)\<rparr>
      else db\<lparr>ud_Entries := go_put (fst p) (e\<lparr>ue_outputs := outs\<rparr>) (ud_Entries db)\<rparr>)"
    using spendOutput_Ret[OF assms(2)] .
  have wf: "go_map_wf outs" using e assms(1) by (auto simp: utxo_wf_def)
  show ?thesis
  proof (cases "list_all (\<lambda>(i, out). uo_Spent out) outs")
    case True
    with db' assms(1) show ?thesis by (auto simp: utxo_wf_def)
  next
    case False
    then obtain i o' where "(i, o') \<in> set outs" "\<not> uo_Spent o'" by (auto simp: list_all_iff)
    with wf have "go_get outs i = Some o'" by (simp add: go_get_iff_in_set)
    with False db' wf assms(1) \<open>\<not> uo_Spent o'\<close> show ?thesis by (auto simp: utxo_wf_def)
  qed
qed

lemma finite_unspent: "finite (dom (unspent db))"
proof -
  let ?ps = "\<Union>(h, e) \<in> set (ud_Entries db). \<Union>(i, out) \<in> set (ue_outputs e). {(h, i)}"
  have "dom (unspent db) \<subseteq> ?ps"
    by (force simp: unspent_def split: option.splits dest: go_get_in_set)
  moreover have "finite ?ps" by auto
  ultimately show ?thesis by (rule finite_subset)
qed

interpretation utxo: ledger utxo_wf unspent spendOutput addOutput
proof unfold_locales
  show "\<exists>db'. spendOutput p db = Ret db'" if "unspent db p \<noteq> None" for db p
    using that by (auto simp: unspent_def spendOutput_def Let_def split: option.splits)
qed (auto intro: utxo_wf_spendOutput utxo_wf_addOutput unspent_spendOutput unspent_addOutput finite_unspent)

subsection \<open>Effect of an update\<close>

text \<open>What a transaction does to the coins: its inputs go, its outputs come.\<close>

definition apply_coins :: "outpoint list \<Rightarrow> (outpoint \<times> coin) list \<Rightarrow> (outpoint \<rightharpoonup> coin) \<Rightarrow> (outpoint \<rightharpoonup> coin)" where
  "apply_coins ins outs m = (m |` (- set ins)) ++ map_of (rev outs)"

lemma updateUtxoDb_Ret:
  "updateUtxoDb E tx db = Ret db' \<longleftrightarrow>
     (\<exists>db1 h. fold_go spendOutput (tx_inputs tx) db = Ret db1 \<and> Tx_Hash E tx = Ret h \<and>
        db' = fold (\<lambda>(p, c). addOutput p c) (tx_outputs (sl h) tx) db1)"
  by (auto simp: updateUtxoDb_def go_simps)

lemma updateUtxoDb_unspent:
  assumes "updateUtxoDb E tx db = Ret db'" and "Tx_Hash E tx = Ret h"
  shows "unspent db' = apply_coins (tx_inputs tx) (tx_outputs (sl h) tx) (unspent db)"
  using assms by (auto simp: updateUtxoDb_Ret apply_coins_def utxo.coins_create_all utxo.coins_spend_all)

lemma updateUtxoDb_wf: "utxo_wf db \<Longrightarrow> updateUtxoDb E tx db = Ret db' \<Longrightarrow> utxo_wf db'"
  by (auto simp: updateUtxoDb_Ret intro: utxo.wf_create_all utxo.wf_spend_all)

lemma updateUtxoDb_succeeds:
  assumes "distinct (tx_inputs tx)" and "set (tx_inputs tx) \<subseteq> dom (unspent db)" and "Tx_Hash E tx = Ret h"
  shows "\<exists>db'. updateUtxoDb E tx db = Ret db'"
  using utxo.spend_all_succeeds[OF assms(1,2)] assms(3) by (auto simp: updateUtxoDb_Ret)

lemma map_fst_tx_outputs:
  "map fst (tx_outputs h tx) = map (\<lambda>i. (h, word_of_nat i)) [0..<length (tx_TxOuts tx)]"
  by (rule nth_equalityI) (simp_all add: tx_outputs_def nth_enumerate_eq)

lemma map_snd_tx_outputs:
  "map snd (tx_outputs h tx) = map (\<lambda>out. (to_PubKeyHash out, to_Value out)) (tx_TxOuts tx)"
  by (rule nth_equalityI) (simp_all add: tx_outputs_def nth_enumerate_eq)

lemma distinct_tx_outputs:
  assumes "length (tx_TxOuts tx) \<le> 2 ^ 32"
  shows "distinct (map fst (tx_outputs h tx))"
proof -
  have "inj_on (\<lambda>i. (h, word_of_nat i :: u32)) (set [0..<length (tx_TxOuts tx)])"
  proof (rule inj_onI)
    fix i j
    assume "i \<in> set [0..<length (tx_TxOuts tx)]" "j \<in> set [0..<length (tx_TxOuts tx)]"
      and "(h, word_of_nat i :: u32) = (h, word_of_nat j)"
    then have "i mod 2 ^ 32 = j mod 2 ^ 32" "i < 2 ^ 32" "j < 2 ^ 32"
      using assms by (simp_all add: word_of_nat_eq_iff take_bit_nat_def)
    then show "i = j" by simp
  qed
  then show ?thesis by (simp add: map_fst_tx_outputs distinct_map)
qed

subsection \<open>Lookup\<close>

lemma in_unspent_of:
  "u \<in> set (unspent_of pkh h e i) \<longleftrightarrow>
     (\<exists>out. go_get (ue_outputs e) i = Some out \<and> \<not> uo_Spent out \<and> uo_PubKeyHash out = pkh \<and>
        u = \<lparr>ut_TxHash = h, ut_TxOutIndex = i, ut_Value = uo_Value out\<rparr>)"
  by (cases "go_get (ue_outputs e) i") (auto simp: unspent_of_def)

lemma distinct_unspent_of: "distinct (unspent_of pkh h e i)"
  by (simp add: unspent_of_def split: option.split)

lemma distinct_concat_keyed:
  assumes "distinct (map f xs)" and "\<And>x. x \<in> set xs \<Longrightarrow> distinct (g x)"
    and "\<And>x y. x \<in> set xs \<Longrightarrow> y \<in> set (g x) \<Longrightarrow> key y = f x"
  shows "distinct (concat (map g xs))"
  using assms
proof (induction xs)
  case Nil
  then show ?case by simp
next
  case (Cons x xs)
  have "set (g x) \<inter> set (concat (map g xs)) = {}"
  proof (rule ccontr)
    assume "\<not> ?thesis"
    then obtain y x' where "y \<in> set (g x)" "x' \<in> set xs" "y \<in> set (g x')" by auto
    then have "f x = f x'" using Cons.prems(3)[of x y] Cons.prems(3)[of x' y] by simp
    with \<open>x' \<in> set xs\<close> show False using Cons.prems(1) by auto
  qed
  with Cons show ?case by auto
qed

lemma visits_keys:
  assumes "utxo_wf db" and "visits ord db"
  shows "distinct (map fst ord)" and "set (map fst ord) = dom (go_get (ud_Entries db))"
    and "(h, idxs) \<in> set ord \<Longrightarrow> go_get (ud_Entries db) h = Some e \<Longrightarrow>
      distinct idxs \<and> set idxs = dom (go_get (ue_outputs e))"
proof -
  have ord: "mset (map fst ord) = mset (map fst (ud_Entries db))"
    using assms(2) by (simp add: visits_def)
  then show "distinct (map fst ord)"
    using assms(1) mset_eq_imp_distinct_iff[OF ord] by (simp add: utxo_wf_def go_map_wf_def)
  show "set (map fst ord) = dom (go_get (ud_Entries db))"
    using mset_eq_setD[OF ord] gm.set_keys by metis
  assume "(h, idxs) \<in> set ord" and e: "go_get (ud_Entries db) h = Some e"
  with assms(2) have idxs: "mset idxs = mset (map fst (ue_outputs e))" by (auto simp: visits_def)
  have "go_map_wf (ue_outputs e)" using assms(1) e by (auto simp: utxo_wf_def)
  then have "distinct (map fst (ue_outputs e))" by (simp add: go_map_wf_def)
  then have "distinct idxs" using mset_eq_imp_distinct_iff[OF idxs] by simp
  moreover have "set idxs = dom (go_get (ue_outputs e))"
    using mset_eq_setD[OF idxs] gm.set_keys by metis
  ultimately show "distinct idxs \<and> set idxs = dom (go_get (ue_outputs e))" by simp
qed

lemma GetUnspentTxs_set:
  assumes "utxo_wf db" and "visits ord db"
  shows "u \<in> set (fst (GetUnspentTxs ord db pkh)) \<longleftrightarrow>
    unspent db (ut_TxHash u, ut_TxOutIndex u) = Some (pkh, ut_Value u)"
proof
  assume "u \<in> set (fst (GetUnspentTxs ord db pkh))"
  then obtain h idxs where h: "(h, idxs) \<in> set ord"
      "u \<in> set (case go_get (ud_Entries db) h of None \<Rightarrow> []
         | Some e \<Rightarrow> concat (map (unspent_of pkh h e) idxs))"
    by (auto simp: GetUnspentTxs_def Let_def)
  then show "unspent db (ut_TxHash u, ut_TxOutIndex u) = Some (pkh, ut_Value u)"
    by (cases "go_get (ud_Entries db) h") (auto simp: in_unspent_of unspent_def)
next
  assume "unspent db (ut_TxHash u, ut_TxOutIndex u) = Some (pkh, ut_Value u)"
  then obtain e out where e: "go_get (ud_Entries db) (ut_TxHash u) = Some e"
      "go_get (ue_outputs e) (ut_TxOutIndex u) = Some out" "\<not> uo_Spent out" "uo_PubKeyHash out = pkh"
      "uo_Value out = ut_Value u"
    by (auto simp: unspent_def split: option.splits if_splits)
  then obtain idxs where "(ut_TxHash u, idxs) \<in> set ord" using visits_keys(2)[OF assms] by force
  moreover from this have "ut_TxOutIndex u \<in> set idxs" using visits_keys(3)[OF assms] e by auto
  moreover have "u \<in> set (unspent_of pkh (ut_TxHash u) e (ut_TxOutIndex u))"
    using e by (auto simp: in_unspent_of)
  ultimately show "u \<in> set (fst (GetUnspentTxs ord db pkh))"
    using e(1) by (force simp: GetUnspentTxs_def Let_def)
qed

lemma GetUnspentTxs_distinct:
  assumes "utxo_wf db" and "visits ord db"
  shows "distinct (fst (GetUnspentTxs ord db pkh))"
  unfolding GetUnspentTxs_def Let_def fst_conv
proof (rule distinct_concat_keyed[where f = fst and key = ut_TxHash])
  show "distinct (map fst ord)" by (rule visits_keys(1)[OF assms])
next
  fix x assume x: "x \<in> set ord"
  show "distinct (case x of (txHash, idxs) \<Rightarrow> case go_get (ud_Entries db) txHash of None \<Rightarrow> []
      | Some e \<Rightarrow> concat (map (unspent_of pkh txHash e) idxs))"
  proof (cases x)
    case (Pair h idxs)
    have "distinct (concat (map (unspent_of pkh h e) idxs))" if "go_get (ud_Entries db) h = Some e" for e
      using visits_keys(3)[OF assms x[unfolded Pair] that]
      by (intro distinct_concat_keyed[where f = id and key = ut_TxOutIndex])
        (auto simp: distinct_unspent_of in_unspent_of)
    with Pair show ?thesis by (simp split: option.split)
  qed
qed (auto simp: in_unspent_of split: option.splits)

lemma GetUnspentTxs_success:
  assumes "utxo_wf db" and "visits ord db"
  shows "snd (GetUnspentTxs ord db pkh) \<longleftrightarrow> (\<exists>p v. unspent db p = Some (pkh, v))"
proof -
  have "snd (GetUnspentTxs ord db pkh) \<longleftrightarrow> fst (GetUnspentTxs ord db pkh) \<noteq> []"
    by (simp add: GetUnspentTxs_def Let_def)
  also have "\<dots> \<longleftrightarrow> (\<exists>u. u \<in> set (fst (GetUnspentTxs ord db pkh)))" by (metis ex_in_conv set_empty)
  also have "\<dots> \<longleftrightarrow> (\<exists>p v. unspent db p = Some (pkh, v))"
    unfolding GetUnspentTxs_set[OF assms]
    by (metis UnspentTx.select_convs surj_pair)
  finally show ?thesis .
qed

lemma visits_list_order: "utxo_wf db \<Longrightarrow> visits (list_order db) db"
  by (auto simp: visits_def list_order_def comp_def case_prod_unfold utxo_wf_def go_get_iff_in_set[symmetric])

subsection \<open>A concrete database for evaluation\<close>

text \<open>One unspent coin of value 5 that belongs to the demo key 7, at output 0 of the transaction \<open>demo_txid\<close>.\<close>

definition demo_txid :: bytes where
  "demo_txid = replicate 32 9"

definition demo_db :: UtxoDb where
  "demo_db = \<lparr>ud_Entries = [(demo_txid, \<lparr>ue_outputs = [(0, \<lparr>uo_Spent = False, uo_PubKeyHash = demo_addr 7, uo_Value = 5\<rparr>)]\<rparr>)]\<rparr>"

lemma demo_db_wf: "utxo_wf demo_db"
  by (auto simp: utxo_wf_def demo_db_def go_map_wf_def go_get_def)

lemma unspent_demo_db: "unspent demo_db = [(demo_txid, 0) \<mapsto> (demo_addr 7, 5)]"
  by (rule ext) (auto simp: unspent_def demo_db_def go_get_def prod_eq_iff)

lemma demo_post_inputs [simp]: "tx_inputs (demo_post k h v) = [(h, 0)]"
  by (simp add: tx_inputs_def demo_post_def)

lemma demo_post_outputs [simp]: "tx_outputs th (demo_post k h v) = [((th, 0), (demo_addr k, v))]"
  by (simp add: tx_outputs_def demo_post_def)

lemma length_demo_txid [simp]: "length demo_txid = 32"
  by (simp add: demo_txid_def)

subsection \<open>Properties\<close>

text \<open>C8: \<^verbatim>\<open>updateUtxoDb\<close> refines the abstract ledger: whenever it returns, the coins of the new database are
  those of the old one without the transaction's inputs and with its outputs, and the database stays
  well-formed (unique keys, no entry kept whose outputs are all spent).\<close>

theorem updateUtxoDb_refines_ledger:
  assumes "utxo_wf db" and "updateUtxoDb E tx db = Ret db'"
  shows "utxo_wf db' \<and> (\<exists>h. Tx_Hash E tx = Ret h \<and>
    unspent db' = apply_coins (tx_inputs tx) (tx_outputs (sl h) tx) (unspent db))"
proof -
  obtain h where h: "Tx_Hash E tx = Ret h" using assms(2) by (auto simp: updateUtxoDb_Ret)
  then show ?thesis using updateUtxoDb_wf[OF assms] updateUtxoDb_unspent[OF assms(2) h] by blast
qed

text \<open>\<^verbatim>\<open>updateUtxoDb\<close> does not panic on a transaction of the nominal component sizes that spends
  different unspent outputs.\<close>

theorem updateUtxoDb_returns:
  assumes "validateComponents tx = None" and "distinct (tx_inputs tx)" and "set (tx_inputs tx) \<subseteq> dom (unspent db)"
  shows "\<exists>db'. updateUtxoDb E tx db = Ret db'"
  using assms Tx_Hash_layout by (intro updateUtxoDb_succeeds) auto

theorem updateUtxoDb_returns_witness: "\<exists>db'. updateUtxoDb demo_env (demo_post 7 demo_txid 5) demo_db = Ret db'"
  using updateUtxoDb_returns[of "demo_post 7 demo_txid 5" demo_db demo_env] by (simp add: unspent_demo_db)

theorem updateUtxoDb_refines_ledger_witness:
  "\<exists>db' h. updateUtxoDb demo_env (demo_post 7 demo_txid 5) demo_db = Ret db' \<and>
     unspent db' (demo_txid, 0) = (if h = demo_txid then Some (demo_addr 7, 5) else None) \<and>
     unspent db' (h, 0) = Some (demo_addr 7, 5)"
proof -
  let ?tx = "demo_post 7 demo_txid 5"
  obtain db' where db': "updateUtxoDb demo_env ?tx demo_db = Ret db'"
    using updateUtxoDb_succeeds[of ?tx demo_db demo_env] by (auto simp: unspent_demo_db Tx_Hash_layout)
  from updateUtxoDb_refines_ledger[OF demo_db_wf this] db' show ?thesis
    by (auto simp: apply_coins_def unspent_demo_db)
qed

text \<open>C30: \<^verbatim>\<open>GetUnspentTxs\<close> lists, for every order in which Go may iterate over the two maps, each unspent
  output of the address exactly once and nothing else; it reports success when there is at least one.\<close>

theorem GetUnspentTxs_exact:
  assumes "utxo_wf db" and "visits ord db"
  shows "distinct (fst (GetUnspentTxs ord db pkh)) \<and>
    set (fst (GetUnspentTxs ord db pkh)) = {u. unspent db (ut_TxHash u, ut_TxOutIndex u) = Some (pkh, ut_Value u)} \<and>
    snd (GetUnspentTxs ord db pkh) = (\<exists>p v. unspent db p = Some (pkh, v))"
  using GetUnspentTxs_set[OF assms] GetUnspentTxs_distinct[OF assms] GetUnspentTxs_success[OF assms] by blast

theorem GetUnspentTxs_exact_witness:
  "\<lparr>ut_TxHash = demo_txid, ut_TxOutIndex = 0, ut_Value = 5\<rparr> \<in> set (fst (GetUnspentTxs (list_order demo_db) demo_db (demo_addr 7)))"
  using GetUnspentTxs_exact[OF demo_db_wf visits_list_order[OF demo_db_wf], of "demo_addr 7"]
  by (simp add: unspent_demo_db)

definition total_value :: "UtxoDb \<Rightarrow> nat" where
  "total_value db = sum_values (\<lambda>c. unat (snd c)) (unspent db)"



end
