(* ===== verification/Validation.thy ===== *)
theory Validation
  imports UtxoDb
begin

text \<open>
  Transaction and block validation of \<^verbatim>\<open>src/node/miner.go\<close>: \<^verbatim>\<open>verifySignature\<close>,
  \<^verbatim>\<open>validateTransaction\<close>, \<^verbatim>\<open>validateBlockTxs\<close> and \<^verbatim>\<open>findTxInBlockChain\<close>.  They read two fields of the node,
  its \<^verbatim>\<open>Utxo\<close> and its \<^verbatim>\<open>Blockchain\<close> (a list of pointers, \<open>None\<close> for nil), which are their arguments.

  Sums are \<^verbatim>\<open>uint32\<close> and wrap around, exactly as in the code.  The main lemma is
  \<open>validateTransaction_None\<close>: a transaction is accepted if and only if a list of explicit conditions
  holds.
\<close>

definition verifySignature :: "env \<Rightarrow> TxIn \<Rightarrow> bytes \<Rightarrow> bool" where
  "verifySignature E txIn txHashNoSig =
     (case ParseSignature E (ti_Sig txIn) of
        None \<Rightarrow> False
      | Some signature \<Rightarrow> (case ParsePubKey E (ti_PubKey txIn) of
            None \<Rightarrow> False
          | Some pubKey \<Rightarrow> Verify E signature txHashNoSig pubKey))"

subsection \<open>Looking a transaction up in the chain\<close>

fun find_tx :: "env \<Rightarrow> bytes \<Rightarrow> Transaction list \<Rightarrow> Transaction option go" where
  "find_tx E txHash [] = Ret None"
| "find_tx E txHash (tx # txs) =
     bind_go (Tx_Hash E tx) (\<lambda>h. if sl h = txHash then Ret (Some tx) else find_tx E txHash txs)"

fun findTxInBlockChain :: "env \<Rightarrow> bytes \<Rightarrow> Block option list \<Rightarrow> Transaction option go" where
  "findTxInBlockChain E txHash [] = Ret None"
| "findTxInBlockChain E txHash (p # chain) =
     bind_go (deref p) (\<lambda>block.
     bind_go (find_tx E txHash (b_Transactions block)) (\<lambda>found.
       if found \<noteq> None then Ret found else findTxInBlockChain E txHash chain))"

subsection \<open>Transactions\<close>

text \<open>The loop over the inputs: an error, or the (wrapped) sum of the spent values.\<close>

fun validate_inputs :: "env \<Rightarrow> UtxoDb \<Rightarrow> Transaction \<Rightarrow> TxIn list \<Rightarrow> u32 \<Rightarrow> (string + u32) go" where
  "validate_inputs E db tx [] inputSum = Ret (Inr inputSum)"
| "validate_inputs E db tx (txIn # rest) inputSum =
     (case go_get (ud_Entries db) (ti_PrevTxHash txIn) of
        None \<Rightarrow> Ret (Inl ''Invalid input transaction provided: missing or spent'')
      | Some utxoEntry \<Rightarrow>
          bind_go (deref (go_get (ue_outputs utxoEntry) (ti_PrevTxOutIndex txIn))) (\<lambda>utxoOut.
            if uo_Spent utxoOut then Ret (Inl ''Invalid input transaction provided: missing or spent'')
            else bind_go (HashNoSig E tx) (\<lambda>res.
              case res of
                Inl err \<Rightarrow> Ret (Inl ''Invalid transaction signature'')
              | Inr txHashNoSig \<Rightarrow>
                  (if \<not> verifySignature E txIn (sl txHashNoSig) then Ret (Inl ''Invalid transaction signature'')
                   else if uo_PubKeyHash utxoOut \<noteq> sl (PKHash E (ti_PubKey txIn))
                   then Ret (Inl ''PubKeyHashes don't match'')
                   else validate_inputs E db tx rest (inputSum + uo_Value utxoOut)))))"

definition output_sum :: "Transaction \<Rightarrow> u32" where
  "output_sum tx = fold (\<lambda>txOut outputSum. outputSum + to_Value txOut) (tx_TxOuts tx) 0"

text \<open>The checks on the parent of a comment or an upvote.\<close>

definition validate_parent :: "env \<Rightarrow> Block option list \<Rightarrow> Transaction \<Rightarrow> verdict go" where
  "validate_parent E chain tx =
     (if tx_Type tx = COMMENT \<or> tx_Type tx = UPVOTE then
        bind_go (findTxInBlockChain E (sl (tx_Parent tx)) chain) (\<lambda>found.
          case found of
            None \<Rightarrow> Ret (Some ''Invalid parent Tx Hash provided'')
          | Some parentTx \<Rightarrow>
              (if \<not> (tx_Type parentTx = POST \<or> tx_Type parentTx = COMMENT)
               then Ret (Some ''Invalid parent Tx Hash provided'')
               else if tx_Type tx = UPVOTE then
                 bind_go (go_nth (tx_TxOuts tx) 0) (\<lambda>out0.
                 bind_go (go_nth (tx_TxOuts parentTx) 0) (\<lambda>parent_out0.
                   if to_PubKeyHash out0 \<noteq> to_PubKeyHash parent_out0
                   then Ret (Some ''Parent PubKeyHash not matching'') else Ret None))
               else Ret None))
      else Ret None)"

text \<open>The first line is the argument of the \<^verbatim>\<open>DPrintf\<close> call, evaluated also when nothing is printed.\<close>

definition validateTransaction :: "env \<Rightarrow> UtxoDb \<Rightarrow> Block option list \<Rightarrow> Transaction \<Rightarrow> verdict go" where
  "validateTransaction E db chain tx =
     bind_go (Tx_Id E tx) (\<lambda>_.
       if length (sl (tx_TxIns tx)) = 0 \<or> length (tx_TxOuts tx) = 0
       then Ret (Some ''TxIns and TxOuts must not be empty'')
       else bind_go (validate_inputs E db tx (sl (tx_TxIns tx)) 0) (\<lambda>res.
         case res of
           Inl err \<Rightarrow> Ret (Some err)
         | Inr inputSum \<Rightarrow>
             (if inputSum + word_of_nat TX_FEE < output_sum tx
              then Ret (Some ''Input sum (plus fee) is less than output sum'')
              else bind_go (ValidateStructure E tx) (\<lambda>v.
                if v \<noteq> None then Ret v else validate_parent E chain tx))))"

subsection \<open>Blocks\<close>

fun validate_txs :: "env \<Rightarrow> UtxoDb \<Rightarrow> Block option list \<Rightarrow> nat \<Rightarrow> Transaction list \<Rightarrow> verdict go" where
  "validate_txs E db chain n [] = Ret None"
| "validate_txs E db chain n (tx # txs) =
     (if tx_Type tx \<noteq> COINBASE then
        bind_go (ValidateStructure E tx) (\<lambda>v.
          if v \<noteq> None then Ret v
          else bind_go (validateTransaction E db chain tx) (\<lambda>v.
            if v \<noteq> None then Ret v else validate_txs E db chain n txs))
      else bind_go (go_nth (tx_TxOuts tx) 0) (\<lambda>out0.
        if to_Value out0 \<noteq> word_of_nat ((n - 1) * TX_FEE + TX_COINBASE)
        then Ret (Some ''Coinbase value is wrong'')
        else validate_txs E db chain n txs))"

definition validateBlockTxs :: "env \<Rightarrow> UtxoDb \<Rightarrow> Block option list \<Rightarrow> Block \<Rightarrow> verdict go" where
  "validateBlockTxs E db chain newBlock =
     validate_txs E db chain (length (b_Transactions newBlock)) (b_Transactions newBlock)"

subsection \<open>What is accepted\<close>

definition outpoint_of :: "TxIn \<Rightarrow> outpoint" where
  "outpoint_of t = (ti_PrevTxHash t, ti_PrevTxOutIndex t)"

text \<open>An input is in order: it spends an unspent coin of the key that signs the transaction.\<close>

definition input_ok :: "env \<Rightarrow> UtxoDb \<Rightarrow> bytes \<Rightarrow> TxIn \<Rightarrow> bool" where
  "input_ok E db digest t \<longleftrightarrow>
     (\<exists>v. unspent db (outpoint_of t) = Some (sl (PKHash E (ti_PubKey t)), v)) \<and> verifySignature E t digest"

definition input_value :: "UtxoDb \<Rightarrow> TxIn \<Rightarrow> u32" where
  "input_value db t = (case unspent db (outpoint_of t) of None \<Rightarrow> 0 | Some c \<Rightarrow> snd c)"

lemma unspent_eq_Some:
  "unspent db p = Some c \<longleftrightarrow>
     (\<exists>e out. go_get (ud_Entries db) (fst p) = Some e \<and> go_get (ue_outputs e) (snd p) = Some out \<and>
        \<not> uo_Spent out \<and> c = (uo_PubKeyHash out, uo_Value out))"
  by (auto simp: unspent_def split: option.split if_splits)

lemma validate_inputs_Inr:
  assumes "HashNoSig E tx = Ret (Inr digest)"
  shows "validate_inputs E db tx ins s = Ret (Inr s') \<longleftrightarrow>
    (\<forall>t \<in> set ins. input_ok E db (sl digest) t) \<and> s' = s + sum_list (map (input_value db) ins)"
proof (induction ins arbitrary: s)
  case Nil
  then show ?case by auto
next
  case (Cons t ins)
  have step: "validate_inputs E db tx (t # ins) s = Ret (Inr s') \<longleftrightarrow>
      input_ok E db (sl digest) t \<and> validate_inputs E db tx ins (s + input_value db t) = Ret (Inr s')"
  proof (cases "go_get (ud_Entries db) (ti_PrevTxHash t)")
    case None
    then show ?thesis by (simp add: input_ok_def unspent_def outpoint_of_def)
  next
    case (Some e)
    then show ?thesis
      by (cases "go_get (ue_outputs e) (ti_PrevTxOutIndex t)")
        (auto simp: assms input_ok_def input_value_def unspent_def outpoint_of_def)
  qed
  show ?case unfolding step Cons.IH by (auto simp: add.assoc)
qed

lemma validate_inputs_needs_components:
  "ins \<noteq> [] \<Longrightarrow> validate_inputs E db tx ins s = Ret (Inr s') \<Longrightarrow> validateComponents tx = None"
  by (cases ins) (auto simp: go_simps HashNoSig_def split: option.splits if_splits)

text \<open>The conditions on the parent of a comment or an upvote, and the whole acceptance condition.\<close>

definition parent_ok :: "env \<Rightarrow> Block option list \<Rightarrow> Transaction \<Rightarrow> bool" where
  "parent_ok E chain tx \<longleftrightarrow>
     (tx_Type tx = COMMENT \<or> tx_Type tx = UPVOTE \<longrightarrow>
        (\<exists>parent. findTxInBlockChain E (sl (tx_Parent tx)) chain = Ret (Some parent) \<and>
           (tx_Type parent = POST \<or> tx_Type parent = COMMENT) \<and>
           (tx_Type tx = UPVOTE \<longrightarrow> tx_TxOuts tx \<noteq> [] \<and> tx_TxOuts parent \<noteq> [] \<and>
              to_PubKeyHash (hd (tx_TxOuts tx)) = to_PubKeyHash (hd (tx_TxOuts parent)))))"

definition tx_accepted :: "env \<Rightarrow> UtxoDb \<Rightarrow> Block option list \<Rightarrow> Transaction \<Rightarrow> bool" where
  "tx_accepted E db chain tx \<longleftrightarrow>
     validateComponents tx = None \<and> sl (tx_TxIns tx) \<noteq> [] \<and> tx_TxOuts tx \<noteq> [] \<and>
     (\<forall>t \<in> set (sl (tx_TxIns tx)). input_ok E db (sl (Hash E (tx_layout in_layout_nosig tx))) t) \<and>
     \<not> sum_list (map (input_value db) (sl (tx_TxIns tx))) + 1 < sum_list (map to_Value (tx_TxOuts tx)) \<and>
     ValidateStructure E tx = Ret None \<and> parent_ok E chain tx"

lemma HashNoSig_ok:
  "validateComponents tx = None \<Longrightarrow> HashNoSig E tx = Ret (Inr (Hash E (tx_layout in_layout_nosig tx)))"
  by (simp add: HashNoSig_def tx_data_layout)

lemma fold_plus_word: "fold (\<lambda>x s. s + f x) xs (a :: u32) = a + sum_list (map f xs)"
  by (induction xs arbitrary: a) (simp_all add: add.assoc)

lemma output_sum_eq: "output_sum tx = sum_list (map to_Value (tx_TxOuts tx))"
  by (simp add: output_sum_def fold_plus_word)

lemma validate_parent_None: "validate_parent E chain tx = Ret None \<longleftrightarrow> parent_ok E chain tx"
proof (cases "tx_Type tx = COMMENT \<or> tx_Type tx = UPVOTE")
  case False
  then show ?thesis by (simp add: validate_parent_def parent_ok_def)
next
  case True
  show ?thesis
  proof (cases "findTxInBlockChain E (sl (tx_Parent tx)) chain")
    case (Panic p)
    with True show ?thesis by (simp add: validate_parent_def parent_ok_def)
  next
    case (Ret found)
    with True show ?thesis
      by (cases found; cases "tx_TxOuts tx"; cases "tx_TxOuts (the found)")
        (auto simp: validate_parent_def parent_ok_def go_nth_def)
  qed
qed

lemma validateTransaction_None: "validateTransaction E db chain tx = Ret None \<longleftrightarrow> tx_accepted E db chain tx"
proof (cases "validateComponents tx = None \<and> sl (tx_TxIns tx) \<noteq> [] \<and> tx_TxOuts tx \<noteq> []")
  case False
  have "\<not> validateTransaction E db chain tx = Ret None"
  proof
    assume "validateTransaction E db chain tx = Ret None"
    then obtain r where ne: "sl (tx_TxIns tx) \<noteq> []" "tx_TxOuts tx \<noteq> []"
      and r: "validate_inputs E db tx (sl (tx_TxIns tx)) 0 = Ret r" "\<forall>err. r \<noteq> Inl err"
      by (fastforce simp: validateTransaction_def go_simps split: if_splits)
    from r obtain s where "validate_inputs E db tx (sl (tx_TxIns tx)) 0 = Ret (Inr s)" by (cases r) auto
    with ne have "validateComponents tx = None" using validate_inputs_needs_components by blast
    with ne False show False by simp
  qed
  with False show ?thesis by (auto simp: tx_accepted_def)
next
  case True
  let ?ins = "sl (tx_TxIns tx)"
  let ?total = "sum_list (map (input_value db) ?ins)"
  have "Tx_Id E tx = Ret (EncodeToString (sl (Hash E (tx_layout in_layout tx))))"
    using True by (simp add: Tx_Id_def Tx_Hash_layout)
  with True have "validateTransaction E db chain tx = Ret None \<longleftrightarrow>
      (\<exists>s. validate_inputs E db tx ?ins 0 = Ret (Inr s) \<and> \<not> s + 1 < output_sum tx) \<and>
      ValidateStructure E tx = Ret None \<and> validate_parent E chain tx = Ret None"
    by (cases "validate_inputs E db tx ?ins 0"; cases "case validate_inputs E db tx ?ins 0 of Ret r \<Rightarrow> r")
      (auto simp: validateTransaction_def go_simps TX_FEE_def split: if_splits)
  also have "\<dots> \<longleftrightarrow> tx_accepted E db chain tx"
    using True validate_inputs_Inr[OF HashNoSig_ok]
    by (auto simp: tx_accepted_def output_sum_eq validate_parent_None)
  finally show ?thesis .
qed

lemma validate_txs_None:
  "validate_txs E db chain n txs = Ret None \<longleftrightarrow>
     (\<forall>tx \<in> set txs. if tx_Type tx = COINBASE
        then tx_TxOuts tx \<noteq> [] \<and> to_Value (hd (tx_TxOuts tx)) = word_of_nat ((n - 1) * TX_FEE + TX_COINBASE)
        else tx_accepted E db chain tx)"
proof (induction txs)
  case Nil
  then show ?case by simp
next
  case (Cons tx txs)
  have acc: "tx_accepted E db chain tx \<Longrightarrow> ValidateStructure E tx = Ret None"
    by (simp add: tx_accepted_def)
  show ?case
  proof (cases "tx_Type tx = COINBASE")
    case True
    with Cons show ?thesis by (cases "tx_TxOuts tx") (auto simp: go_nth_def)
  next
    case False
    have "validate_txs E db chain n (tx # txs) = Ret None \<longleftrightarrow>
        ValidateStructure E tx = Ret None \<and> validateTransaction E db chain tx = Ret None \<and>
        validate_txs E db chain n txs = Ret None"
      using False by (auto simp: go_simps split: if_splits)
    with False Cons acc show ?thesis by (auto simp: validateTransaction_None)
  qed
qed

subsection \<open>Concrete transactions for evaluation\<close>

text \<open>A transaction of demo keys, signed by the key of each input.\<close>

definition demo_signed :: "Transaction \<Rightarrow> Transaction" where
  "demo_signed tx = with_sigs (\<lambda>t. ti_PubKey t @ [byte_mix (sl (Hash demo_env (tx_layout in_layout_nosig tx)))]) tx"

text \<open>The post of the demo key 7 that names its only coin twice.\<close>

definition demo_twice :: Transaction where
  "demo_twice = (let tx = demo_post 7 demo_txid 11 in demo_signed (tx\<lparr>tx_TxIns := map_option (\<lambda>ins. ins @ ins) (tx_TxIns tx)\<rparr>))"

lemma demo_validate:
  "validateTransaction demo_env demo_db [] (demo_signed (demo_post 7 demo_txid 6)) = Ret None"
  by code_simp

lemma demo_twice_validate:
  "validateTransaction demo_env demo_db [] demo_twice = Ret None"
  by code_simp

subsection \<open>Lookup in the chain and values\<close>

lemma find_tx_eq:
  assumes "\<forall>tx \<in> set txs. validateComponents tx = None"
  shows "find_tx E h txs = Ret (List.find (\<lambda>tx. sl (Hash E (tx_layout in_layout tx)) = h) txs)"
  using assms by (induction txs) (simp_all add: Tx_Hash_layout)

lemma find_append: "List.find P (xs @ ys) = (case List.find P xs of None \<Rightarrow> List.find P ys | Some x \<Rightarrow> Some x)"
  by (induction xs) auto

lemma unat_sum_list_bound:
  assumes "sum_list (map (\<lambda>x. unat (f x)) xs) < 2 ^ 32"
  shows "unat (sum_list (map f xs) :: u32) = sum_list (map (\<lambda>x. unat (f x)) xs)"
  using assms
proof (induction xs)
  case Nil
  then show ?case by simp
next
  case (Cons x xs)
  then have "unat (f x) + unat (sum_list (map f xs)) < 2 ^ 32" by simp
  with Cons show ?case by (simp add: unat_word_ariths)
qed

lemma tx_accepted_inputs:
  assumes "tx_accepted E db chain tx"
  shows "set (tx_inputs tx) \<subseteq> dom (unspent db)"
  using assms by (auto simp: tx_accepted_def tx_inputs_def input_ok_def outpoint_of_def)

subsection \<open>Properties\<close>

text \<open>C6: \<^verbatim>\<open>validateTransaction\<close> accepts a transaction if and only if its components have the nominal sizes,
  it has inputs and outputs, every input spends an unspent output of the key that signs the transaction's
  digest, the \<^verbatim>\<open>uint32\<close> sum of the outputs is at most that of the inputs plus one, its structure is valid,
  and a comment or an upvote names a post or comment of the chain (an upvote paying its author).\<close>

theorem validateTransaction_accepts_iff:
  "validateTransaction E db chain tx = Ret None \<longleftrightarrow> tx_accepted E db chain tx"
  by (rule validateTransaction_None)

text \<open>Looking up a parent: on a chain whose transactions have the nominal component sizes,
  \<^verbatim>\<open>findTxInBlockChain\<close> returns the first transaction of the chain with the given hash, and nil when there
  is none.\<close>

theorem findTxInBlockChain_is_find:
  assumes "list_all (\<lambda>b. list_all (\<lambda>tx. validateComponents tx = None) (b_Transactions b)) bs"
  shows "findTxInBlockChain E h (map Some bs) =
    Ret (List.find (\<lambda>tx. sl (Hash E (tx_layout in_layout tx)) = h) (concat (map b_Transactions bs)))"
  using assms
proof (induction bs)
  case Nil
  then show ?case by simp
next
  case (Cons b bs)
  then show ?case by (simp add: find_tx_eq list_all_iff find_append split: option.split)
qed

theorem findTxInBlockChain_is_find_witness:
  "findTxInBlockChain demo_env (sl (Hash demo_env (tx_layout in_layout (demo_grant 7 5))))
     [Some (unmined demo_env [] [] 0 [demo_grant 7 5])] = Ret (Some (demo_grant 7 5))"
  using findTxInBlockChain_is_find[of "[unmined demo_env [] [] 0 [demo_grant 7 5]]" demo_env] by simp

text \<open>C32: An accepted transaction creates at most one unit of value, as long as neither sum reaches
  \<open>2 ^ 32\<close>: the outputs are worth at most the inputs plus one.\<close>

theorem accepted_value_bound:
  assumes "validateTransaction E db chain tx = Ret None"
    and "(\<Sum>t \<leftarrow> sl (tx_TxIns tx). unat (input_value db t)) + 1 < 2 ^ 32"
    and "(\<Sum>out \<leftarrow> tx_TxOuts tx. unat (to_Value out)) < 2 ^ 32"
  shows "(\<Sum>out \<leftarrow> tx_TxOuts tx. unat (to_Value out)) \<le> (\<Sum>t \<leftarrow> sl (tx_TxIns tx). unat (input_value db t)) + 1"
proof -
  let ?in = "sum_list (map (input_value db) (sl (tx_TxIns tx)))"
  have ins: "unat ?in = (\<Sum>t \<leftarrow> sl (tx_TxIns tx). unat (input_value db t))"
    using assms(2) by (intro unat_sum_list_bound) simp
  then have "unat (?in + 1) = unat ?in + 1" using assms(2) by (simp add: unat_word_ariths)
  moreover have "\<not> ?in + 1 < sum_list (map to_Value (tx_TxOuts tx))"
    using assms(1) by (simp add: validateTransaction_None tx_accepted_def)
  ultimately show ?thesis
    using ins unat_sum_list_bound[OF assms(3)] by (simp add: word_less_nat_alt not_less)
qed

theorem accepted_value_bound_witness:
  "validateTransaction demo_env demo_db [] (demo_signed (demo_post 7 demo_txid 6)) = Ret None \<and>
   (\<Sum>out \<leftarrow> tx_TxOuts (demo_signed (demo_post 7 demo_txid 6)). unat (to_Value out)) \<le> 6"
proof
  show "validateTransaction demo_env demo_db [] (demo_signed (demo_post 7 demo_txid 6)) = Ret None" by (rule demo_validate)
  show "(\<Sum>out \<leftarrow> tx_TxOuts (demo_signed (demo_post 7 demo_txid 6)). unat (to_Value out)) \<le> 6"
    using accepted_value_bound[OF demo_validate]
    by (simp add: demo_signed_def with_sigs_def demo_post_def input_value_def outpoint_of_def unspent_demo_db)
qed

text \<open>The bound is reached: the fee is added to the wrong side of the comparison, so that a transaction
  may pay out one unit more than it spends.  The transaction spends a coin of 5 and creates one of 6.\<close>

theorem fee_check_creates_value:
  "\<exists>E db tx. validateTransaction E db [] tx = Ret None \<and>
     (\<Sum>out \<leftarrow> tx_TxOuts tx. unat (to_Value out)) = Suc (\<Sum>t \<leftarrow> sl (tx_TxIns tx). unat (input_value db t))"
proof -
  have "(\<Sum>out \<leftarrow> tx_TxOuts (demo_signed (demo_post 7 demo_txid 6)). unat (to_Value out)) =
      Suc (\<Sum>t \<leftarrow> sl (tx_TxIns (demo_signed (demo_post 7 demo_txid 6))). unat (input_value demo_db t))"
    by (simp add: demo_signed_def with_sigs_def demo_post_def input_value_def outpoint_of_def unspent_demo_db)
  with demo_validate show ?thesis by blast
qed

text \<open>Validation does not look for repeated inputs: a transaction that names its coin twice is accepted
  with twice the value, and applying it to the database then panics.\<close>

theorem repeated_input_accepted_then_panics:
  "\<exists>E db tx. utxo_wf db \<and> validateTransaction E db [] tx = Ret None \<and>
     updateUtxoDb E tx db = Panic (Explicit ''invalid transaction detected'')"
proof -
  have "updateUtxoDb demo_env demo_twice demo_db = Panic (Explicit ''invalid transaction detected'')"
    by code_simp
  with demo_db_wf demo_twice_validate show ?thesis by blast
qed

text \<open>An accepted transaction without repeated inputs can be applied: \<^verbatim>\<open>updateUtxoDb\<close> does not panic.\<close>

theorem accepted_tx_applies:
  assumes "validateTransaction E db chain tx = Ret None" and "distinct (tx_inputs tx)"
  shows "\<exists>db'. updateUtxoDb E tx db = Ret db'"
proof -
  have "tx_accepted E db chain tx" using assms(1) by (simp add: validateTransaction_None)
  moreover from this have "Tx_Hash E tx = Ret (Hash E (tx_layout in_layout tx))"
    by (intro Tx_Hash_layout) (simp add: tx_accepted_def)
  ultimately show ?thesis using updateUtxoDb_succeeds[OF assms(2) tx_accepted_inputs] by blast
qed

theorem accepted_tx_applies_witness:
  "\<exists>db'. updateUtxoDb demo_env (demo_signed (demo_post 7 demo_txid 6)) demo_db = Ret db'"
  by (rule accepted_tx_applies[OF demo_validate]) (simp add: tx_inputs_def demo_signed_def with_sigs_def demo_post_def)

text \<open>A missing output index is not an error but a crash: when the first input names a transaction that
  is in the database and an output index that is not, \<^verbatim>\<open>validateTransaction\<close> dereferences nil.\<close>

theorem missing_output_index_panics:
  assumes "validateComponents tx = None" and "sl (tx_TxIns tx) = t # ts" and "tx_TxOuts tx \<noteq> []"
    and "go_get (ud_Entries db) (ti_PrevTxHash t) = Some e" and "go_get (ue_outputs e) (ti_PrevTxOutIndex t) = None"
  shows "validateTransaction E db chain tx = Panic NilDeref"
  using assms by (simp add: validateTransaction_def Tx_Id_def Tx_Hash_layout)

theorem missing_output_index_panics_witness:
  "validateTransaction demo_env demo_db []
     ((demo_post 7 demo_txid 5)\<lparr>tx_TxIns := Some [\<lparr>ti_PrevTxHash = demo_txid, ti_PrevTxOutIndex = 3, ti_Sig = [], ti_PubKey = [7]\<rparr>]\<rparr>) = Panic NilDeref"
  by (rule missing_output_index_panics[where ts = "[]"])
    (auto simp: demo_post_def demo_db_def go_get_def validateComponents_None demo_addr_def HASH_NUM_BYTES_def demo_scrypt_ok)

text \<open>C7: \<^verbatim>\<open>validateBlockTxs\<close> accepts a block if and only if each coinbase in it is worth 100 plus one for every
  other transaction of the block, and each other transaction is accepted on its own against the database
  before the block.\<close>

theorem validateBlockTxs_accepts_iff:
  "validateBlockTxs E db chain b = Ret None \<longleftrightarrow>
     list_all (\<lambda>tx. if tx_Type tx = COINBASE
        then tx_TxOuts tx \<noteq> [] \<and> to_Value (hd (tx_TxOuts tx)) = word_of_nat ((length (b_Transactions b) - 1) + 100)
        else tx_accepted E db chain tx) (b_Transactions b)"
  by (simp add: validateBlockTxs_def validate_txs_None list_all_iff TX_FEE_def TX_COINBASE_def)

end
