(* ===== verification/SideChain.thy ===== *)
theory SideChain
  imports Block
begin

text \<open>
  The \<^verbatim>\<open>SideChain\<close> nodes of \<^verbatim>\<open>src/node/miner.go\<close>.  They are mutable, linked in both directions and
  shared, so they live in an explicit heap: a list of cells, a pointer being an index, \<^verbatim>\<open>&SideChain{..}\<close>
  an append.  \<^verbatim>\<open>FindParent\<close> and \<^verbatim>\<open>Recompute\<close> recurse along \<^verbatim>\<open>Children\<close>; their first argument bounds
  the depth of the call stack.  The callers pass the number of cells: a deeper stack visits some cell
  twice on one path, and since neither function changes \<^verbatim>\<open>Children\<close> the recursion then never ends and
  Go stops it as a stack overflow.  On tree-shaped heaps the bound is never reached
  (\<open>tree_height_le\<close>).
\<close>

record SideChain =
  sc_Parent :: "nat option"
  sc_ParentIndex :: int
  sc_Block :: "Block option"
  sc_Depth :: int
  sc_Children :: "nat list"

type_synonym sc_heap = "SideChain list"

text \<open>
  The result of \<^verbatim>\<open>FindParent\<close>: nil, a cell, or the fresh \<^verbatim>\<open>&SideChain{ParentIndex: -2}\<close> that says the
  block is already known.
\<close>

datatype find = NotFound | Found nat | Known

fun FindParent :: "nat \<Rightarrow> sc_heap \<Rightarrow> bytes \<Rightarrow> bytes \<Rightarrow> nat \<Rightarrow> find go"
  and FindParent_children :: "nat \<Rightarrow> sc_heap \<Rightarrow> bytes \<Rightarrow> bytes \<Rightarrow> nat list \<Rightarrow> find go" where
  "FindParent 0 h prevHash curHash sc = Panic StackOverflow"
| "FindParent (Suc n) h prevHash curHash sc =
     bind_go (go_nth h sc) (\<lambda>cell.
     bind_go (deref (sc_Block cell)) (\<lambda>block.
       if b_BlockHash block = curHash then Ret Known
       else if b_BlockHash block = prevHash then Ret (Found sc)
       else FindParent_children n h prevHash curHash (sc_Children cell)))"
| "FindParent_children n h prevHash curHash [] = Ret NotFound"
| "FindParent_children n h prevHash curHash (subSC # rest) =
     bind_go (FindParent n h prevHash curHash subSC) (\<lambda>result.
       if result \<noteq> NotFound then Ret result else FindParent_children n h prevHash curHash rest)"

fun Recompute :: "nat \<Rightarrow> int \<Rightarrow> int \<Rightarrow> nat \<Rightarrow> sc_heap \<Rightarrow> sc_heap go"
  and Recompute_children :: "nat \<Rightarrow> int \<Rightarrow> int \<Rightarrow> nat list \<Rightarrow> sc_heap \<Rightarrow> sc_heap go" where
  "Recompute 0 depth parentIndex sc h = Panic StackOverflow"
| "Recompute (Suc n) depth parentIndex sc h =
     bind_go (go_nth h sc) (\<lambda>cell.
       Recompute_children n (depth + 1) parentIndex (sc_Children cell)
         (h[sc := cell\<lparr>sc_Depth := depth + 1, sc_ParentIndex := parentIndex\<rparr>]))"
| "Recompute_children n depth parentIndex [] h = Ret h"
| "Recompute_children n depth parentIndex (subSC # rest) h =
     bind_go (Recompute n depth parentIndex subSC h) (Recompute_children n depth parentIndex rest)"

subsection \<open>Tree-shaped heaps\<close>

datatype sctree = SC (root: nat) (subtrees: "sctree list")

fun preorder :: "sctree \<Rightarrow> nat list" where
  "preorder (SC a ts) = a # concat (map preorder ts)"

fun height :: "sctree \<Rightarrow> nat" where
  "height (SC a ts) = Suc (Max (set (0 # map height ts)))"

text \<open>The cells below \<open>root t\<close> form the tree \<open>t\<close>, and every cell of it holds a block.\<close>

fun heap_tree :: "sc_heap \<Rightarrow> sctree \<Rightarrow> bool" where
  "heap_tree h (SC a ts) \<longleftrightarrow>
     a < length h \<and> sc_Block (h ! a) \<noteq> None \<and> sc_Children (h ! a) = map root ts \<and> list_all (heap_tree h) ts"

definition cell_hash :: "sc_heap \<Rightarrow> nat \<Rightarrow> bytes" where
  "cell_hash h a = (case sc_Block (h ! a) of None \<Rightarrow> [] | Some block \<Rightarrow> b_BlockHash block)"

text \<open>The search over the nodes in preorder.\<close>

fun first_hit :: "(nat \<Rightarrow> bytes) \<Rightarrow> bytes \<Rightarrow> bytes \<Rightarrow> nat list \<Rightarrow> find" where
  "first_hit hash prevHash curHash [] = NotFound"
| "first_hit hash prevHash curHash (a # as) =
     (if hash a = curHash then Known else if hash a = prevHash then Found a
      else first_hit hash prevHash curHash as)"

lemma height_subtree: "t \<in> set ts \<Longrightarrow> height t < height (SC a ts)"
  by (auto simp: less_Suc_eq_le intro: Max_ge)

lemma first_hit_append:
  "first_hit hash p c (as @ bs) =
     (if first_hit hash p c as \<noteq> NotFound then first_hit hash p c as else first_hit hash p c bs)"
  by (induction as) auto

lemma first_hit_cases:
  "first_hit hash p c as = Found a \<Longrightarrow> a \<in> set as \<and> hash a = p \<and> p \<noteq> c"
  "first_hit hash p c as = Known \<Longrightarrow> \<exists>a \<in> set as. hash a = c"
  "first_hit hash p c as = NotFound \<longleftrightarrow> (\<forall>a \<in> set as. hash a \<noteq> c \<and> hash a \<noteq> p)"
  by (induction as) (auto split: if_splits)

lemma FindParent_children_tree:
  assumes "\<And>t. t \<in> set ts \<Longrightarrow> FindParent n h p c (root t) = Ret (first_hit (cell_hash h) p c (preorder t))"
  shows "FindParent_children n h p c (map root ts) =
    Ret (first_hit (cell_hash h) p c (concat (map preorder ts)))"
  using assms by (induction ts) (auto simp: first_hit_append)

lemma FindParent_tree:
  assumes "heap_tree h t" and "height t \<le> n"
  shows "FindParent n h p c (root t) = Ret (first_hit (cell_hash h) p c (preorder t))"
  using assms
proof (induction t arbitrary: n)
  case (SC a ts)
  then obtain m where n: "n = Suc m" by (cases n) auto
  have "FindParent m h p c (root t) = Ret (first_hit (cell_hash h) p c (preorder t))" if "t \<in> set ts" for t
    using SC.IH[OF that] SC.prems height_subtree[OF that, of a] n that by (simp add: list_all_iff)
  then have "FindParent_children m h p c (map root ts) = Ret (first_hit (cell_hash h) p c (concat (map preorder ts)))"
    by (rule FindParent_children_tree)
  with SC.prems n show ?case by (auto simp: go_nth_def cell_hash_def[of h a])
qed

subsection \<open>The stack bound\<close>

lemma height_le_size: "height t \<le> length (preorder t)"
proof (induction t)
  case (SC a ts)
  have "height t \<le> length (concat (map preorder ts))" if "t \<in> set ts" for t
  proof -
    have "length (preorder t) \<le> sum_list (map length (map preorder ts))"
      using that by (intro member_le_sum_list) auto
    with SC[OF that] show ?thesis by (simp add: length_concat)
  qed
  then show ?case by simp
qed

lemma heap_tree_cells: "heap_tree h t \<Longrightarrow> set (preorder t) \<subseteq> {..<length h}"
  by (induction t) (auto simp: list_all_iff)

lemma tree_height_le:
  assumes "heap_tree h t" and "distinct (preorder t)"
  shows "height t \<le> length h"
proof -
  have "length (preorder t) = card (set (preorder t))" using assms(2) by (simp add: distinct_card)
  also have "\<dots> \<le> card {..<length h}" using heap_tree_cells[OF assms(1)] by (intro card_mono) auto
  finally show ?thesis using height_le_size[of t] by simp
qed

subsection \<open>Recomputed depths\<close>

text \<open>The nodes of a tree in preorder, each with its depth when the root has depth \<open>d\<close>.\<close>

fun depths :: "int \<Rightarrow> sctree \<Rightarrow> (nat \<times> int) list" where
  "depths d (SC a ts) = (a, d) # concat (map (depths (d + 1)) ts)"

definition set_cells :: "int \<Rightarrow> (nat \<times> int) list \<Rightarrow> sc_heap \<Rightarrow> sc_heap" where
  "set_cells parentIndex ads h =
     fold (\<lambda>(a, d) h. h[a := (h ! a)\<lparr>sc_Depth := d, sc_ParentIndex := parentIndex\<rparr>]) ads h"

lemma set_cells_simps [simp]:
  "set_cells pi [] h = h"
  "set_cells pi ((a, d) # ads) h = set_cells pi ads (h[a := (h ! a)\<lparr>sc_Depth := d, sc_ParentIndex := pi\<rparr>])"
  "set_cells pi (xs @ ys) h = set_cells pi ys (set_cells pi xs h)"
  by (simp_all add: set_cells_def)

text \<open>Two heaps with the same blocks and children have the same trees.\<close>

definition same_links :: "sc_heap \<Rightarrow> sc_heap \<Rightarrow> bool" where
  "same_links h h' \<longleftrightarrow> length h = length h' \<and>
     (\<forall>a < length h. sc_Block (h ! a) = sc_Block (h' ! a) \<and> sc_Children (h ! a) = sc_Children (h' ! a))"

lemma same_links_trans: "same_links h h' \<Longrightarrow> same_links h' h'' \<Longrightarrow> same_links h h''"
  by (auto simp: same_links_def)

lemma heap_tree_links: "same_links h h' \<Longrightarrow> heap_tree h t \<Longrightarrow> heap_tree h' t"
  by (induction t) (auto simp: same_links_def list_all_iff)

lemma same_links_upd:
  "same_links h (h[a := (h ! a)\<lparr>sc_Depth := d, sc_ParentIndex := pi\<rparr>])"
  by (cases "a < length h") (auto simp: same_links_def nth_list_update list_update_beyond)

lemma same_links_set_cells: "same_links h (set_cells pi ads h)"
proof (induction ads arbitrary: h)
  case Nil
  then show ?case by (simp add: same_links_def)
next
  case (Cons ad ads)
  then show ?case using same_links_upd same_links_trans by (cases ad) fastforce
qed

lemma Recompute_children_tree:
  assumes "\<And>t h. t \<in> set ts \<Longrightarrow> heap_tree h t \<Longrightarrow>
      Recompute n d pi (root t) h = Ret (set_cells pi (depths (d + 1) t) h)"
    and "list_all (heap_tree h) ts"
  shows "Recompute_children n d pi (map root ts) h = Ret (set_cells pi (concat (map (depths (d + 1)) ts)) h)"
  using assms
proof (induction ts arbitrary: h)
  case Nil
  then show ?case by simp
next
  case (Cons t ts)
  let ?h = "set_cells pi (depths (d + 1) t) h"
  have "list_all (heap_tree ?h) ts"
    using Cons.prems(2) heap_tree_links[OF same_links_set_cells] by (auto simp: list_all_iff)
  then have "Recompute_children n d pi (map root ts) ?h = Ret (set_cells pi (concat (map (depths (d + 1)) ts)) ?h)"
    using Cons.prems(1) by (intro Cons.IH) simp_all
  with Cons.prems show ?case by simp
qed

lemma Recompute_tree:
  assumes "heap_tree h t" and "height t \<le> n"
  shows "Recompute n d pi (root t) h = Ret (set_cells pi (depths (d + 1) t) h)"
  using assms
proof (induction t arbitrary: n d h)
  case (SC a ts)
  then obtain m where n: "n = Suc m" by (cases n) auto
  let ?h = "h[a := (h ! a)\<lparr>sc_Depth := d + 1, sc_ParentIndex := pi\<rparr>]"
  have "list_all (heap_tree ?h) ts"
    using SC.prems(1) heap_tree_links[OF same_links_upd] by (auto simp: list_all_iff)
  moreover have "Recompute m (d + 1) pi (root t) h' = Ret (set_cells pi (depths (d + 1 + 1) t) h')"
    if "t \<in> set ts" "heap_tree h' t" for t h'
  proof (rule SC.IH[OF that])
    show "height t \<le> m" using SC.prems(2) that(1) n by simp
  qed
  ultimately have "Recompute_children m (d + 1) pi (map root ts) ?h =
      Ret (set_cells pi (concat (map (depths (d + 1 + 1)) ts)) ?h)"
    by (intro Recompute_children_tree)
  with SC.prems n show ?case by (simp add: go_nth_def)
qed

lemma set_cells_outside: "a \<notin> fst ` set ads \<Longrightarrow> set_cells pi ads h ! a = h ! a"
  by (induction ads arbitrary: h) auto

lemma length_set_cells [simp]: "length (set_cells pi ads h) = length h"
  using same_links_set_cells[of h pi ads] by (simp add: same_links_def)

lemma set_cells_inside:
  assumes "distinct (map fst ads)" and "(a, d) \<in> set ads" and "a < length h"
  shows "set_cells pi ads h ! a = (h ! a)\<lparr>sc_Depth := d, sc_ParentIndex := pi\<rparr>"
  using assms
proof (induction ads arbitrary: h)
  case Nil
  then show ?case by simp
next
  case (Cons ad ads)
  obtain b e where ad: "ad = (b, e)" by (cases ad)
  show ?case
  proof (cases "a = b")
    case True
    then have "e = d" "a \<notin> fst ` set ads" using Cons.prems ad by (force, auto)
    with True ad Cons.prems(3) show ?thesis by (simp add: set_cells_outside)
  next
    case False
    with Cons ad show ?thesis by simp
  qed
qed

lemma map_fst_depths: "map fst (depths d t) = preorder t"
  by (induction t arbitrary: d) (simp add: map_concat comp_def cong: map_cong)

subsection \<open>A concrete heap for evaluation\<close>

text \<open>A root (cell 0) with two children (cells 1 and 2), each holding a block whose hash is its address.\<close>

definition demo_cell :: "nat \<Rightarrow> nat list \<Rightarrow> SideChain" where
  "demo_cell a cs = \<lparr>sc_Parent = None, sc_ParentIndex = 0,
     sc_Block = Some (\<lparr>b_PrevBlock = [], b_MerkleRoot = [], b_Timestamp = 0, b_Nonce = 0, b_Bits = 0,
       b_BlockHash = [word_of_nat a], b_Transactions = []\<rparr>), sc_Depth = 0, sc_Children = cs\<rparr>"

definition demo_heap :: sc_heap where
  "demo_heap = [demo_cell 0 [1, 2], demo_cell 1 [], demo_cell 2 []]"

definition demo_tree :: sctree where
  "demo_tree = SC 0 [SC 1 [], SC 2 []]"

lemma demo_heap_tree: "heap_tree demo_heap demo_tree" "distinct (preorder demo_tree)"
  by (simp_all add: demo_heap_def demo_tree_def demo_cell_def numeral_2_eq_2)

subsection \<open>Properties\<close>

text \<open>C38: \<^verbatim>\<open>FindParent\<close> on a tree of side-chain cells returns, without overflowing the stack, what a preorder
  scan of the tree finds first: that the block is known already, or the cell of its parent, or nothing.\<close>

theorem FindParent_is_preorder_search:
  assumes "heap_tree h t" and "distinct (preorder t)"
  shows "FindParent (length h) h prevHash curHash (root t) = Ret (first_hit (cell_hash h) prevHash curHash (preorder t))"
  by (rule FindParent_tree[OF assms(1) tree_height_le[OF assms]])

theorem FindParent_is_preorder_search_witness: "FindParent (length demo_heap) demo_heap [2] [9] 0 = Ret (Found 2)"
proof -
  have "first_hit (cell_hash demo_heap) [2] [9] (preorder demo_tree) = Found 2" and "root demo_tree = 0" by code_simp+
  with FindParent_is_preorder_search[OF demo_heap_tree, of "[2]" "[9]"] show ?thesis by (simp only:)
qed

text \<open>\<^verbatim>\<open>Recompute\<close> on a tree sets the depth of every cell of the tree to its distance from the root plus
  \<^verbatim>\<open>depth + 1\<close> and its parent index to the given one, and changes no other cell and no other field.\<close>

theorem Recompute_sets_depths:
  assumes "heap_tree h t" and "distinct (preorder t)"
  shows "\<exists>h'. Recompute (length h) d pi (root t) h = Ret h' \<and> length h' = length h \<and>
    (\<forall>(a, e) \<in> set (depths (d + 1) t). h' ! a = (h ! a)\<lparr>sc_Depth := e, sc_ParentIndex := pi\<rparr>) \<and>
    (\<forall>a. a \<notin> set (preorder t) \<longrightarrow> h' ! a = h ! a)"
proof (intro exI conjI)
  show "Recompute (length h) d pi (root t) h = Ret (set_cells pi (depths (d + 1) t) h)"
    by (rule Recompute_tree[OF assms(1) tree_height_le[OF assms]])
  have keys: "fst ` set (depths (d + 1) t) = set (preorder t)" by (metis map_fst_depths set_map)
  show "\<forall>(a, e) \<in> set (depths (d + 1) t). set_cells pi (depths (d + 1) t) h ! a = (h ! a)\<lparr>sc_Depth := e, sc_ParentIndex := pi\<rparr>"
  proof (clarify, rule set_cells_inside)
    fix a e assume "(a, e) \<in> set (depths (d + 1) t)"
    with keys heap_tree_cells[OF assms(1)] show "a < length h" by force
  qed (simp_all add: map_fst_depths assms(2))
  show "\<forall>a. a \<notin> set (preorder t) \<longrightarrow> set_cells pi (depths (d + 1) t) h ! a = h ! a"
    using keys by (simp add: set_cells_outside)
qed simp

theorem Recompute_sets_depths_witness:
  "\<exists>h'. Recompute (length demo_heap) 4 3 0 demo_heap = Ret h' \<and> sc_Depth (h' ! 0) = 5 \<and> sc_Depth (h' ! 2) = 6"
  using Recompute_sets_depths[OF demo_heap_tree, of 4 3] by (auto simp: demo_tree_def)

end
