(* ===== verification/Node.thy ===== *)
theory Node
  imports Validation SideChain
begin

text \<open>
  The node of \<^verbatim>\<open>src/node/miner.go\<close>: its state \<^verbatim>\<open>DRNode\<close> and its handlers.  Field names carry the
  prefix \<open>nd_\<close>.  A handler takes the state and returns the new one; the lock \<^verbatim>\<open>mu\<close> is held for the whole
  of \<^verbatim>\<open>SendBlock\<close>, of one turn of \<^verbatim>\<open>mine\<close>, of the first part of \<^verbatim>\<open>AppendTx\<close> and of each of its polls, and
  \<^verbatim>\<open>peermu\<close> for the peer list, so each of these is one atomic step.  \<^verbatim>\<open>SideChain\<close> cells are in the heap
  \<open>nd_heap\<close>.  An \<^verbatim>\<open>*rpc.Client\<close> is represented by the port it was dialled at.

  What comes from the environment is an argument: the clock, the order in which \<^verbatim>\<open>range\<close> visits
  \<^verbatim>\<open>PendingTxs\<close>, which ports can be dialled, and what a peer answers.
\<close>

datatype tx_status = PENDING | INVALID | SUCCESS | HANDLED

record TxNode =
  tn_Tx :: Transaction
  tn_ClerkId :: int
  tn_Status :: tx_status
  tn_Hash :: bytes

record GossipReply =
  gr_Port :: string
  gr_Peers :: "string list"

record DRNode =
  nd_me :: int
  nd_pubHash :: string
  nd_numPending :: int
  nd_PendingTxs :: "(bytes, TxNode) gomap"
  nd_SeenTxs :: "(bytes, bool) gomap"
  nd_Blockchain :: "Block option list"
  nd_SideChains :: "nat list"
  nd_OrphanChains :: "nat list"
  nd_heap :: sc_heap
  nd_Log :: "Block list"
  nd_Utxo :: UtxoDb
  nd_port :: string
  nd_ports :: "string list"
  nd_servers :: "string list"
  nd_gossip :: "GossipReply list option"
  nd_quit :: bool

subsection \<open>Receiving a block: the main chain\<close>

definition set_status :: "bytes \<Rightarrow> tx_status \<Rightarrow> (bytes, TxNode) gomap \<Rightarrow> (bytes, TxNode) gomap" where
  "set_status s status pending =
     (case go_get pending s of None \<Rightarrow> pending | Some tn \<Rightarrow> go_put s (tn\<lparr>tn_Status := status\<rparr>) pending)"

text \<open>The body of the loop over the transactions of an accepted block.\<close>

definition accept_tx :: "env \<Rightarrow> Transaction \<Rightarrow> DRNode \<Rightarrow> DRNode go" where
  "accept_tx E tx node =
     bind_go (if tx_Type tx \<noteq> COINBASE
              then bind_go (Tx_Hash E tx) (\<lambda>h. Ret (node\<lparr>nd_PendingTxs := set_status (sl h) SUCCESS (nd_PendingTxs node)\<rparr>))
              else Ret node) (\<lambda>node.
     bind_go (updateUtxoDb E tx (nd_Utxo node)) (\<lambda>db. Ret (node\<lparr>nd_Utxo := db\<rparr>)))"

definition accept_block :: "env \<Rightarrow> Block \<Rightarrow> DRNode \<Rightarrow> DRNode go" where
  "accept_block E newBlock node =
     bind_go (fold_go (accept_tx E) (b_Transactions newBlock)
                (node\<lparr>nd_Blockchain := nd_Blockchain node @ [Some newBlock]\<rparr>)) (\<lambda>node.
     Ret (node\<lparr>nd_numPending := nd_numPending node - (int (length (b_Transactions newBlock)) - 1)\<rparr>))"

subsection \<open>Receiving a block: side chains and orphans\<close>

text \<open>A loop of \<^verbatim>\<open>SendBlock\<close> either returns from the handler or goes on; both keep what it has written.\<close>

datatype 'a flow = Exit 'a | Next 'a

text \<open>The heap, \<^verbatim>\<open>curSideChain\<close> and \<^verbatim>\<open>status\<close>.\<close>

type_synonym scan = "sc_heap \<times> nat option \<times> int"

fun scan_main :: "Block \<Rightarrow> nat \<Rightarrow> Block option list \<Rightarrow> scan \<Rightarrow> scan flow go" where
  "scan_main newBlock index [] st = Ret (Next st)"
| "scan_main newBlock index (p # chain) (h, cur, status) =
     bind_go (deref p) (\<lambda>block.
       if b_BlockHash newBlock = b_BlockHash block then Ret (Exit (h, cur, status))
       else if b_PrevBlock newBlock = b_BlockHash block then
         scan_main newBlock (index + 1) chain
           (h @ [\<lparr>sc_Parent = None, sc_ParentIndex = int index, sc_Block = Some newBlock, sc_Depth = 0, sc_Children = []\<rparr>],
            Some (length h), 1)
       else scan_main newBlock (index + 1) chain (h, cur, status))"

fun scan_side :: "Block \<Rightarrow> nat list \<Rightarrow> scan \<Rightarrow> scan flow go" where
  "scan_side newBlock [] st = Ret (Next st)"
| "scan_side newBlock (sc # rest) (h, cur, status) =
     bind_go (FindParent (length h) h (b_PrevBlock newBlock) (b_BlockHash newBlock) sc) (\<lambda>result.
       case result of
         NotFound \<Rightarrow> scan_side newBlock rest (h, cur, status)
       | Known \<Rightarrow> Ret (Exit (h, cur, status))
       | Found a \<Rightarrow>
           bind_go (go_nth h a) (\<lambda>cell.
             if sc_ParentIndex cell = -2 then Ret (Exit (h, cur, status))
             else scan_side newBlock rest
               ((h @ [\<lparr>sc_Parent = Some a, sc_ParentIndex = sc_ParentIndex cell, sc_Block = Some newBlock,
                       sc_Depth = sc_Depth cell + 1, sc_Children = []\<rparr>])
                  [a := cell\<lparr>sc_Children := sc_Children cell @ [length h]\<rparr>],
                Some (length h), 2)))"

text \<open>\<^verbatim>\<open>xs[j] = xs[len(xs)-1]; xs = xs[0 : len(xs)-1]\<close>.\<close>

definition swap_delete :: "nat \<Rightarrow> 'a list \<Rightarrow> 'a list" where
  "swap_delete j xs = butlast (xs[j := last xs])"

text \<open>
  Attaching orphan chains.  The loop counter runs over the original length while the list shrinks;
  \<^verbatim>\<open>deleted\<close> is declared as 0 and never changed, so \<^verbatim>\<open>j\<close> is \<^verbatim>\<open>i\<close>.
\<close>

fun attach_orphans :: "bytes \<Rightarrow> nat \<Rightarrow> nat list \<Rightarrow> nat list \<times> sc_heap \<Rightarrow> (nat list \<times> sc_heap) go" where
  "attach_orphans curHash cur [] st = Ret st"
| "attach_orphans curHash cur (j # js) (orphans, h) =
     bind_go (go_nth orphans j) (\<lambda>oc.
     bind_go (go_nth h oc) (\<lambda>oc_cell.
     bind_go (deref (sc_Block oc_cell)) (\<lambda>block.
       if curHash = b_PrevBlock block then
         bind_go (go_nth h cur) (\<lambda>cur_cell.
         let h = h[cur := cur_cell\<lparr>sc_Children := sc_Children cur_cell @ [oc]\<rparr>];
             h = h[oc := (h ! oc)\<lparr>sc_Parent := Some cur\<rparr>]
         in bind_go (Recompute (length h) (sc_Depth cur_cell) (sc_ParentIndex cur_cell) oc h) (\<lambda>h.
            attach_orphans curHash cur js (swap_delete j orphans, h)))
       else attach_orphans curHash cur js (orphans, h))))"

subsection \<open>Receiving a block: switching to a longer chain\<close>

text \<open>Cells for the blocks that leave the main chain.\<close>

fun side_nodes :: "int \<Rightarrow> nat \<Rightarrow> Block option list \<Rightarrow> nat option \<Rightarrow> sc_heap \<Rightarrow> nat list \<times> sc_heap" where
  "side_nodes breakPoint i [] prev h = ([], h)"
| "side_nodes breakPoint i (block # rest) prev h =
     (let new = length h;
          h = h @ [\<lparr>sc_Parent = prev, sc_ParentIndex = breakPoint, sc_Block = block, sc_Depth = int i, sc_Children = []\<rparr>];
          h = (case prev of None \<Rightarrow> h | Some q \<Rightarrow> h[q := (h ! q)\<lparr>sc_Children := sc_Children (h ! q) @ [new]\<rparr>]);
          (nodes, h) = side_nodes breakPoint (i + 1) rest (Some new) h
      in (new # nodes, h))"

fun adjust_side :: "int \<Rightarrow> nat list \<Rightarrow> nat list \<Rightarrow> nat list \<times> sc_heap \<Rightarrow> (nat list \<times> sc_heap) go" where
  "adjust_side breakPoint newSideNodes [] st = Ret st"
| "adjust_side breakPoint newSideNodes (j # js) (sides, h) =
     bind_go (go_nth sides j) (\<lambda>sc.
     bind_go (go_nth h sc) (\<lambda>cell.
       if sc_ParentIndex cell > breakPoint then
         bind_go (go_nth newSideNodes (nat (sc_ParentIndex cell - breakPoint - 1))) (\<lambda>newParent.
         bind_go (go_nth h newParent) (\<lambda>parent_cell.
         let h = h[sc := cell\<lparr>sc_Parent := Some newParent\<rparr>]
         in bind_go (Recompute (length h) (sc_Depth parent_cell) breakPoint sc h) (\<lambda>h.
            adjust_side breakPoint newSideNodes js (swap_delete j sides, h))))
       else adjust_side breakPoint newSideNodes js (sides, h)))"

fun detach_siblings :: "Block \<Rightarrow> int \<Rightarrow> nat list \<Rightarrow> nat list \<times> sc_heap \<Rightarrow> (nat list \<times> sc_heap) go" where
  "detach_siblings cur_block parentIndex [] st = Ret st"
| "detach_siblings cur_block parentIndex (sc # rest) (sides, h) =
     bind_go (go_nth h sc) (\<lambda>cell.
     bind_go (deref (sc_Block cell)) (\<lambda>block.
       if b_BlockHash cur_block = b_BlockHash block then detach_siblings cur_block parentIndex rest (sides, h)
       else let h = h[sc := cell\<lparr>sc_Parent := None\<rparr>]
            in bind_go (Recompute (length h) 0 parentIndex sc h) (\<lambda>h.
               detach_siblings cur_block parentIndex rest (sides @ [sc], h))))"

text \<open>
  \<^verbatim>\<open>for curSideChain.Parent != nil\<close>; the first argument is the number of cells, which an acyclic walk
  to the root cannot exceed.
\<close>

fun heal_loop :: "nat \<Rightarrow> int \<Rightarrow> nat \<Rightarrow> Block option list \<times> nat list \<times> sc_heap \<Rightarrow>
    (Block option list \<times> nat list \<times> sc_heap) go" where
  "heal_loop 0 breakPoint cur st = Panic Unbounded"
| "heal_loop (Suc n) breakPoint cur (newMainChain, sides, h) =
     bind_go (go_nth h cur) (\<lambda>cell.
       case sc_Parent cell of
         None \<Rightarrow> Ret (newMainChain, sides, h)
       | Some parent \<Rightarrow>
           bind_go (if 0 \<le> sc_Depth cell then go_upd newMainChain (nat (sc_Depth cell)) (sc_Block cell)
                    else Panic IndexOutOfRange) (\<lambda>newMainChain.
           bind_go (go_nth h parent) (\<lambda>parent_cell.
           bind_go (if sc_Children parent_cell = [] then Ret (sides, h)
                    else bind_go (deref (sc_Block cell)) (\<lambda>cur_block.
                      detach_siblings cur_block (breakPoint + sc_Depth cell + 1) (sc_Children parent_cell) (sides, h))) (\<lambda>(sides, h).
           heal_loop n breakPoint parent (newMainChain, sides, h)))))"

definition switch_chain :: "nat \<Rightarrow> DRNode \<Rightarrow> DRNode go" where
  "switch_chain cur node =
     bind_go (go_nth (nd_heap node) cur) (\<lambda>cell.
     let breakPoint = sc_ParentIndex cell
     in if breakPoint + 1 < 0 \<or> int (length (nd_Blockchain node)) < breakPoint + 1 then Panic SliceBounds
        else
          let (newSideNodes, h) = side_nodes breakPoint 0 (drop (nat (breakPoint + 1)) (nd_Blockchain node)) None (nd_heap node)
          in bind_go (adjust_side breakPoint newSideNodes [0..<length (nd_SideChains node)] (nd_SideChains node, h)) (\<lambda>(sides, h).
             bind_go (go_nth h cur) (\<lambda>cell.
             if sc_Depth cell + 1 < 0 then Panic MakeSliceLen
             else bind_go (heal_loop (length h) breakPoint cur (replicate (nat (sc_Depth cell + 1)) None, sides, h)) (\<lambda>(newMainChain, sides, h).
               Ret (node\<lparr>nd_Blockchain := nd_Blockchain node @ newMainChain, nd_SideChains := sides, nd_heap := h\<rparr>)))))"

text \<open>The part of \<^verbatim>\<open>SendBlock\<close> after the scans: orphans, then the longest-chain rule.\<close>

definition settle_block :: "Block \<Rightarrow> nat \<Rightarrow> DRNode \<Rightarrow> DRNode go" where
  "settle_block newBlock cur node =
     bind_go (attach_orphans (b_BlockHash newBlock) cur [0..<length (nd_OrphanChains node)]
                (nd_OrphanChains node, nd_heap node)) (\<lambda>(orphans, h).
     let node = node\<lparr>nd_OrphanChains := orphans, nd_heap := h\<rparr>
     in bind_go (go_nth h cur) (\<lambda>cell.
        if sc_ParentIndex cell = -1 then Ret node
        else if sc_Depth cell + sc_ParentIndex cell + 2 > int (length (nd_Blockchain node)) then switch_chain cur node
        else Ret node))"

definition place_block :: "Block \<Rightarrow> DRNode \<Rightarrow> DRNode go" where
  "place_block newBlock node =
     bind_go (scan_main newBlock 0 (nd_Blockchain node) (nd_heap node, None, 0)) (\<lambda>r1.
     case r1 of Exit (h, _) \<Rightarrow> Ret (node\<lparr>nd_heap := h\<rparr>) | Next st1 \<Rightarrow>
     bind_go (scan_side newBlock (nd_SideChains node) st1) (\<lambda>r2.
     case r2 of Exit (h, _) \<Rightarrow> Ret (node\<lparr>nd_heap := h\<rparr>) | Next st2 \<Rightarrow>
     bind_go (scan_side newBlock (nd_OrphanChains node) st2) (\<lambda>r3.
     case r3 of Exit (h, _) \<Rightarrow> Ret (node\<lparr>nd_heap := h\<rparr>) | Next (h, cur, status) \<Rightarrow>
       (let (h, cur) =
          (if status = 0
           then (h @ [\<lparr>sc_Parent = None, sc_ParentIndex = -1, sc_Block = Some newBlock, sc_Depth = 0, sc_Children = []\<rparr>],
                 Some (length h))
           else (h, cur))
        in bind_go (deref cur) (\<lambda>cur. settle_block newBlock cur (node\<lparr>nd_heap := h\<rparr>))))))"

text \<open>\<^verbatim>\<open>node.Blockchain[len(node.Blockchain)-1]\<close>, dereferenced.\<close>

definition last_block :: "Block option list \<Rightarrow> Block go" where
  "last_block chain = bind_go (go_nth chain (length chain - 1)) deref"

definition extends_main :: "Block \<Rightarrow> Block option list \<Rightarrow> bool go" where
  "extends_main newBlock chain =
     (if length chain = 0 then Ret True
      else bind_go (last_block chain) (\<lambda>block. Ret (b_PrevBlock newBlock = b_BlockHash block)))"

definition SendBlock :: "env \<Rightarrow> Block \<Rightarrow> DRNode \<Rightarrow> (DRNode \<times> string option) go" where
  "SendBlock E newBlock node =
     (let node = node\<lparr>nd_Log := nd_Log node @ [newBlock]\<rparr>
      in bind_go (ValidateBlock E newBlock) (\<lambda>v.
         if v \<noteq> None then Ret (node, v)
         else bind_go (extends_main newBlock (nd_Blockchain node)) (\<lambda>extends.
           if extends then
             bind_go (validateBlockTxs E (nd_Utxo node) (nd_Blockchain node) newBlock) (\<lambda>v.
               if v \<noteq> None then Ret (node, v)
               else bind_go (accept_block E newBlock node) (\<lambda>node. Ret (node, None)))
           else bind_go (place_block newBlock node) (\<lambda>node. Ret (node, None)))))"

end
