(* ===== verification/Miner.thy ===== *)
theory Miner
  imports Node
begin

text \<open>
  The rest of \<^verbatim>\<open>src/node/miner.go\<close> and the RPC of \<^verbatim>\<open>src/node/utxodb.go\<close>: start-up and log replay,
  \<^verbatim>\<open>AppendTx\<close>, the mining loop, the peer list and the read-only handlers.

  \<^verbatim>\<open>AppendTx\<close> registers a transaction and then polls its status: \<open>AppendTx\<close> is the first part, whose
  result says whether the handler replied or goes on to poll (and which peers it forwarded the
  transaction to), \<open>AppendTx_poll\<close> one poll.  \<open>mine\<close> is one turn of the mining loop; its result carries
  the \<^verbatim>\<open>SendBlock\<close> messages it sent, and \<open>None\<close> stands for a proof of work that never ends.
\<close>

subsection \<open>Start-up\<close>

definition empty_utxo :: UtxoDb where
  "empty_utxo = \<lparr>ud_Entries = []\<rparr>"

definition new_node :: "int \<Rightarrow> string \<Rightarrow> string \<Rightarrow> DRNode" where
  "new_node me port pubHash =
     \<lparr>nd_me = me, nd_pubHash = pubHash, nd_numPending = 0, nd_PendingTxs = [], nd_SeenTxs = [],
      nd_Blockchain = [], nd_SideChains = [], nd_OrphanChains = [], nd_heap = [], nd_Log = [],
      nd_Utxo = empty_utxo, nd_port = port, nd_ports = [], nd_servers = [], nd_gossip = None, nd_quit = False\<rparr>"

text \<open>Applying the transactions of a list of blocks to a database, in order.\<close>

definition apply_txs :: "env \<Rightarrow> Transaction list \<Rightarrow> UtxoDb \<Rightarrow> UtxoDb go" where
  "apply_txs E txs db = fold_go (updateUtxoDb E) txs db"

definition apply_chain :: "env \<Rightarrow> Block option list \<Rightarrow> UtxoDb \<Rightarrow> UtxoDb go" where
  "apply_chain E chain db = fold_go (\<lambda>p db. bind_go (deref p) (\<lambda>block. apply_txs E (b_Transactions block) db)) chain db"

definition bootstrap :: "env \<Rightarrow> DRNode \<Rightarrow> DRNode go option" where
  "bootstrap E node =
     map_option (\<lambda>r. bind_go r (\<lambda>genesisBlock.
       bind_go (apply_chain E [Some genesisBlock] empty_utxo) (\<lambda>db.
       Ret (node\<lparr>nd_Blockchain := [Some genesisBlock], nd_Log := [genesisBlock], nd_Utxo := db\<rparr>))))
       (GenerateGenesisBlock E)"

definition replayLog :: "env \<Rightarrow> DRNode \<Rightarrow> DRNode go" where
  "replayLog E node = fold_go (\<lambda>newBlock node. bind_go (SendBlock E newBlock node) (\<lambda>(node, err). Ret node)) (nd_Log node) node"

text \<open>The loop over the known servers; \<open>ask\<close> gives a peer's answer to \<^verbatim>\<open>GetBlockLog\<close>, \<open>None\<close> for an error.\<close>

fun connect_servers :: "env \<Rightarrow> (string \<Rightarrow> bool) \<Rightarrow> (string \<Rightarrow> Block list option) \<Rightarrow> string list \<Rightarrow> DRNode \<Rightarrow> DRNode go" where
  "connect_servers E dial ask [] node = Ret node"
| "connect_servers E dial ask (serverPort # rest) node =
     (if dial serverPort then
        let node = node\<lparr>nd_servers := nd_servers node @ [serverPort], nd_ports := nd_ports node @ [serverPort]\<rparr>
        in bind_go (if length (nd_Blockchain node) = 1
                    then (case ask serverPort of
                        None \<Rightarrow> Ret node
                      | Some log \<Rightarrow> replayLog E (node\<lparr>nd_Log := log\<rparr>))
                    else Ret node)
             (connect_servers E dial ask rest)
      else connect_servers E dial ask rest node)"

definition StartDRNode :: "env \<Rightarrow> (string \<Rightarrow> bool) \<Rightarrow> (string \<Rightarrow> Block list option) \<Rightarrow>
    int \<Rightarrow> string \<Rightarrow> string \<Rightarrow> string list \<Rightarrow> DRNode go option" where
  "StartDRNode E dial ask me port pubHash servers =
     map_option (\<lambda>r. bind_go r (connect_servers E dial ask servers)) (bootstrap E (new_node me port pubHash))"

definition Kill :: "DRNode \<Rightarrow> DRNode go" where
  "Kill node = (if nd_quit node then Panic (Explicit ''close of closed channel'') else Ret (node\<lparr>nd_quit := True\<rparr>))"

subsection \<open>Peers\<close>

fun merge :: "(string \<Rightarrow> bool) \<Rightarrow> string list \<Rightarrow> DRNode \<Rightarrow> DRNode" where
  "merge dial [] node = node"
| "merge dial (port # newPeers) node =
     (if port = nd_port node then merge dial newPeers node
      else if port \<in> set (nd_ports node) then merge dial newPeers node
      else if dial port
      then merge dial newPeers (node\<lparr>nd_servers := nd_servers node @ [port], nd_ports := nd_ports node @ [port]\<rparr>)
      else merge dial newPeers node)"

record GossipArgs =
  ga_Port :: string
  ga_Peers :: "string list"

definition Gossip :: "(string \<Rightarrow> bool) \<Rightarrow> GossipArgs \<Rightarrow> DRNode \<Rightarrow> DRNode \<times> GossipReply" where
  "Gossip dial args node =
     (let reply = \<lparr>gr_Port = nd_port node, gr_Peers = nd_ports node\<rparr>
      in if ga_Port args \<noteq> ''-1'' then (merge dial (ga_Peers args @ [ga_Port args]) node, reply)
         else (merge dial (ga_Peers args) node, reply))"

definition GetPeerSize :: "DRNode \<Rightarrow> int" where
  "GetPeerSize node = int (length (nd_ports node))"

text \<open>
  The three cases of the \<^verbatim>\<open>select\<close> in \<^verbatim>\<open>gossipProtocol\<close>.  A send on or a receive from a nil channel
  blocks forever: both are \<open>None\<close> then.
\<close>

definition gossip_tick :: "DRNode \<Rightarrow> (string \<times> GossipArgs) list" where
  "gossip_tick node = map (\<lambda>client. (client, \<lparr>ga_Port = nd_port node, ga_Peers = nd_ports node\<rparr>)) (nd_servers node)"

definition gossip_send :: "GossipReply \<Rightarrow> DRNode \<Rightarrow> DRNode option" where
  "gossip_send reply node = map_option (\<lambda>q. node\<lparr>nd_gossip := Some (q @ [reply])\<rparr>) (nd_gossip node)"

definition gossip_receive :: "(string \<Rightarrow> bool) \<Rightarrow> DRNode \<Rightarrow> DRNode option" where
  "gossip_receive dial node =
     (case nd_gossip node of
        Some (reply # q) \<Rightarrow> Some (merge dial (gr_Peers reply @ [gr_Port reply]) (node\<lparr>nd_gossip := Some q\<rparr>))
      | _ \<Rightarrow> None)"

subsection \<open>Reading the chain\<close>

definition GetBlockLog :: "DRNode \<Rightarrow> Block list" where
  "GetBlockLog node = nd_Log node"

definition GetBlockchain :: "DRNode \<Rightarrow> Block list go" where
  "GetBlockchain node = mapM_go deref (nd_Blockchain node)"

definition GetUtxo :: "visit \<Rightarrow> bytes \<Rightarrow> DRNode \<Rightarrow> UnspentTx list \<times> bool" where
  "GetUtxo ord pubKeyHash node = GetUnspentTxs ord (nd_Utxo node) pubKeyHash"

subsection \<open>Submitting a transaction\<close>

datatype append_result = Replied bool | Polling bytes "string list"

definition AppendTx :: "env \<Rightarrow> Transaction \<Rightarrow> int \<Rightarrow> DRNode \<Rightarrow> (DRNode \<times> append_result) go" where
  "AppendTx E tx clerkId node =
     (if validateComponents tx \<noteq> None then Ret (node, Replied False)
      else bind_go (Tx_Hash E tx) (\<lambda>h.
        let s = sl h
        in if go_get (nd_SeenTxs node) s \<noteq> None then Ret (node, Replied False)
           else Ret (node\<lparr>nd_SeenTxs := go_put s True (nd_SeenTxs node),
                          nd_PendingTxs := go_put s \<lparr>tn_Tx = tx, tn_ClerkId = clerkId, tn_Status = PENDING, tn_Hash = s\<rparr>
                            (nd_PendingTxs node),
                          nd_numPending := nd_numPending node + 1\<rparr>,
                     Polling s (nd_servers node))))"

definition AppendTx_poll :: "bytes \<Rightarrow> DRNode \<Rightarrow> (DRNode \<times> bool option) go" where
  "AppendTx_poll s node =
     bind_go (deref (go_get (nd_PendingTxs node) s)) (\<lambda>tn.
       if tn_Status tn = SUCCESS
       then Ret (node\<lparr>nd_PendingTxs := set_status s HANDLED (nd_PendingTxs node)\<rparr>, Some True)
       else if tn_Status tn = INVALID
       then Ret (node\<lparr>nd_PendingTxs := set_status s HANDLED (nd_PendingTxs node)\<rparr>, Some False)
       else Ret (node, None))"

subsection \<open>Mining\<close>

text \<open>
  \<^verbatim>\<open>for s, txNode := range node.PendingTxs\<close>: \<open>ord\<close> is the order of the visited keys.  The result is the
  new pending map and the transaction nodes that are valid.
\<close>

fun collect_pending :: "env \<Rightarrow> UtxoDb \<Rightarrow> Block option list \<Rightarrow> bytes list \<Rightarrow>
    (bytes, TxNode) gomap \<times> TxNode list \<Rightarrow> ((bytes, TxNode) gomap \<times> TxNode list) go" where
  "collect_pending E db chain [] st = Ret st"
| "collect_pending E db chain (s # ord) (pending, txNodes) =
     (case go_get pending s of
        None \<Rightarrow> collect_pending E db chain ord (pending, txNodes)
      | Some txNode \<Rightarrow>
          (if tn_Status txNode = PENDING then
             bind_go (validateTransaction E db chain (tn_Tx txNode)) (\<lambda>v.
               if v \<noteq> None then collect_pending E db chain ord (set_status s INVALID pending, txNodes)
               else collect_pending E db chain ord (pending, txNodes @ [txNode]))
           else collect_pending E db chain ord (pending, txNodes)))"

definition prev_block_hash :: "Block option list \<Rightarrow> bytes go" where
  "prev_block_hash chain =
     (if length chain \<noteq> 0
      then bind_go (last_block chain) (\<lambda>block. copy_into (replicate HASH_NUM_BYTES 0) 0 HASH_NUM_BYTES (b_BlockHash block))
      else Ret (replicate HASH_NUM_BYTES 0))"

definition mark_mined :: "env \<Rightarrow> TxNode \<Rightarrow> DRNode \<Rightarrow> DRNode go" where
  "mark_mined E txNode node =
     bind_go (deref (go_get (nd_PendingTxs node) (tn_Hash txNode))) (\<lambda>_.
     bind_go (updateUtxoDb E (tn_Tx txNode) (nd_Utxo node)) (\<lambda>db.
     Ret (node\<lparr>nd_PendingTxs := set_status (tn_Hash txNode) SUCCESS (nd_PendingTxs node), nd_Utxo := db\<rparr>)))"

text \<open>The part after the proof of work: advertise the block and append it, if it still extends the chain.\<close>

definition publish_block :: "env \<Rightarrow> TxNode list \<Rightarrow> Block \<Rightarrow> DRNode \<Rightarrow> (DRNode \<times> (string \<times> Block) list) go" where
  "publish_block E txNodes newBlock node =
     bind_go (extends_main newBlock (nd_Blockchain node)) (\<lambda>extends.
       if extends then
         bind_go (fold_go (mark_mined E) txNodes
             (node\<lparr>nd_Blockchain := nd_Blockchain node @ [Some newBlock], nd_Log := nd_Log node @ [newBlock]\<rparr>)) (\<lambda>node.
         bind_go (go_nth (b_Transactions newBlock) (length (b_Transactions newBlock) - 1)) (\<lambda>coinbase.
         bind_go (updateUtxoDb E coinbase (nd_Utxo node)) (\<lambda>db.
         Ret (node\<lparr>nd_Utxo := db, nd_numPending := nd_numPending node - int (length txNodes)\<rparr>,
              map (\<lambda>client. (client, newBlock)) (nd_servers node)))))
       else Ret (node, []))"

definition mine :: "env \<Rightarrow> int \<Rightarrow> bytes list \<Rightarrow> DRNode \<Rightarrow> (DRNode \<times> (string \<times> Block) list) go option" where
  "mine E now ord node =
     (if nd_quit node \<or> nd_numPending node < BLOCK_SIZE_THRESHOLD E then Some (Ret (node, []))
      else
        case bind_go (collect_pending E (nd_Utxo node) (nd_Blockchain node) ord (nd_PendingTxs node, [])) (\<lambda>(pending, txNodes).
             bind_go (prev_block_hash (nd_Blockchain node)) (\<lambda>prevBlockHash. Ret (pending, txNodes, prevBlockHash))) of
          Panic p \<Rightarrow> Some (Panic p)
        | Ret (pending, txNodes, prevBlockHash) \<Rightarrow>
            map_option (\<lambda>r. bind_go r (\<lambda>newBlock. publish_block E txNodes newBlock (node\<lparr>nd_PendingTxs := pending\<rparr>)))
              (GenerateBlock E now prevBlockHash (map tn_Tx txNodes) (nd_pubHash node)))"

end
