(* ===== verification/NodeInv.thy ===== *)
theory NodeInv
  imports Miner
begin

text \<open>
  The node as a state machine: \<open>node_step\<close> has one rule per handler and per turn of a background loop,
  and \<open>node_start\<close> the states in which \<^verbatim>\<open>StartDRNode\<close> may return.  The locale \<open>invariant_system\<close> is
  interpreted for what holds in every reachable state (\<open>node_inv\<close>).

  The loops of \<^verbatim>\<open>SendBlock\<close> and of \<^verbatim>\<open>mine\<close> over the transactions of a block share the contract of the
  locale \<open>tx_loop\<close>: they change the status of pending transactions and the UTXO database, nothing else.
\<close>

subsection \<open>The steps of a node\<close>

inductive node_step :: "env \<Rightarrow> DRNode \<Rightarrow> DRNode \<Rightarrow> bool" for E :: env where
  step_SendBlock: "SendBlock E newBlock n = Ret (n', err) \<Longrightarrow> node_step E n n'"
| step_AppendTx: "AppendTx E tx clerkId n = Ret (n', res) \<Longrightarrow> node_step E n n'"
| step_poll: "AppendTx_poll s n = Ret (n', res) \<Longrightarrow> node_step E n n'"
| step_mine: "mset ord = mset (map fst (nd_PendingTxs n)) \<Longrightarrow> mine E now ord n = Some (Ret (n', msgs)) \<Longrightarrow> node_step E n n'"
| step_Gossip: "Gossip dial args n = (n', reply) \<Longrightarrow> node_step E n n'"
| step_gossip_send: "gossip_send reply n = Some n' \<Longrightarrow> node_step E n n'"
| step_gossip_receive: "gossip_receive dial n = Some n' \<Longrightarrow> node_step E n n'"
| step_Kill: "Kill n = Ret n' \<Longrightarrow> node_step E n n'"

definition node_start :: "env \<Rightarrow> DRNode \<Rightarrow> bool" where
  "node_start E n \<longleftrightarrow>
     (\<exists>dial ask me port pubHash servers. StartDRNode E dial ask me port pubHash servers = Some (Ret n))"

subsection \<open>The invariant\<close>

text \<open>
  What every block after the genesis block satisfies, received or mined: the hash is the hash of the
  header and shows the work, the Merkle root is that of the transactions, the last transaction is a
  coinbase.
\<close>

definition block_sealed :: "env \<Rightarrow> Block \<Rightarrow> bool" where
  "block_sealed E b \<longleftrightarrow>
     b_Bits b = DIFFICULTY E \<and> b_BlockHash b = block_hash E b \<and> leading_zeros (DIFFICULTY E) (b_BlockHash b) \<and>
     (\<exists>root. BuildMerkleTreeStore E (b_Transactions b) = Ret root \<and> b_MerkleRoot b = sl root) \<and>
     b_Transactions b \<noteq> [] \<and> VerifyCoinbaseTx (last (b_Transactions b)) = None"

definition linked :: "Block list \<Rightarrow> bool" where
  "linked bs \<longleftrightarrow> (\<forall>i. Suc i < length bs \<longrightarrow> b_PrevBlock (bs ! Suc i) = b_BlockHash (bs ! i))"

definition chain_ok :: "env \<Rightarrow> Block list \<Rightarrow> bool" where
  "chain_ok E bs \<longleftrightarrow> bs \<noteq> [] \<and> linked bs \<and> (\<forall>b \<in> set (tl bs). block_sealed E b) \<and>
     (\<forall>b \<in> set bs. b_BlockHash b = block_hash E b \<and> leading_zeros (DIFFICULTY E) (b_BlockHash b))"

definition pending_ok :: "env \<Rightarrow> (bytes, TxNode) gomap \<Rightarrow> (bytes, bool) gomap \<Rightarrow> bool" where
  "pending_ok E pending seen \<longleftrightarrow> go_map_wf pending \<and>
     (\<forall>s tn. go_get pending s = Some tn \<longrightarrow>
        tn_Hash tn = s \<and> Tx_Hash E (tn_Tx tn) = Ret (Hash E (tx_layout in_layout (tn_Tx tn))) \<and>
        s = sl (Hash E (tx_layout in_layout (tn_Tx tn))) \<and>
        validateComponents (tn_Tx tn) = None \<and> go_get seen s \<noteq> None)"

definition node_inv :: "env \<Rightarrow> DRNode \<Rightarrow> bool" where
  "node_inv E n \<longleftrightarrow>
     (\<exists>bs. nd_Blockchain n = map Some bs \<and> chain_ok E bs \<and> set (tl bs) \<subseteq> set (nd_Log n)) \<and>
     nd_SideChains n = [] \<and> nd_OrphanChains n = [] \<and>
     apply_chain E (nd_Blockchain n) empty_utxo = Ret (nd_Utxo n) \<and>
     pending_ok E (nd_PendingTxs n) (nd_SeenTxs n) \<and> nd_gossip n = None"

definition peers_ok :: "DRNode \<Rightarrow> bool" where
  "peers_ok n \<longleftrightarrow> nd_servers n = nd_ports n \<and> distinct (nd_ports n) \<and> nd_port n \<notin> set (nd_ports n)"

subsection \<open>Chains\<close>

lemma linked_snoc:
  assumes "linked bs" and "bs \<noteq> [] \<Longrightarrow> b_PrevBlock b = b_BlockHash (last bs)"
  shows "linked (bs @ [b])"
  unfolding linked_def
proof (intro allI impI)
  fix i assume i: "Suc i < length (bs @ [b])"
  show "b_PrevBlock ((bs @ [b]) ! Suc i) = b_BlockHash ((bs @ [b]) ! i)"
  proof (cases "Suc i < length bs")
    case True
    with assms(1) show ?thesis by (simp add: linked_def nth_append)
  next
    case False
    with i have len: "length bs = Suc i" by simp
    then have "bs \<noteq> []" by auto
    with assms(2) len show ?thesis by (simp add: nth_append last_conv_nth)
  qed
qed

lemma chain_ok_snoc:
  "chain_ok E bs \<Longrightarrow> b_PrevBlock b = b_BlockHash (last bs) \<Longrightarrow> block_sealed E b \<Longrightarrow> chain_ok E (bs @ [b])"
  by (auto simp: chain_ok_def linked_snoc block_sealed_def)

lemma ValidateBlock_sealed: "ValidateBlock E b = Ret None \<Longrightarrow> block_sealed E b"
  by (auto simp: ValidateBlock_None block_sealed_def)

lemma GenerateBlock_sealed: "GenerateBlock E now prev txs pubHash = Some (Ret b) \<Longrightarrow> block_sealed E b"
  by (erule GenerateBlock_Ret) (simp add: block_sealed_def)

lemma last_block_map_Some: "bs \<noteq> [] \<Longrightarrow> last_block (map Some bs) = Ret (last bs)"
  by (simp add: last_block_def go_nth_def last_conv_nth)

lemma extends_main_map_Some:
  "bs \<noteq> [] \<Longrightarrow> extends_main b (map Some bs) = Ret (b_PrevBlock b = b_BlockHash (last bs))"
  by (simp add: extends_main_def last_block_map_Some)

lemma apply_chain_snoc:
  "apply_chain E (chain @ [Some b]) db = bind_go (apply_chain E chain db) (apply_txs E (b_Transactions b))"
  by (simp add: apply_chain_def fold_go_snoc)


subsection \<open>Status changes\<close>

text \<open>Two pending maps that differ in the statuses only.\<close>

definition erase_status :: "(bytes, TxNode) gomap \<Rightarrow> bytes \<Rightarrow> TxNode option" where
  "erase_status pending s = map_option (tn_Status_update (\<lambda>_. PENDING)) (go_get pending s)"

definition same_txs :: "(bytes, TxNode) gomap \<Rightarrow> (bytes, TxNode) gomap \<Rightarrow> bool" where
  "same_txs p q \<longleftrightarrow> erase_status p = erase_status q \<and> (go_map_wf p \<longrightarrow> go_map_wf q)"

lemma same_txs_refl [simp]: "same_txs p p"
  by (simp add: same_txs_def)

lemma same_txs_trans [trans]: "same_txs p q \<Longrightarrow> same_txs q r \<Longrightarrow> same_txs p r"
  by (simp add: same_txs_def)

lemma same_txs_set_status [simp]: "same_txs p (set_status s status p)"
  by (auto simp: same_txs_def set_status_def erase_status_def fun_eq_iff split: option.split)

lemma same_txs_set_status_trans [simp]: "same_txs p q \<Longrightarrow> same_txs p (set_status s status q)"
  using same_txs_trans same_txs_set_status by blast

lemma same_txs_get:
  assumes "same_txs p q" and "go_get q s = Some tn"
  obtains tn' where "go_get p s = Some tn'" and "tn_Tx tn' = tn_Tx tn" and "tn_Hash tn' = tn_Hash tn"
    and "tn_ClerkId tn' = tn_ClerkId tn"
proof -
  have "erase_status p s = Some (tn\<lparr>tn_Status := PENDING\<rparr>)"
    using assms by (simp add: same_txs_def erase_status_def)
  then obtain tn' where "go_get p s = Some tn'" and eq: "tn'\<lparr>tn_Status := PENDING\<rparr> = tn\<lparr>tn_Status := PENDING\<rparr>"
    by (auto simp: erase_status_def)
  then show thesis
    using arg_cong[OF eq, of tn_Tx] arg_cong[OF eq, of tn_Hash] arg_cong[OF eq, of tn_ClerkId]
    by (intro that[of tn']) simp_all
qed

lemma same_txs_None: "same_txs p q \<Longrightarrow> go_get q s = None \<longleftrightarrow> go_get p s = None"
  by (metis same_txs_def erase_status_def option.map_disc_iff)

lemma pending_ok_same_txs:
  assumes "same_txs p q" and "pending_ok E p seen"
  shows "pending_ok E q seen"
  unfolding pending_ok_def
proof (intro conjI allI impI)
  show "go_map_wf q" using assms by (simp add: same_txs_def pending_ok_def)
  fix s tn assume "go_get q s = Some tn"
  with assms(1) obtain tn' where tn': "go_get p s = Some tn'" "tn_Tx tn' = tn_Tx tn" "tn_Hash tn' = tn_Hash tn"
    by (rule same_txs_get)
  with assms(2) show "tn_Hash tn = s" "Tx_Hash E (tn_Tx tn) = Ret (Hash E (tx_layout in_layout (tn_Tx tn)))"
    "s = sl (Hash E (tx_layout in_layout (tn_Tx tn)))" "validateComponents (tn_Tx tn) = None" "go_get seen s \<noteq> None"
    unfolding pending_ok_def by metis+
qed

subsection \<open>Loops over the transactions of a block\<close>

locale tx_loop =
  fixes body :: "'a \<Rightarrow> DRNode \<Rightarrow> DRNode go" and E :: env and tx_of :: "'a \<Rightarrow> Transaction"
  assumes body_Ret: "body x n = Ret n' \<Longrightarrow>
    \<exists>p db. n' = n\<lparr>nd_PendingTxs := p, nd_Utxo := db\<rparr> \<and> same_txs (nd_PendingTxs n) p \<and>
      updateUtxoDb E (tx_of x) (nd_Utxo n) = Ret db"
begin

lemma loop_Ret:
  assumes "fold_go body xs n = Ret n'"
  shows "\<exists>p db. n' = n\<lparr>nd_PendingTxs := p, nd_Utxo := db\<rparr> \<and> same_txs (nd_PendingTxs n) p \<and>
    apply_txs E (map tx_of xs) (nd_Utxo n) = Ret db"
  using assms
proof (induction xs arbitrary: n)
  case Nil
  then have "n' = n\<lparr>nd_PendingTxs := nd_PendingTxs n, nd_Utxo := nd_Utxo n\<rparr>" by simp
  moreover have "apply_txs E (map tx_of []) (nd_Utxo n) = Ret (nd_Utxo n)" by (simp add: apply_txs_def)
  ultimately show ?case using same_txs_refl by blast
next
  case (Cons x xs)
  then obtain n1 where n1: "body x n = Ret n1" "fold_go body xs n1 = Ret n'" by (auto simp: go_simps)
  from body_Ret[OF n1(1)] obtain p db where p: "n1 = n\<lparr>nd_PendingTxs := p, nd_Utxo := db\<rparr>"
      "same_txs (nd_PendingTxs n) p" "updateUtxoDb E (tx_of x) (nd_Utxo n) = Ret db" by blast
  from Cons.IH[OF n1(2)] obtain q db' where q: "n' = n1\<lparr>nd_PendingTxs := q, nd_Utxo := db'\<rparr>"
      "same_txs (nd_PendingTxs n1) q" "apply_txs E (map tx_of xs) (nd_Utxo n1) = Ret db'" by blast
  have "same_txs (nd_PendingTxs n) q" using p(1,2) q(2) same_txs_trans by simp
  moreover have "apply_txs E (map tx_of (x # xs)) (nd_Utxo n) = Ret db'"
    using p q(3) by (simp add: apply_txs_def)
  moreover have "n' = n\<lparr>nd_PendingTxs := q, nd_Utxo := db'\<rparr>" using p(1) q(1) by simp
  ultimately show ?case by blast
qed

end

interpretation recv: tx_loop "accept_tx E" E "\<lambda>tx. tx" for E
proof
  fix tx n n' assume "accept_tx E tx n = Ret n'"
  then obtain n1 db where n1: "(if tx_Type tx \<noteq> COINBASE
        then bind_go (Tx_Hash E tx) (\<lambda>h. Ret (n\<lparr>nd_PendingTxs := set_status (sl h) SUCCESS (nd_PendingTxs n)\<rparr>))
        else Ret n) = Ret n1" and db: "updateUtxoDb E tx (nd_Utxo n1) = Ret db" "n' = n1\<lparr>nd_Utxo := db\<rparr>"
    by (auto simp only: accept_tx_def go_simps go.inject)
  from n1 obtain p where "n1 = n\<lparr>nd_PendingTxs := p\<rparr>" "same_txs (nd_PendingTxs n) p"
    by (cases "tx_Type tx = COINBASE") (auto simp: go_simps intro: that[of "nd_PendingTxs n"])
  with db show "\<exists>p db. n' = n\<lparr>nd_PendingTxs := p, nd_Utxo := db\<rparr> \<and> same_txs (nd_PendingTxs n) p \<and>
      updateUtxoDb E tx (nd_Utxo n) = Ret db" by auto
qed

interpretation mined: tx_loop "mark_mined E" E tn_Tx for E
  by unfold_locales (use same_txs_set_status in \<open>fastforce simp: mark_mined_def go_simps\<close>)


subsection \<open>Receiving a block\<close>

text \<open>
  While there are no side chains and no orphans, a block that does not extend the main chain only adds
  heap cells: the scan finds at most one parent, below the last block, and the longest-chain rule does
  not switch.
\<close>

definition scan_ok :: "nat \<Rightarrow> scan \<Rightarrow> bool" where
  "scan_ok N st = (case st of (h, cur, status) \<Rightarrow>
     (cur = None \<and> status = 0) \<or>
     (\<exists>a i. cur = Some a \<and> a < length h \<and> status = 1 \<and> sc_Depth (h ! a) = 0 \<and>
        sc_ParentIndex (h ! a) = int i \<and> i + 2 \<le> N))"

lemma scan_main_ok:
  assumes "scan_ok N st" and "index + length bs = N"
    and "bs \<noteq> [] \<Longrightarrow> b_PrevBlock b \<noteq> b_BlockHash (last bs)"
  shows "\<exists>st'. scan_ok N st' \<and> (scan_main b index (map Some bs) st = Ret (Next st') \<or>
    scan_main b index (map Some bs) st = Ret (Exit st'))"
  using assms
proof (induction bs arbitrary: index st)
  case Nil
  then show ?case by (cases st) auto
next
  case (Cons x bs)
  obtain h cur status where st: "st = (h, cur, status)" by (cases st)
  have last: "bs \<noteq> [] \<Longrightarrow> b_PrevBlock b \<noteq> b_BlockHash (last bs)" using Cons.prems(3) by auto
  show ?case
  proof (cases "b_PrevBlock b = b_BlockHash x")
    case True
    with Cons.prems have "bs \<noteq> []" by auto
    then have len: "Suc 0 \<le> length bs" by (cases bs) simp_all
    let ?st = "(h @ [\<lparr>sc_Parent = None, sc_ParentIndex = int index, sc_Block = Some b, sc_Depth = 0, sc_Children = []\<rparr>],
        Some (length h), 1)"
    have ok: "scan_ok N ?st" using Cons.prems(2) len by (auto simp: scan_ok_def)
    show ?thesis
    proof (cases "b_BlockHash b = b_BlockHash x")
      case True
      then show ?thesis using Cons.prems(1) st by auto
    next
      case False
      with True st show ?thesis using Cons.IH[OF ok, of "Suc index"] Cons.prems(2) last by simp
    qed
  next
    case False
    with st show ?thesis using Cons.IH[OF Cons.prems(1), of "Suc index"] Cons.prems(1,2) last by auto
  qed
qed

lemma settle_block_ok:
  assumes "nd_OrphanChains n = []" and "a < length (nd_heap n)"
    and "sc_ParentIndex (nd_heap n ! a) = -1 \<or>
      sc_Depth (nd_heap n ! a) + sc_ParentIndex (nd_heap n ! a) + 2 \<le> int (length (nd_Blockchain n))"
  shows "settle_block b a n = Ret n"
proof -
  have "n\<lparr>nd_OrphanChains := []\<rparr> = n" using assms(1) by simp
  with assms show ?thesis by (auto simp: settle_block_def go_nth_def Let_def)
qed

lemma place_block_ok:
  assumes "nd_Blockchain n = map Some bs" and "bs \<noteq> []" and "b_PrevBlock b \<noteq> b_BlockHash (last bs)"
    and "nd_SideChains n = []" and "nd_OrphanChains n = []"
  shows "\<exists>h. place_block b n = Ret (n\<lparr>nd_heap := h\<rparr>)"
proof -
  have "scan_ok (length bs) (nd_heap n, None, 0)" by (simp add: scan_ok_def)
  then obtain st where st: "scan_ok (length bs) st"
      "scan_main b 0 (map Some bs) (nd_heap n, None, 0) = Ret (Next st) \<or>
       scan_main b 0 (map Some bs) (nd_heap n, None, 0) = Ret (Exit st)"
    using scan_main_ok[of "length bs" "(nd_heap n, None, 0)" 0 bs b] assms(3) by auto
  obtain h cur status where h: "st = (h, cur, status)" by (cases st)
  from st(2) show ?thesis
  proof
    assume scan: "scan_main b 0 (map Some bs) (nd_heap n, None, 0) = Ret (Exit st)"
    then show ?thesis using assms h by (auto simp: place_block_def)
  next
    assume scan: "scan_main b 0 (map Some bs) (nd_heap n, None, 0) = Ret (Next st)"
    show ?thesis
    proof (cases "status = 0")
      case True
      let ?h = "h @ [\<lparr>sc_Parent = None, sc_ParentIndex = -1, sc_Block = Some b, sc_Depth = 0, sc_Children = []\<rparr>]"
      have "settle_block b (length h) (n\<lparr>nd_heap := ?h\<rparr>) = Ret (n\<lparr>nd_heap := ?h\<rparr>)"
        using assms(5) by (intro settle_block_ok) simp_all
      with True scan show ?thesis using assms(1,4,5) h by (auto simp: place_block_def)
    next
      case False
      with st(1) h obtain a i where a: "cur = Some a" "a < length h" "sc_Depth (h ! a) = 0"
          "sc_ParentIndex (h ! a) = int i" "i + 2 \<le> length bs"
        by (auto simp: scan_ok_def)
      then have "settle_block b a (n\<lparr>nd_heap := h\<rparr>) = Ret (n\<lparr>nd_heap := h\<rparr>)"
        using assms(1,5) by (intro settle_block_ok) simp_all
      with False scan a(1) show ?thesis using assms(1,4,5) h by (auto simp: place_block_def)
    qed
  qed
qed

lemma accept_block_Ret:
  assumes "accept_block E b n = Ret n'"
  obtains p db k where "n' = n\<lparr>nd_Blockchain := nd_Blockchain n @ [Some b], nd_PendingTxs := p, nd_Utxo := db, nd_numPending := k\<rparr>"
    and "same_txs (nd_PendingTxs n) p" and "apply_txs E (b_Transactions b) (nd_Utxo n) = Ret db"
    and "k = nd_numPending n - (int (length (b_Transactions b)) - 1)"
proof -
  let ?n = "n\<lparr>nd_Blockchain := nd_Blockchain n @ [Some b]\<rparr>"
  obtain n1 where n1: "fold_go (accept_tx E) (b_Transactions b) ?n = Ret n1"
    and n': "n' = n1\<lparr>nd_numPending := nd_numPending n1 - (int (length (b_Transactions b)) - 1)\<rparr>"
    using assms by (auto simp: accept_block_def go_simps)
  from recv.loop_Ret[OF n1] obtain p db where p: "n1 = ?n\<lparr>nd_PendingTxs := p, nd_Utxo := db\<rparr>"
      "same_txs (nd_PendingTxs ?n) p" "apply_txs E (map (\<lambda>tx. tx) (b_Transactions b)) (nd_Utxo ?n) = Ret db" by blast
  show thesis by (rule that) (use n' p in auto)
qed

text \<open>The three outcomes of \<^verbatim>\<open>SendBlock\<close> in a state without side chains.\<close>

lemma SendBlock_cases:
  assumes "SendBlock E b n = Ret (n', err)" and "nd_Blockchain n = map Some bs" and "bs \<noteq> []"
    and "nd_SideChains n = []" and "nd_OrphanChains n = []"
  obtains (rejected) h where "n' = n\<lparr>nd_Log := nd_Log n @ [b], nd_heap := h\<rparr>"
  | (accepted) p db k where "err = None" and "ValidateBlock E b = Ret None"
      and "b_PrevBlock b = b_BlockHash (last bs)"
      and "validateBlockTxs E (nd_Utxo n) (nd_Blockchain n) b = Ret None"
      and "n' = n\<lparr>nd_Log := nd_Log n @ [b], nd_Blockchain := nd_Blockchain n @ [Some b], nd_PendingTxs := p,
             nd_Utxo := db, nd_numPending := k\<rparr>"
      and "same_txs (nd_PendingTxs n) p" and "apply_txs E (b_Transactions b) (nd_Utxo n) = Ret db"
      and "k = nd_numPending n - (int (length (b_Transactions b)) - 1)"
proof -
  let ?n = "n\<lparr>nd_Log := nd_Log n @ [b]\<rparr>"
  note def = SendBlock_def[of E b n, unfolded Let_def] extends_main_map_Some[OF assms(3)]
  obtain v where v: "ValidateBlock E b = Ret v"
    using assms(1) by (cases "ValidateBlock E b") (auto simp: SendBlock_def)
  consider (invalid) "v \<noteq> None" | (aside) "v = None" "b_PrevBlock b \<noteq> b_BlockHash (last bs)"
    | (nxt) "v = None" "b_PrevBlock b = b_BlockHash (last bs)" by blast
  then show thesis
  proof cases
    case invalid
    with v assms(1) have "n' = ?n" by (auto simp: def)
    then show thesis by (intro rejected[of "nd_heap n"]) simp
  next
    case aside
    have "nd_Blockchain ?n = map Some bs" "nd_SideChains ?n = []" "nd_OrphanChains ?n = []" using assms by simp_all
    from place_block_ok[OF this(1) assms(3) aside(2) this(2,3)] obtain h where "place_block b ?n = Ret (?n\<lparr>nd_heap := h\<rparr>)"
      by blast
    with v aside assms(1,2) show thesis by (intro rejected[of h]) (auto simp: def)
  next
    case nxt
    obtain w where w: "validateBlockTxs E (nd_Utxo n) (nd_Blockchain n) b = Ret w"
      using v nxt assms(1,2) by (cases "validateBlockTxs E (nd_Utxo n) (nd_Blockchain n) b") (auto simp: def)
    show thesis
    proof (cases w)
      case (Some e)
      with v w nxt assms(1,2) have "n' = ?n" by (auto simp: def)
      then show thesis by (intro rejected[of "nd_heap n"]) simp
    next
      case None
      with v w nxt assms(1,2) have "accept_block E b ?n = Ret n'" and err: "err = None"
        by (auto simp: def go_simps)
      then show thesis
        by (rule_tac accept_block_Ret) (use v w None nxt err in \<open>auto intro!: accepted\<close>)
    qed
  qed
qed


subsection \<open>Mining\<close>

text \<open>A transaction node that comes from a pending map, up to its status.\<close>

definition taken_from :: "(bytes, TxNode) gomap \<Rightarrow> TxNode \<Rightarrow> bool" where
  "taken_from p tn \<longleftrightarrow> (\<exists>s tn'. go_get p s = Some tn' \<and> tn_Tx tn' = tn_Tx tn \<and> tn_Hash tn' = tn_Hash tn)"

lemma taken_from_same_txs: "same_txs p q \<Longrightarrow> taken_from q tn \<Longrightarrow> taken_from p tn"
  unfolding taken_from_def by (metis same_txs_get)

lemma collect_pending_Ret:
  assumes "collect_pending E db chain ord (p, acc) = Ret (p', tns)"
  shows "same_txs p p' \<and> (\<exists>new. tns = acc @ new \<and>
    (\<forall>tn \<in> set new. validateTransaction E db chain (tn_Tx tn) = Ret None \<and> taken_from p tn))"
  using assms
proof (induction ord arbitrary: p acc)
  case Nil
  then show ?case by simp
next
  case (Cons s ord)
  show ?case
  proof (cases "\<exists>tn. go_get p s = Some tn \<and> tn_Status tn = PENDING")
    case False
    with Cons.prems have "collect_pending E db chain ord (p, acc) = Ret (p', tns)" by (cases "go_get p s") auto
    then show ?thesis by (rule Cons.IH)
  next
    case True
    then obtain tn where tn: "go_get p s = Some tn" "tn_Status tn = PENDING" by blast
    with Cons.prems obtain v where v: "validateTransaction E db chain (tn_Tx tn) = Ret v" by (auto simp: go_simps)
    show ?thesis
    proof (cases v)
      case None
      with v tn Cons.prems have "collect_pending E db chain ord (p, acc @ [tn]) = Ret (p', tns)" by simp
      from Cons.IH[OF this] obtain new where new: "same_txs p p'" "tns = (acc @ [tn]) @ new"
          "\<forall>tn \<in> set new. validateTransaction E db chain (tn_Tx tn) = Ret None \<and> taken_from p tn" by blast
      have "taken_from p tn" using tn by (auto simp: taken_from_def)
      with new v None show ?thesis by (intro conjI exI[of _ "tn # new"]) auto
    next
      case (Some e)
      with v tn Cons.prems have "collect_pending E db chain ord (set_status s INVALID p, acc) = Ret (p', tns)" by simp
      from Cons.IH[OF this] obtain new where new: "same_txs (set_status s INVALID p) p'" "tns = acc @ new"
          "\<forall>tn \<in> set new. validateTransaction E db chain (tn_Tx tn) = Ret None \<and> taken_from (set_status s INVALID p) tn"
        by blast
      then show ?thesis using taken_from_same_txs[OF same_txs_set_status] same_txs_trans[OF same_txs_set_status] by blast
    qed
  qed
qed

lemma publish_block_cases:
  assumes "publish_block E tns b n = Ret (n', msgs)" and "nd_Blockchain n = map Some bs" and "bs \<noteq> []"
  obtains (stale) "n' = n" and "msgs = []"
  | (published) p db where "b_PrevBlock b = b_BlockHash (last bs)" and "b_Transactions b \<noteq> []"
      and "n' = n\<lparr>nd_Blockchain := nd_Blockchain n @ [Some b], nd_Log := nd_Log n @ [b], nd_PendingTxs := p,
             nd_Utxo := db, nd_numPending := nd_numPending n - int (length tns)\<rparr>"
      and "same_txs (nd_PendingTxs n) p"
      and "apply_txs E (map tn_Tx tns @ [last (b_Transactions b)]) (nd_Utxo n) = Ret db"
      and "msgs = map (\<lambda>client. (client, b)) (nd_servers n)"
proof (cases "b_PrevBlock b = b_BlockHash (last bs)")
  case False
  with assms show thesis by (intro stale) (auto simp: publish_block_def extends_main_map_Some)
next
  case True
  let ?n = "n\<lparr>nd_Blockchain := nd_Blockchain n @ [Some b], nd_Log := nd_Log n @ [b]\<rparr>"
  obtain n1 coinbase db where n1: "fold_go (mark_mined E) tns ?n = Ret n1"
    and cb: "go_nth (b_Transactions b) (length (b_Transactions b) - 1) = Ret coinbase"
    and db: "updateUtxoDb E coinbase (nd_Utxo n1) = Ret db"
    and n': "n' = n1\<lparr>nd_Utxo := db, nd_numPending := nd_numPending n1 - int (length tns)\<rparr>"
    and msgs: "msgs = map (\<lambda>client. (client, b)) (nd_servers n1)"
    using assms True by (auto simp: publish_block_def extends_main_map_Some bind_go_eq_Ret)
  from mined.loop_Ret[OF n1] obtain p db1 where p: "n1 = ?n\<lparr>nd_PendingTxs := p, nd_Utxo := db1\<rparr>"
      "same_txs (nd_PendingTxs ?n) p" "apply_txs E (map tn_Tx tns) (nd_Utxo ?n) = Ret db1" by blast
  have ne: "b_Transactions b \<noteq> []" and "coinbase = last (b_Transactions b)"
    using cb by (cases "b_Transactions b = []"; simp add: go_simps last_conv_nth)+
  with p db have "apply_txs E (map tn_Tx tns @ [last (b_Transactions b)]) (nd_Utxo n) = Ret db"
    by (simp add: apply_txs_def fold_go_snoc)
  then show thesis by (rule_tac published[OF True ne]) (use n' p msgs in auto)
qed

lemma mine_Ret:
  assumes "mine E now ord n = Some (Ret (n', msgs))"
  obtains (quiet) "n' = n" and "msgs = []"
  | (turn) p0 tns prev b where
      "collect_pending E (nd_Utxo n) (nd_Blockchain n) ord (nd_PendingTxs n, []) = Ret (p0, tns)"
      and "GenerateBlock E now prev (map tn_Tx tns) (nd_pubHash n) = Some (Ret b)"
      and "publish_block E tns b (n\<lparr>nd_PendingTxs := p0\<rparr>) = Ret (n', msgs)"
proof (cases "nd_quit n \<or> nd_numPending n < BLOCK_SIZE_THRESHOLD E")
  case True
  with assms show thesis by (intro quiet) (auto simp: mine_def)
next
  case False
  with assms show thesis by (auto simp: mine_def go_simps split: go.splits intro: turn)
qed

lemma mine_cases:
  assumes "mine E now ord n = Some (Ret (n', msgs))" and "nd_Blockchain n = map Some bs" and "bs \<noteq> []"
  obtains (idle) p where "n' = n\<lparr>nd_PendingTxs := p\<rparr>" and "same_txs (nd_PendingTxs n) p" and "msgs = []"
  | (mined) tns b p0 p db prev where
      "collect_pending E (nd_Utxo n) (nd_Blockchain n) ord (nd_PendingTxs n, []) = Ret (p0, tns)"
      and "GenerateBlock E now prev (map tn_Tx tns) (nd_pubHash n) = Some (Ret b)"
      and "b_PrevBlock b = b_BlockHash (last bs)"
      and "n' = n\<lparr>nd_Blockchain := nd_Blockchain n @ [Some b], nd_Log := nd_Log n @ [b], nd_PendingTxs := p,
             nd_Utxo := db, nd_numPending := nd_numPending n - int (length tns)\<rparr>"
      and "same_txs (nd_PendingTxs n) p" and "apply_txs E (b_Transactions b) (nd_Utxo n) = Ret db"
      and "msgs = map (\<lambda>client. (client, b)) (nd_servers n)"
  using assms(1)
proof (cases rule: mine_Ret)
  case quiet
  then show thesis by (intro idle[of "nd_PendingTxs n"]) simp_all
next
  case (turn p0 tns prev b)
  note collect = turn(1) and gen = turn(2) and publish = turn(3)
  have same: "same_txs (nd_PendingTxs n) p0" using collect_pending_Ret[OF collect] by simp
  have bs: "nd_Blockchain (n\<lparr>nd_PendingTxs := p0\<rparr>) = map Some bs" using assms(2) by simp
  have txs: "b_Transactions b = map tn_Tx tns @ [last (b_Transactions b)]"
    by (rule GenerateBlock_Ret[OF gen]) simp
  from publish bs assms(3) show thesis
  proof (cases rule: publish_block_cases)
    case stale
    with same show thesis by (intro idle[of p0]) simp_all
  next
    case (published p db)
    moreover have "same_txs (nd_PendingTxs n) p" using same published(4) same_txs_trans by simp
    ultimately show thesis using mined[OF collect gen] txs by simp
  qed
qed


subsection \<open>The invariant is kept\<close>

lemma node_invE:
  assumes "node_inv E n"
  obtains bs where "nd_Blockchain n = map Some bs" and "chain_ok E bs" and "bs \<noteq> []" and "set (tl bs) \<subseteq> set (nd_Log n)"
    and "nd_SideChains n = []" and "nd_OrphanChains n = []"
  using assms by (auto simp: node_inv_def chain_ok_def)

lemma node_inv_pending:
  assumes "node_inv E n" and "go_get (nd_PendingTxs n) s = Some tn"
  shows "tn_Hash tn = s" and "validateComponents (tn_Tx tn) = None"
    and "Tx_Hash E (tn_Tx tn) = Ret (Hash E (tx_layout in_layout (tn_Tx tn)))"
    and "s = sl (Hash E (tx_layout in_layout (tn_Tx tn)))" and "go_get (nd_SeenTxs n) s \<noteq> None"
  using assms unfolding node_inv_def pending_ok_def by blast+

lemma node_inv_frame:
  assumes "node_inv E n" and "nd_Blockchain n' = nd_Blockchain n" and "nd_SideChains n' = nd_SideChains n"
    and "nd_OrphanChains n' = nd_OrphanChains n" and "nd_Utxo n' = nd_Utxo n" and "nd_SeenTxs n' = nd_SeenTxs n"
    and "nd_gossip n' = nd_gossip n" and "set (nd_Log n) \<subseteq> set (nd_Log n')"
    and "same_txs (nd_PendingTxs n) (nd_PendingTxs n')"
  shows "node_inv E n'"
proof -
  have "pending_ok E (nd_PendingTxs n') (nd_SeenTxs n')"
    using assms(1,6,9) by (auto simp: node_inv_def intro: pending_ok_same_txs)
  with assms show ?thesis by (auto simp: node_inv_def)
qed

lemma node_inv_extend:
  assumes "node_inv E n" and "nd_Blockchain n = map Some bs" and "b_PrevBlock b = b_BlockHash (last bs)"
    and "block_sealed E b" and "apply_txs E (b_Transactions b) (nd_Utxo n) = Ret db" and "same_txs (nd_PendingTxs n) p"
  shows "node_inv E (n\<lparr>nd_Blockchain := nd_Blockchain n @ [Some b], nd_Log := nd_Log n @ [b], nd_PendingTxs := p,
    nd_Utxo := db, nd_numPending := k\<rparr>)"
proof -
  have "bs \<noteq> []" "chain_ok E bs" "set (tl bs) \<subseteq> set (nd_Log n)"
    using assms(1,2) by (auto simp: node_inv_def chain_ok_def)
  then have "chain_ok E (bs @ [b])" "set (tl (bs @ [b])) \<subseteq> set (nd_Log n @ [b])"
    using assms(3,4) by (auto simp: chain_ok_snoc)
  moreover have "apply_chain E (nd_Blockchain n @ [Some b]) empty_utxo = Ret db"
    using assms(1,5) by (simp add: apply_chain_snoc node_inv_def)
  moreover have "pending_ok E p (nd_SeenTxs n)"
    using assms(1,6) by (auto simp: node_inv_def intro: pending_ok_same_txs)
  moreover have "nd_Blockchain n @ [Some b] = map Some (bs @ [b])" using assms(2) by simp
  ultimately show ?thesis using assms(1) unfolding node_inv_def by (intro conjI exI[of _ "bs @ [b]"]) auto
qed

lemma node_inv_SendBlock:
  assumes "node_inv E n" and "SendBlock E b n = Ret (n', err)"
  shows "node_inv E n'"
proof -
  obtain bs where bs: "nd_Blockchain n = map Some bs" "bs \<noteq> []" "nd_SideChains n = []" "nd_OrphanChains n = []"
    using assms(1) by (rule node_invE)
  from assms(2) bs show ?thesis
  proof (cases rule: SendBlock_cases)
    case (rejected h)
    then show ?thesis by (intro node_inv_frame[OF assms(1)]) auto
  next
    case (accepted p db k)
    have "n' = n\<lparr>nd_Blockchain := nd_Blockchain n @ [Some b], nd_Log := nd_Log n @ [b], nd_PendingTxs := p,
        nd_Utxo := db, nd_numPending := k\<rparr>" using accepted(5) by (cases n) simp
    then show ?thesis
      using node_inv_extend[OF assms(1) bs(1) accepted(3) ValidateBlock_sealed[OF accepted(2)] accepted(7,6)] by simp
  qed
qed

lemma node_inv_AppendTx:
  assumes "node_inv E n" and "AppendTx E tx clerkId n = Ret (n', res)"
  shows "node_inv E n'"
proof (cases "validateComponents tx = None \<and> go_get (nd_SeenTxs n) (sl (Hash E (tx_layout in_layout tx))) = None")
  case False
  with assms show ?thesis by (auto simp: AppendTx_def Tx_Hash_layout split: if_splits)
next
  case True
  let ?s = "sl (Hash E (tx_layout in_layout tx))"
  let ?tn = "\<lparr>tn_Tx = tx, tn_ClerkId = clerkId, tn_Status = PENDING, tn_Hash = ?s\<rparr>"
  have n': "n' = n\<lparr>nd_SeenTxs := go_put ?s True (nd_SeenTxs n), nd_PendingTxs := go_put ?s ?tn (nd_PendingTxs n),
      nd_numPending := nd_numPending n + 1\<rparr>"
    using True assms(2) by (simp add: AppendTx_def Tx_Hash_layout Let_def)
  have "pending_ok E (go_put ?s ?tn (nd_PendingTxs n)) (go_put ?s True (nd_SeenTxs n))"
    using assms(1) True by (auto simp: node_inv_def pending_ok_def Tx_Hash_layout)
  with assms(1) show ?thesis by (auto simp: n' node_inv_def)
qed

lemma AppendTx_poll_Ret:
  assumes "AppendTx_poll s n = Ret (n', res)"
  obtains p where "n' = n\<lparr>nd_PendingTxs := p\<rparr>" and "same_txs (nd_PendingTxs n) p"
proof -
  have "n' = n\<lparr>nd_PendingTxs := nd_PendingTxs n\<rparr> \<or> n' = n\<lparr>nd_PendingTxs := set_status s HANDLED (nd_PendingTxs n)\<rparr>"
    using assms by (auto simp: AppendTx_poll_def go_simps split: if_splits)
  with that same_txs_refl same_txs_set_status show thesis by blast
qed

lemma node_inv_mine:
  assumes "node_inv E n" and "mine E now ord n = Some (Ret (n', msgs))"
  shows "node_inv E n'"
proof -
  obtain bs where bs: "nd_Blockchain n = map Some bs" "bs \<noteq> []" using assms(1) by (rule node_invE)
  from assms(2) bs show ?thesis
  proof (cases rule: mine_cases)
    case (idle p)
    then show ?thesis by (intro node_inv_frame[OF assms(1)]) auto
  next
    case (mined tns b p0 p db prev)
    then show ?thesis
      using node_inv_extend[OF assms(1) bs(1) mined(3) GenerateBlock_sealed[OF mined(2)] mined(6,5)] by simp
  qed
qed

lemma merge_frame: "\<exists>ps ss. merge dial ports n = n\<lparr>nd_ports := ps, nd_servers := ss\<rparr>"
proof (induction ports arbitrary: n)
  case Nil
  have "merge dial [] n = n\<lparr>nd_ports := nd_ports n, nd_servers := nd_servers n\<rparr>" by simp
  then show ?case by blast
next
  case (Cons port ports)
  then show ?case using Cons[of "n\<lparr>nd_servers := nd_servers n @ [port], nd_ports := nd_ports n @ [port]\<rparr>"] by auto
qed

lemma merge_simps [simp]:
  "nd_Blockchain (merge dial ports n) = nd_Blockchain n" "nd_SeenTxs (merge dial ports n) = nd_SeenTxs n"
  "nd_PendingTxs (merge dial ports n) = nd_PendingTxs n" "nd_port (merge dial ports n) = nd_port n" "nd_Log (merge dial ports n) = nd_Log n"
  using merge_frame[of dial ports n] by auto

lemma node_inv_merge: "node_inv E n \<Longrightarrow> node_inv E (merge dial ports n)"
  using merge_frame[of dial ports n] by (auto intro: node_inv_frame)

lemma node_inv_step:
  assumes "node_inv E n" and "node_step E n n'"
  shows "node_inv E n'"
  using assms(2)
proof (cases rule: node_step.cases)
  case (step_poll s res)
  then show ?thesis by (rule AppendTx_poll_Ret) (auto intro: node_inv_frame[OF assms(1)])
next
  case (step_Gossip dial args reply)
  then show ?thesis using node_inv_merge[OF assms(1)] by (auto simp: Gossip_def Let_def split: if_splits)
next
  case (step_gossip_send reply)
  then show ?thesis using assms(1) by (auto simp: gossip_send_def node_inv_def)
next
  case (step_gossip_receive dial)
  then show ?thesis using assms(1) by (auto simp: gossip_receive_def node_inv_def)
next
  case step_Kill
  then show ?thesis by (auto simp: Kill_def split: if_splits intro: node_inv_frame[OF assms(1)])
qed (use assms(1) node_inv_SendBlock node_inv_AppendTx node_inv_mine in blast)+

subsection \<open>Start-up establishes it\<close>

lemma bootstrap_inv:
  assumes "bootstrap E (new_node me port pubHash) = Some (Ret n)"
  shows "node_inv E n"
proof -
  obtain g db where "GenerateGenesisBlock E = Some (Ret g)" and "apply_chain E [Some g] empty_utxo = Ret db"
    and "n = (new_node me port pubHash)\<lparr>nd_Blockchain := [Some g], nd_Log := [g], nd_Utxo := db\<rparr>"
    using assms by (auto simp: bootstrap_def go_simps)
  moreover from this have "chain_ok E [g]" using GenerateGenesisBlock_hash by (auto simp: chain_ok_def linked_def)
  ultimately show ?thesis
    by (auto simp: node_inv_def new_node_def pending_ok_def intro!: exI[of _ "[g]"])
qed

lemma node_inv_replayLog:
  assumes "node_inv E n" and "replayLog E n = Ret n'"
  shows "node_inv E n'"
  using assms(2) unfolding replayLog_def
  by (rule fold_go_invariant) (use assms(1) node_inv_SendBlock in \<open>auto simp: go_simps\<close>)

text \<open>While the chain is the genesis block alone, the log may be replaced.\<close>

lemma node_inv_short_log:
  assumes "node_inv E n" and "length (nd_Blockchain n) = 1"
  shows "node_inv E (n\<lparr>nd_Log := log\<rparr>)"
proof -
  obtain g where g: "nd_Blockchain n = [Some g]" "chain_ok E [g]"
    using assms by (auto simp: node_inv_def length_Suc_conv)
  then show ?thesis using assms(1) by (auto simp: node_inv_def intro!: exI[of _ "[g]"])
qed

text \<open>What \<^verbatim>\<open>SendBlock\<close>, a new peer and a new log preserve, the loop over the servers preserves; \<open>A\<close> holds
  the blocks of the logs that the servers send.\<close>

lemma connect_servers_known:
  assumes "connect_servers E dial ask servers n = Ret n'" and "P n"
    and ask: "\<And>s log. ask s = Some log \<Longrightarrow> set log \<subseteq> A"
    and peer: "\<And>n s. P n \<Longrightarrow> P (n\<lparr>nd_servers := nd_servers n @ [s], nd_ports := nd_ports n @ [s]\<rparr>)"
    and log: "\<And>n log. P n \<Longrightarrow> length (nd_Blockchain n) = 1 \<Longrightarrow> set log \<subseteq> A \<Longrightarrow> P (n\<lparr>nd_Log := log\<rparr>)"
    and send: "\<And>n b n' err. P n \<Longrightarrow> b \<in> A \<Longrightarrow> SendBlock E b n = Ret (n', err) \<Longrightarrow> P n'"
  shows "P n'"
  using assms(1,2)
proof (induction servers arbitrary: n)
  case Nil
  then show ?case by simp
next
  case (Cons s servers)
  show ?case
  proof (cases "dial s")
    case False
    with Cons show ?thesis by simp
  next
    case True
    let ?n = "n\<lparr>nd_servers := nd_servers n @ [s], nd_ports := nd_ports n @ [s]\<rparr>"
    obtain n1 where n1: "connect_servers E dial ask servers n1 = Ret n'"
      and got: "(if length (nd_Blockchain ?n) = 1 then (case ask s of None \<Rightarrow> Ret ?n
        | Some log \<Rightarrow> replayLog E (?n\<lparr>nd_Log := log\<rparr>)) else Ret ?n) = Ret n1"
      using True Cons.prems(1) by (auto simp: Let_def bind_go_eq_Ret simp del: One_nat_def)
    have replay: "P m'" if "P m" "set (nd_Log m) \<subseteq> A" "replayLog E m = Ret m'" for m m'
      using that(3) unfolding replayLog_def
      by (rule fold_go_invariant) (use that(1,2) send in \<open>auto simp: go_simps\<close>)
    have P: "P ?n" using Cons.prems(2) by (rule peer)
    have "P n1"
    proof (cases "length (nd_Blockchain ?n) = 1 \<and> ask s \<noteq> None")
      case False
      with got P show ?thesis by (auto split: if_splits option.splits)
    next
      case True
      then obtain l where l: "length (nd_Blockchain ?n) = 1" "ask s = Some l" by blast
      from log[OF P l(1) ask[OF l(2)]] have "P (?n\<lparr>nd_Log := l\<rparr>)" .
      moreover have "replayLog E (?n\<lparr>nd_Log := l\<rparr>) = Ret n1" using got l by simp
      moreover have "set (nd_Log (?n\<lparr>nd_Log := l\<rparr>)) \<subseteq> A" using ask[OF l(2)] by simp
      ultimately show ?thesis using replay by blast
    qed
    with n1 show ?thesis by (rule Cons.IH)
  qed
qed

lemma connect_servers_invariant:
  assumes "connect_servers E dial ask servers n = Ret n'" and "P n"
    and peer: "\<And>n s. P n \<Longrightarrow> P (n\<lparr>nd_servers := nd_servers n @ [s], nd_ports := nd_ports n @ [s]\<rparr>)"
    and log: "\<And>n log. P n \<Longrightarrow> length (nd_Blockchain n) = 1 \<Longrightarrow> P (n\<lparr>nd_Log := log\<rparr>)"
    and send: "\<And>n b n' err. P n \<Longrightarrow> SendBlock E b n = Ret (n', err) \<Longrightarrow> P n'"
  shows "P n'"
  using assms(1,2)
proof (rule connect_servers_known[where A = UNIV])
  show "P m \<Longrightarrow> P (m\<lparr>nd_servers := nd_servers m @ [s], nd_ports := nd_ports m @ [s]\<rparr>)" for m s by (rule peer)
  show "P m \<Longrightarrow> length (nd_Blockchain m) = 1 \<Longrightarrow> P (m\<lparr>nd_Log := l\<rparr>)" for m l by (rule log)
  show "P m \<Longrightarrow> SendBlock E b m = Ret (m', err) \<Longrightarrow> P m'" for m b m' err by (rule send)
qed simp

lemma node_inv_connect_servers:
  assumes "node_inv E n" and "connect_servers E dial ask servers n = Ret n'"
  shows "node_inv E n'"
  using assms(2,1)
  by (rule connect_servers_invariant) (auto intro: node_inv_short_log node_inv_SendBlock node_inv_frame)

lemma node_inv_start: "node_start E n \<Longrightarrow> node_inv E n"
  by (auto simp: node_start_def StartDRNode_def go_simps intro: node_inv_connect_servers bootstrap_inv)

interpretation ninv: invariant_system "node_start E" "node_step E" "node_inv E" for E
  by unfold_locales (auto intro: node_inv_start node_inv_step)

subsection \<open>Start-up ends\<close>

lemma apply_genesis:
  assumes "b_Transactions g = [genesis_tx]"
  shows "\<exists>db. apply_chain E [Some g] empty_utxo = Ret db"
proof -
  have "tx_inputs genesis_tx = []" by (simp add: tx_inputs_def genesis_tx_def)
  then have "\<exists>db. updateUtxoDb E genesis_tx empty_utxo = Ret db"
    using Tx_Hash_layout[OF genesis_components] by (intro updateUtxoDb_succeeds) simp_all
  then show ?thesis using assms by (auto simp: apply_chain_def apply_txs_def)
qed

lemma StartDRNode_alone:
  assumes "scrypt_ok E" and "pow_solvable E"
  obtains n g where "StartDRNode E dial ask me port pubHash [] = Some (Ret n)"
    and "GenerateGenesisBlock E = Some (Ret g)" and "nd_Blockchain n = [Some g]" and "nd_ports n = []" and "nd_servers n = []"
proof -
  obtain g where g: "GenerateGenesisBlock E = Some (Ret g)" using GenerateGenesisBlock_returns[OF assms] by blast
  obtain db where db: "apply_chain E [Some g] empty_utxo = Ret db"
    using apply_genesis[OF GenerateGenesisBlock_Ret(1)[OF assms(1) g]] by blast
  let ?n = "(new_node me port pubHash)\<lparr>nd_Blockchain := [Some g], nd_Log := [g], nd_Utxo := db\<rparr>"
  show thesis
    by (rule that[of ?n, OF _ g]) (simp_all add: StartDRNode_def bootstrap_def g db new_node_def)
qed

lemma reach_StartDRNode:
  "StartDRNode E dial ask me port pubHash servers = Some (Ret n) \<Longrightarrow> reach (node_start E) (node_step E) n"
  unfolding node_start_def by (rule reach_init) blast

lemma node_start_exists:
  assumes "scrypt_ok E" and "pow_solvable E"
  obtains n where "reach (node_start E) (node_step E) n"
  using StartDRNode_alone[OF assms] reach_StartDRNode by metis

lemmas demo_node_exists = node_start_exists[OF demo_scrypt_ok demo_pow_solvable]

subsection \<open>The ledger of a chain\<close>

definition tx_effect :: "env \<Rightarrow> Transaction \<Rightarrow> (outpoint \<rightharpoonup> coin) \<Rightarrow> (outpoint \<rightharpoonup> coin)" where
  "tx_effect E tx m = (case Tx_Hash E tx of Panic p \<Rightarrow> m | Ret h \<Rightarrow> apply_coins (tx_inputs tx) (tx_outputs (sl h) tx) m)"

definition chain_coins :: "env \<Rightarrow> Block list \<Rightarrow> (outpoint \<rightharpoonup> coin)" where
  "chain_coins E bs = fold (tx_effect E) (concat (map b_Transactions bs)) Map.empty"

lemma apply_txs_refines:
  assumes "apply_txs E txs db = Ret db'" and "utxo_wf db"
  shows "utxo_wf db' \<and> unspent db' = fold (tx_effect E) txs (unspent db)"
  using assms unfolding apply_txs_def
proof (induction txs arbitrary: db)
  case Nil
  then show ?case by simp
next
  case (Cons tx txs)
  then obtain db1 where db1: "updateUtxoDb E tx db = Ret db1" "fold_go (updateUtxoDb E) txs db1 = Ret db'"
    by (auto simp: go_simps)
  then obtain h where h: "Tx_Hash E tx = Ret h" by (auto simp: updateUtxoDb_Ret)
  have "unspent db1 = tx_effect E tx (unspent db)" using updateUtxoDb_unspent[OF db1(1) h] h by (simp add: tx_effect_def)
  with Cons.IH[OF db1(2) updateUtxoDb_wf[OF Cons.prems(2) db1(1)]] show ?case by simp
qed

lemma apply_chain_refines:
  assumes "apply_chain E (map Some bs) db = Ret db'" and "utxo_wf db"
  shows "utxo_wf db' \<and> unspent db' = fold (tx_effect E) (concat (map b_Transactions bs)) (unspent db)"
  using assms
proof (induction bs arbitrary: db)
  case Nil
  then show ?case by (simp add: apply_chain_def)
next
  case (Cons b bs)
  then obtain db1 where db1: "apply_txs E (b_Transactions b) db = Ret db1" "apply_chain E (map Some bs) db1 = Ret db'"
    by (auto simp: apply_chain_def go_simps)
  from apply_txs_refines[OF db1(1) Cons.prems(2)] Cons.IH[OF db1(2)] show ?case by simp
qed

lemma empty_utxo_simps [simp]: "utxo_wf empty_utxo" "unspent empty_utxo = Map.empty"
  by (auto simp: utxo_wf_def empty_utxo_def unspent_def go_map_wf_def)

lemma node_inv_coins:
  assumes "node_inv E n" and "nd_Blockchain n = map Some bs"
  shows "utxo_wf (nd_Utxo n) \<and> unspent (nd_Utxo n) = chain_coins E bs"
  using apply_chain_refines[of E bs empty_utxo "nd_Utxo n"] assms by (simp add: node_inv_def chain_coins_def)

subsection \<open>Steps only append\<close>

lemma node_step_appends:
  assumes "node_inv E n" and "node_step E n n'"
  shows "\<exists>bs. nd_Blockchain n' = nd_Blockchain n @ map Some bs \<and> length bs \<le> 1"
proof -
  obtain bs where bs: "nd_Blockchain n = map Some bs" "bs \<noteq> []" "nd_SideChains n = []" "nd_OrphanChains n = []"
    using assms(1) by (rule node_invE)
  have same: ?thesis if "nd_Blockchain n' = nd_Blockchain n" using that by (intro exI[of _ "[]"]) simp
  have one: ?thesis if "nd_Blockchain n' = nd_Blockchain n @ [Some b]" for b using that by (intro exI[of _ "[b]"]) simp
  from assms(2) show ?thesis
  proof (cases rule: node_step.cases)
    case (step_SendBlock b err)
    from this bs show ?thesis by (cases rule: SendBlock_cases) (use same one in auto)
  next
    case (step_mine ord now msgs)
    from step_mine(2) bs(1,2) show ?thesis by (cases rule: mine_cases) (use same one in auto)
  next
    case (step_poll s res)
    then show ?thesis by (rule AppendTx_poll_Ret) (use same in auto)
  next
    case (step_Gossip dial args reply)
    then show ?thesis by (intro same) (auto simp: Gossip_def Let_def split: if_splits)
  next
    case (step_gossip_receive dial)
    then show ?thesis using assms(1) by (auto simp: gossip_receive_def node_inv_def)
  qed (auto simp: AppendTx_def go_simps Let_def gossip_send_def Kill_def split: if_splits intro!: same)
qed

subsection \<open>Properties\<close>

text \<open>C1: The chain of a reachable node: it is never empty and has no nil pointer, each block names the hash
  of the one before it, and every block after the first carries its proof of work (its hash is the hash of
  its header and has the required zeros), the Merkle root of its transactions and a coinbase at the end.
  This holds after any sequence of received blocks, valid or not, of submitted transactions, of mining
  turns and of gossip, whatever the peers answered at start-up.\<close>

theorem reachable_chain_linked_and_sealed:
  assumes "reach (node_start E) (node_step E) n"
  shows "\<exists>bs. nd_Blockchain n = map Some bs \<and> bs \<noteq> [] \<and>
    (\<forall>i. Suc i < length bs \<longrightarrow> b_PrevBlock (bs ! Suc i) = b_BlockHash (bs ! i)) \<and>
    list_all (block_sealed E) (tl bs)"
  using ninv.inv_reach[OF assms] by (auto simp: node_inv_def chain_ok_def linked_def list_all_iff)

theorem reachable_chain_linked_and_sealed_witness:
  "\<exists>n bs. reach (node_start demo_env) (node_step demo_env) n \<and> nd_Blockchain n = map Some bs \<and> bs \<noteq> []"
proof -
  obtain n where n: "reach (node_start demo_env) (node_step demo_env) n" by (rule demo_node_exists)
  from reachable_chain_linked_and_sealed[OF n] n show ?thesis by blast
qed

text \<open>C3: The UTXO database of a reachable node is exactly the ledger of its chain: it is well-formed, and
  its unspent coins are those obtained by applying all transactions of the chain, in order, to the empty
  ledger.\<close>

theorem reachable_utxo_is_ledger_of_chain:
  assumes "reach (node_start E) (node_step E) n"
  shows "\<exists>bs. nd_Blockchain n = map Some bs \<and> utxo_wf (nd_Utxo n) \<and> unspent (nd_Utxo n) = chain_coins E bs"
proof -
  note inv = ninv.inv_reach[OF assms]
  then obtain bs where "nd_Blockchain n = map Some bs" by (rule node_invE)
  with node_inv_coins[OF inv] show ?thesis by blast
qed

theorem reachable_utxo_is_ledger_of_chain_witness:
  "\<exists>n bs. reach (node_start demo_env) (node_step demo_env) n \<and> nd_Blockchain n = map Some bs \<and>
     unspent (nd_Utxo n) = chain_coins demo_env bs"
proof -
  obtain n where n: "reach (node_start demo_env) (node_step demo_env) n" by (rule demo_node_exists)
  from reachable_utxo_is_ledger_of_chain[OF n] n show ?thesis by blast
qed

text \<open>The chain only grows: a step of a reachable node leaves it as it is or appends one block.  No
  block is ever removed or replaced.\<close>

theorem chain_append_only:
  assumes "reach (node_start E) (node_step E) n" and "node_step E n n'"
  shows "\<exists>bs. nd_Blockchain n' = nd_Blockchain n @ map Some bs \<and> length bs \<le> 1"
  by (rule node_step_appends[OF ninv.inv_reach[OF assms(1)] assms(2)])

theorem chain_append_only_witness:
  "\<exists>n n' bs. node_step demo_env n n' \<and> nd_Blockchain n' = nd_Blockchain n @ map Some bs \<and> length bs \<le> 1"
proof -
  obtain n where n: "reach (node_start demo_env) (node_step demo_env) n" by (rule demo_node_exists)
  have step: "node_step demo_env n (fst (Gossip (\<lambda>_. True) \<lparr>ga_Port = ''2'', ga_Peers = []\<rparr> n))"
    by (rule step_Gossip) (rule prod.collapse[symmetric])
  from chain_append_only[OF n step] step show ?thesis by blast
qed

text \<open>Side chains and orphans are never stored: in every reachable state both lists are empty, because
  the handler creates a cell for such a block but never adds it to a list.\<close>

theorem side_chains_never_stored:
  assumes "reach (node_start E) (node_step E) n"
  shows "nd_SideChains n = [] \<and> nd_OrphanChains n = []"
  using ninv.inv_reach[OF assms] by (simp add: node_inv_def)

theorem side_chains_never_stored_witness:
  "\<exists>n. reach (node_start demo_env) (node_step demo_env) n \<and> nd_SideChains n = [] \<and> nd_OrphanChains n = []"
proof -
  obtain n where n: "reach (node_start demo_env) (node_step demo_env) n" by (rule demo_node_exists)
  from side_chains_never_stored[OF n] n show ?thesis by blast
qed

text \<open>C35: A valid block that does not extend the tip of a reachable node is answered without an error and
  without a panic, and then forgotten: only the log and unreachable cells change, so the node never
  switches to another chain, however long.\<close>

theorem fork_block_has_no_effect:
  assumes "reach (node_start E) (node_step E) n" and "nd_Blockchain n = map Some bs"
    and "ValidateBlock E b = Ret None" and "b_PrevBlock b \<noteq> b_BlockHash (last bs)"
  shows "\<exists>h. SendBlock E b n = Ret (n\<lparr>nd_Log := nd_Log n @ [b], nd_heap := h\<rparr>, None)"
proof -
  let ?n = "n\<lparr>nd_Log := nd_Log n @ [b]\<rparr>"
  have "bs \<noteq> []" "nd_SideChains ?n = []" "nd_OrphanChains ?n = []" "nd_Blockchain ?n = map Some bs"
    using ninv.inv_reach[OF assms(1)] assms(2) by (auto simp: node_inv_def chain_ok_def)
  from place_block_ok[OF this(4,1) assms(4) this(2,3)] obtain h where "place_block b ?n = Ret (?n\<lparr>nd_heap := h\<rparr>)" by blast
  with assms \<open>bs \<noteq> []\<close> show ?thesis by (auto simp: SendBlock_def Let_def extends_main_map_Some)
qed

theorem fork_block_has_no_effect_witness:
  "\<exists>n b h. reach (node_start demo_env) (node_step demo_env) n \<and> ValidateBlock demo_env b = Ret None \<and>
     SendBlock demo_env b n = Ret (n\<lparr>nd_Log := nd_Log n @ [b], nd_heap := h\<rparr>, None)"
proof -
  let ?addr = "''ekZtvHY9XwiGbnzyVOvvMhCEDSE=''"
  obtain n g where n: "StartDRNode demo_env (\<lambda>_. False) (\<lambda>_. None) 0 ''1'' ?addr [] = Some (Ret n)"
    and g: "GenerateGenesisBlock demo_env = Some (Ret g)" "nd_Blockchain n = [Some g]"
    by (rule StartDRNode_alone[OF demo_scrypt_ok demo_pow_solvable])
  have reach: "reach (node_start demo_env) (node_step demo_env) n"
    by (rule reach_StartDRNode[OF n])
  have "length (fst (DecodeString ?addr)) = PKHASH_NUM_BYTES" by code_simp
  then obtain b where b: "GenerateBlock demo_env 0 [1] [] ?addr = Some (Ret b)"
    using GenerateBlock_returns[OF demo_scrypt_ok demo_pow_solvable, of "[]" ?addr 0 "[1]"] by auto
  then have "b_PrevBlock b = [1]" by (rule GenerateBlock_Ret)
  moreover have "length (b_BlockHash g) = HASH_NUM_BYTES"
    using GenerateGenesisBlock_Ret(3)[OF demo_scrypt_ok g(1)] by (simp add: block_hash_def demo_scrypt_ok)
  ultimately have "length (b_PrevBlock b) \<noteq> length (b_BlockHash (last [g]))" by (simp add: HASH_NUM_BYTES_def)
  then have "b_PrevBlock b \<noteq> b_BlockHash (last [g])" by auto
  moreover have "ValidateBlock demo_env b = Ret None" using GenerateBlock_valid[OF b] by simp
  ultimately show ?thesis using fork_block_has_no_effect[OF reach, of "[g]" b] g(2) reach by auto
qed

text \<open>The pending transactions of a reachable node: each is stored under its own hash, has components of
  the nominal sizes and is marked as seen, and each hash is there once.\<close>

theorem reachable_pending_consistent:
  assumes "reach (node_start E) (node_step E) n"
  shows "distinct (map fst (nd_PendingTxs n)) \<and>
    (\<forall>s tn. go_get (nd_PendingTxs n) s = Some tn \<longrightarrow>
       tn_Hash tn = s \<and> map_go sl (Tx_Hash E (tn_Tx tn)) = Ret s \<and>
       validateComponents (tn_Tx tn) = None \<and> go_get (nd_SeenTxs n) s \<noteq> None)"
  using ninv.inv_reach[OF assms] by (auto simp: node_inv_def pending_ok_def go_map_wf_def)

theorem reachable_pending_consistent_witness:
  "\<exists>n n' s tn. AppendTx demo_env (demo_grant 7 5) 3 n = Ret (n', Polling s []) \<and>
     go_get (nd_PendingTxs n') s = Some tn \<and> map_go sl (Tx_Hash demo_env (tn_Tx tn)) = Ret s"
proof -
  obtain n g where n: "StartDRNode demo_env (\<lambda>_. False) (\<lambda>_. None) 0 ''1'' ''2'' [] = Some (Ret n)" "nd_servers n = []"
    by (rule StartDRNode_alone[OF demo_scrypt_ok demo_pow_solvable])
  have seen: "nd_SeenTxs n = []"
    using n(1) by (auto simp: StartDRNode_def bootstrap_def new_node_def go_simps)
  then obtain n' s where n': "AppendTx demo_env (demo_grant 7 5) 3 n = Ret (n', Polling s [])" "go_get (nd_PendingTxs n') s \<noteq> None"
    using n(2) by (auto simp: AppendTx_def Tx_Hash_layout Let_def)
  have "reach (node_start demo_env) (node_step demo_env) n"
    by (rule reach_StartDRNode[OF n(1)])
  then have "reach (node_start demo_env) (node_step demo_env) n'"
    using step_AppendTx[OF n'(1)] by (rule reach_step)
  from reachable_pending_consistent[OF this] n' show ?thesis by blast
qed

text \<open>The channel on which gossip replies are to arrive is never created: in every reachable state both
  sending to it and receiving from it block forever, so that replies are never merged.\<close>

theorem gossip_replies_never_arrive:
  assumes "reach (node_start E) (node_step E) n"
  shows "gossip_send reply n = None \<and> gossip_receive dial n = None"
  using ninv.inv_reach[OF assms] by (simp add: node_inv_def gossip_send_def gossip_receive_def)

theorem gossip_replies_never_arrive_witness:
  "\<exists>n. reach (node_start demo_env) (node_step demo_env) n \<and> gossip_receive (\<lambda>_. True) n = None"
proof -
  obtain n where n: "reach (node_start demo_env) (node_step demo_env) n" by (rule demo_node_exists)
  from gossip_replies_never_arrive[OF n] n show ?thesis by blast
qed

end
