(* ===== verification/Peers.thy ===== *)
theory Peers
  imports NodeInv
begin

text \<open>
  Peer lists.  \<^verbatim>\<open>DRNode.merge\<close> and \<^verbatim>\<open>Clerk.Merge\<close> share their loop: skip what is known or cannot be
  dialled, append the rest to two lists in step.  The locale \<open>peer_table\<close> states what the loop does to
  an arbitrary state and proves its effect once; it is interpreted here for the node (which also skips
  its own port) and in theory \<open>Clerk\<close> for the clerk.  The second part shows that a node started with a
  duplicate-free list that does not contain its own port keeps it so (\<open>peers_ok\<close>).
\<close>

locale peer_table =
  fixes ports :: "'s \<Rightarrow> string list"
    and servers :: "'s \<Rightarrow> string list"
    and skip :: "string \<Rightarrow> 's \<Rightarrow> bool"
    and add :: "string \<Rightarrow> 's \<Rightarrow> 's"
    and merge :: "(string \<Rightarrow> bool) \<Rightarrow> string list \<Rightarrow> 's \<Rightarrow> 's"
  assumes merge_Nil: "merge dial [] s = s"
    and merge_Cons: "merge dial (p # ps) s =
      merge dial ps (if skip p s \<or> p \<in> set (ports s) \<or> \<not> dial p then s else add p s)"
    and ports_add: "ports (add p s) = ports s @ [p]"
    and servers_add: "servers (add p s) = servers s @ [p]"
    and skip_add: "skip q (add p s) = skip q s"
begin

lemmas table_simps = merge_Nil merge_Cons ports_add servers_add skip_add

lemma skip_merge: "skip q (merge dial ps s) = skip q s"
  by (induction ps arbitrary: s) (simp_all add: table_simps)

lemma set_ports_merge: "set (ports (merge dial ps s)) = set (ports s) \<union> {p \<in> set ps. dial p \<and> \<not> skip p s}"
  by (induction ps arbitrary: s) (auto simp: table_simps)

lemma distinct_ports_merge: "distinct (ports s) \<Longrightarrow> distinct (ports (merge dial ps s))"
  by (induction ps arbitrary: s) (auto simp: table_simps)

lemma servers_merge: "servers s = ports s \<Longrightarrow> servers (merge dial ps s) = ports (merge dial ps s)"
  by (induction ps arbitrary: s) (auto simp: table_simps)

lemma ports_merge_prefix: "\<exists>new. ports (merge dial ps s) = ports s @ new"
proof (induction ps arbitrary: s)
  case Nil
  then show ?case by (simp add: table_simps)
next
  case (Cons p ps)
  obtain new where "ports (merge dial (p # ps) s) = ports (if skip p s \<or> p \<in> set (ports s) \<or> \<not> dial p then s else add p s) @ new"
    using Cons.IH by (metis merge_Cons)
  then show ?case by (auto simp: table_simps)
qed

lemma merge_known: "\<forall>p \<in> set ps. dial p \<longrightarrow> skip p s \<or> p \<in> set (ports s) \<Longrightarrow> merge dial ps s = s"
  by (induction ps) (auto simp: table_simps)

lemma merge_idem: "merge dial ps (merge dial ps s) = merge dial ps s"
  by (rule merge_known) (auto simp: set_ports_merge skip_merge)

end

definition add_peer :: "string \<Rightarrow> DRNode \<Rightarrow> DRNode" where
  "add_peer port n = n\<lparr>nd_servers := nd_servers n @ [port], nd_ports := nd_ports n @ [port]\<rparr>"

interpretation np: peer_table nd_ports nd_servers "\<lambda>p n. p = nd_port n" add_peer merge
  by unfold_locales (auto simp: add_peer_def)

subsection \<open>The peers of a reachable node\<close>

text \<open>Start-up with a list of different servers, none of which is the node itself.\<close>

definition node_start_apart :: "env \<Rightarrow> DRNode \<Rightarrow> bool" where
  "node_start_apart E n \<longleftrightarrow>
     (\<exists>dial ask me port pubHash servers. StartDRNode E dial ask me port pubHash servers = Some (Ret n) \<and>
        distinct servers \<and> port \<notin> set servers)"

lemma peers_ok_merge: "peers_ok n \<Longrightarrow> peers_ok (merge dial ps n)"
  by (simp add: peers_ok_def np.servers_merge np.distinct_ports_merge np.set_ports_merge)

lemma peers_ok_frame:
  "peers_ok n \<Longrightarrow> nd_servers n' = nd_servers n \<Longrightarrow> nd_ports n' = nd_ports n \<Longrightarrow> nd_port n' = nd_port n \<Longrightarrow> peers_ok n'"
  by (simp add: peers_ok_def)

lemma SendBlock_peers:
  assumes "node_inv E n" and "SendBlock E b n = Ret (n', err)"
  shows "nd_servers n' = nd_servers n" "nd_ports n' = nd_ports n" "nd_port n' = nd_port n"
proof -
  obtain bs where bs: "nd_Blockchain n = map Some bs" "bs \<noteq> []" "nd_SideChains n = []" "nd_OrphanChains n = []"
    using assms(1) by (rule node_invE)
  from assms(2) bs show "nd_servers n' = nd_servers n" "nd_ports n' = nd_ports n" "nd_port n' = nd_port n"
    by (cases rule: SendBlock_cases; simp)+
qed

lemma peers_ok_step:
  assumes "node_inv E n" and "peers_ok n" and "node_step E n n'"
  shows "peers_ok n'"
  using assms(3)
proof (cases rule: node_step.cases)
  case (step_SendBlock b err)
  then show ?thesis using SendBlock_peers[OF assms(1)] by (intro peers_ok_frame[OF assms(2)]) auto
next
  case (step_mine ord now msgs)
  obtain bs where "nd_Blockchain n = map Some bs" "bs \<noteq> []" using assms(1) by (rule node_invE)
  from step_mine(2) this show ?thesis by (cases rule: mine_cases) (auto intro: peers_ok_frame[OF assms(2)])
next
  case (step_poll s res)
  then show ?thesis by (rule AppendTx_poll_Ret) (auto intro: peers_ok_frame[OF assms(2)])
next
  case (step_Gossip dial args reply)
  then show ?thesis using peers_ok_merge[OF assms(2)] by (auto simp: Gossip_def Let_def split: if_splits)
next
  case (step_gossip_receive dial)
  then show ?thesis using assms(1) by (auto simp: gossip_receive_def node_inv_def)
qed (auto simp: AppendTx_def go_simps Let_def gossip_send_def Kill_def split: if_splits intro: peers_ok_frame[OF assms(2)])

lemma replayLog_peers:
  assumes "node_inv E n" and "replayLog E n = Ret n'"
  shows "nd_servers n' = nd_servers n \<and> nd_ports n' = nd_ports n \<and> nd_port n' = nd_port n"
proof -
  have "node_inv E n' \<and> nd_servers n' = nd_servers n \<and> nd_ports n' = nd_ports n \<and> nd_port n' = nd_port n"
    using assms(2) unfolding replayLog_def
    by (rule fold_go_invariant) (use assms(1) node_inv_SendBlock SendBlock_peers in \<open>auto simp: go_simps\<close>)
  then show ?thesis by blast
qed

lemma connect_servers_peers:
  assumes "connect_servers E dial ask ss n = Ret n'" and "node_inv E n" and "peers_ok n"
    and "distinct ss" and "nd_port n \<notin> set ss" and "set ss \<inter> set (nd_ports n) = {}"
  shows "peers_ok n'"
  using assms
proof (induction ss arbitrary: n)
  case Nil
  then show ?case by simp
next
  case (Cons s ss)
  show ?case
  proof (cases "dial s")
    case False
    with Cons show ?thesis by simp
  next
    case True
    let ?n = "add_peer s n"
    obtain n1 where n1: "connect_servers E dial ask ss n1 = Ret n'"
      and got: "(if length (nd_Blockchain ?n) = 1 then (case ask s of None \<Rightarrow> Ret ?n
        | Some log \<Rightarrow> replayLog E (?n\<lparr>nd_Log := log\<rparr>)) else Ret ?n) = Ret n1"
      using True Cons.prems(1) unfolding add_peer_def by (auto simp: Let_def bind_go_eq_Ret simp del: One_nat_def)
    have inv: "node_inv E ?n" using Cons.prems(2) by (rule node_inv_frame) (auto simp: add_peer_def)
    have invlog: "node_inv E (?n\<lparr>nd_Log := log\<rparr>)" if len: "length (nd_Blockchain ?n) = 1" for log
      using node_inv_short_log[OF inv len] .
    have "n1 = ?n \<or> (length (nd_Blockchain ?n) = 1 \<and> (\<exists>log. replayLog E (?n\<lparr>nd_Log := log\<rparr>) = Ret n1))"
      using got by (auto split: if_splits option.splits)
    then have "node_inv E n1 \<and> nd_servers n1 = nd_servers ?n \<and> nd_ports n1 = nd_ports ?n \<and> nd_port n1 = nd_port ?n"
    proof
      assume "n1 = ?n"
      with inv show ?thesis by simp
    next
      assume "length (nd_Blockchain ?n) = 1 \<and> (\<exists>log. replayLog E (?n\<lparr>nd_Log := log\<rparr>) = Ret n1)"
      then obtain log where "length (nd_Blockchain ?n) = 1" and log: "replayLog E (?n\<lparr>nd_Log := log\<rparr>) = Ret n1" by blast
      then show ?thesis using node_inv_replayLog[OF invlog log] replayLog_peers[OF invlog log] by simp
    qed
    moreover from this have "peers_ok n1" using Cons.prems(3,5,6) by (auto simp: peers_ok_def add_peer_def)
    ultimately show ?thesis using n1 Cons.prems(4,5,6) by (intro Cons.IH[of n1]) (auto simp: add_peer_def)
  qed
qed

lemma peers_ok_start:
  assumes "node_start_apart E n"
  shows "peers_ok n"
proof -
  obtain dial ask me port pubHash ss n0 where n0: "bootstrap E (new_node me port pubHash) = Some (Ret n0)"
      "connect_servers E dial ask ss n0 = Ret n" "distinct ss" "port \<notin> set ss"
    using assms by (auto simp: node_start_apart_def StartDRNode_def go_simps)
  have "nd_ports n0 = []" "nd_servers n0 = []" "nd_port n0 = port"
    using n0(1) by (auto simp: bootstrap_def new_node_def go_simps)
  then show ?thesis
    using n0(3,4) by (intro connect_servers_peers[OF n0(2) bootstrap_inv[OF n0(1)]]) (simp_all add: peers_ok_def)
qed

interpretation pinv: invariant_system "node_start_apart E" "node_step E" "\<lambda>n. node_inv E n \<and> peers_ok n" for E
proof
  fix n assume "node_start_apart E n"
  moreover from this have "node_start E n" unfolding node_start_apart_def node_start_def by blast
  ultimately show "node_inv E n \<and> peers_ok n" using peers_ok_start node_inv_start by blast
qed (auto intro: node_inv_step peers_ok_step)

subsection \<open>Properties\<close>

text \<open>C27: The peer list of a node that was started with different servers, none of them itself: after any
  steps it has no duplicates, never the node's own port, and the connections match the ports one by one.\<close>

theorem reachable_peers_distinct:
  assumes "reach (node_start_apart E) (node_step E) n"
  shows "distinct (nd_ports n) \<and> nd_port n \<notin> set (nd_ports n) \<and> nd_servers n = nd_ports n"
  using pinv.inv_reach[OF assms] by (simp add: peers_ok_def)

theorem reachable_peers_distinct_witness:
  "\<exists>n n'. reach (node_start_apart demo_env) (node_step demo_env) n \<and>
     n' = fst (Gossip (\<lambda>_. True) \<lparr>ga_Port = ''2'', ga_Peers = [''1'', ''3'', ''2'']\<rparr> n) \<and> distinct (nd_ports n')"
proof -
  obtain n g where n: "StartDRNode demo_env (\<lambda>_. False) (\<lambda>_. None) 0 ''1'' ''2'' [] = Some (Ret n)"
    by (rule StartDRNode_alone[OF demo_scrypt_ok demo_pow_solvable])
  have start: "reach (node_start_apart demo_env) (node_step demo_env) n"
    using n by (intro reach_init) (fastforce simp: node_start_apart_def)
  let ?n' = "fst (Gossip (\<lambda>_. True) \<lparr>ga_Port = ''2'', ga_Peers = [''1'', ''3'', ''2'']\<rparr> n)"
  have "node_step demo_env n ?n'" by (rule step_Gossip) (rule prod.collapse[symmetric])
  with start have "reach (node_start_apart demo_env) (node_step demo_env) ?n'" by (rule reach_step)
  then have "distinct (nd_ports ?n')" using reachable_peers_distinct by blast
  with start show ?thesis by blast
qed

text \<open>C28: \<^verbatim>\<open>Gossip\<close>: the node answers with the peers it knew before the call, and afterwards it knows exactly
  these and, of the caller and the caller's peers, those that can be dialled and are not the node itself;
  repeating the call changes nothing.\<close>

theorem Gossip_merges_peers:
  "Gossip dial args n = (n', reply) \<Longrightarrow>
     gr_Peers reply = nd_ports n \<and> gr_Port reply = nd_port n \<and>
     set (nd_ports n') = set (nd_ports n) \<union>
       {p \<in> set (ga_Peers args) \<union> (if ga_Port args = ''-1'' then {} else {ga_Port args}). dial p \<and> p \<noteq> nd_port n} \<and>
     fst (Gossip dial args n') = n'"
  by (auto simp: Gossip_def Let_def np.set_ports_merge np.merge_idem split: if_splits)

theorem Gossip_merges_peers_witness:
  "set (nd_ports (fst (Gossip (\<lambda>p. p \<noteq> ''9'') \<lparr>ga_Port = ''2'', ga_Peers = [''1'', ''3'', ''9'']\<rparr> (new_node 0 ''1'' ''2'')))) = {''2'', ''3''}"
  using Gossip_merges_peers[OF prod.collapse[symmetric], of "\<lambda>p. p \<noteq> ''9''" "\<lparr>ga_Port = ''2'', ga_Peers = [''1'', ''3'', ''9'']\<rparr>" "new_node 0 ''1'' ''2''"]
  by (auto simp: new_node_def)

end
