(* ===== verification/Clerk.thy ===== *)
theory Clerk
  imports Peers
begin

text \<open>
  \<^verbatim>\<open>src/clerk/clerk.go\<close>: the wallet that queries unspent outputs, builds and signs transactions and
  submits them to the nodes it knows.  Field names carry the prefix \<open>ck_\<close>; Go strings that hold raw
  bytes (contents, parents, destinations) are byte lists.

  An RPC is an oracle: \<open>net k i\<close> is the answer of server \<open>i\<close> to the \<open>k\<close>-th attempt, \<open>None\<close> for an error.
  The retry loop has no bound; \<open>rpc_loop\<close> is a partial function whose \<open>None\<close> means that it never ends.
  The four operations compute their transaction with \<open>transfer_tx\<close>, \<open>post_tx\<close>, \<open>comment_tx\<close> and \<open>upvote_tx\<close>,
  the part between the query and the submission; \<open>None\<close> is the early \<^verbatim>\<open>return false\<close>.
\<close>

record Clerk =
  ck_port :: string
  ck_ports :: "string list"
  ck_servers :: "string list"
  ck_clerkId :: int
  ck_current :: nat
  ck_privKey :: privkey
  ck_gossip :: "GossipReply list option"

text \<open>\<open>random\<close> is the random number drawn by \<^verbatim>\<open>nrand\<close>; the result is \<open>None\<close> for nil.\<close>

definition MakeClerk :: "env \<Rightarrow> (string \<Rightarrow> bool) \<Rightarrow> int \<Rightarrow> string \<Rightarrow> string \<Rightarrow> string list \<Rightarrow> Clerk option" where
  "MakeClerk E dial random port privKey servers =
     (let connected = filter dial servers;
          (pkBytes, err) = DecodeString privKey
      in if err then None
         else Some \<lparr>ck_port = port, ck_ports = connected, ck_servers = connected, ck_clerkId = random, ck_current = 0,
                    ck_privKey = PrivKeyFromBytes E pkBytes, ck_gossip = None\<rparr>)"

subsection \<open>Peers\<close>

fun Merge :: "(string \<Rightarrow> bool) \<Rightarrow> string list \<Rightarrow> Clerk \<Rightarrow> Clerk" where
  "Merge dial [] ck = ck"
| "Merge dial (port # newPeers) ck =
     (if port \<in> set (ck_ports ck) then Merge dial newPeers ck
      else if dial port
      then Merge dial newPeers (ck\<lparr>ck_servers := ck_servers ck @ [port], ck_ports := ck_ports ck @ [port]\<rparr>)
      else Merge dial newPeers ck)"

text \<open>The cases of the \<^verbatim>\<open>select\<close> in \<^verbatim>\<open>GossipProtocol\<close>; a nil channel blocks.\<close>

definition clerk_gossip_tick :: "Clerk \<Rightarrow> (string \<times> GossipArgs) list" where
  "clerk_gossip_tick ck = map (\<lambda>client. (client, \<lparr>ga_Port = ''-1'', ga_Peers = ck_ports ck\<rparr>)) (ck_servers ck)"

definition clerk_gossip_send :: "GossipReply \<Rightarrow> Clerk \<Rightarrow> Clerk option" where
  "clerk_gossip_send reply ck = map_option (\<lambda>q. ck\<lparr>ck_gossip := Some (q @ [reply])\<rparr>) (ck_gossip ck)"

definition clerk_gossip_receive :: "(string \<Rightarrow> bool) \<Rightarrow> Clerk \<Rightarrow> Clerk option" where
  "clerk_gossip_receive dial ck =
     (case ck_gossip ck of
        Some (reply # q) \<Rightarrow> Some (Merge dial (gr_Peers reply @ [gr_Port reply]) (ck\<lparr>ck_gossip := Some q\<rparr>))
      | _ \<Rightarrow> None)"

subsection \<open>Calling a node\<close>

partial_function (option) rpc_loop :: "(nat \<Rightarrow> nat \<Rightarrow> 'r option) \<Rightarrow> nat \<Rightarrow> nat \<Rightarrow> nat \<Rightarrow> 'r go option" where
  "rpc_loop net nservers k current =
     (if current < nservers then
        (case net k current of
           Some reply \<Rightarrow> Some (Ret reply)
         | None \<Rightarrow> rpc_loop net nservers (k + 1) ((current + 1) mod nservers))
      else Some (Panic IndexOutOfRange))"

declare rpc_loop.simps [code]

type_synonym utxo_net = "nat \<Rightarrow> nat \<Rightarrow> (UnspentTx list \<times> bool) option"
type_synonym append_net = "Transaction \<Rightarrow> nat \<Rightarrow> nat \<Rightarrow> bool option"

definition QueryUtxo :: "utxo_net \<Rightarrow> Clerk \<Rightarrow> (UnspentTx list \<times> bool) go option" where
  "QueryUtxo net ck =
     map_option (\<lambda>r. bind_go r (\<lambda>(unspentTxs, replySuccess).
       Ret (unspentTxs, replySuccess \<and> length unspentTxs \<noteq> 0)))
       (rpc_loop net (length (ck_servers ck)) 0 (ck_current ck))"

text \<open>The loop at the end of each operation.\<close>

definition submit :: "append_net \<Rightarrow> Clerk \<Rightarrow> Transaction \<Rightarrow> bool go option" where
  "submit net ck tx = rpc_loop (net tx) (length (ck_servers ck)) 0 (ck_current ck)"

subsection \<open>Building and signing\<close>

definition SignTx :: "env \<Rightarrow> privkey \<Rightarrow> Transaction \<Rightarrow> Transaction go" where
  "SignTx E privKey tx =
     bind_go (HashNoSig E tx) (\<lambda>res.
       case res of
         Inl err \<Rightarrow> Ret tx
       | Inr txHashNoSig \<Rightarrow> (case Sign E privKey (sl txHashNoSig) of
             None \<Rightarrow> Ret tx
           | Some sig \<Rightarrow> Ret (tx\<lparr>tx_TxIns := map_option (map (\<lambda>txIn. txIn\<lparr>ti_Sig := Serialize E sig\<rparr>)) (tx_TxIns tx)\<rparr>)))"

definition clerk_pubkey :: "env \<Rightarrow> privkey \<Rightarrow> bytes" where
  "clerk_pubkey E priv = SerializeCompressed E (PubKey E priv)"

definition pubkeyHash :: "env \<Rightarrow> privkey \<Rightarrow> bytes" where
  "pubkeyHash E priv = sl (PKHash E (clerk_pubkey E priv))"

definition spend_input :: "bytes \<Rightarrow> UnspentTx \<Rightarrow> TxIn" where
  "spend_input pub utx = \<lparr>ti_PrevTxHash = ut_TxHash utx, ti_PrevTxOutIndex = ut_TxOutIndex utx, ti_Sig = [], ti_PubKey = pub\<rparr>"

text \<open>\<^verbatim>\<open>for _, utx := range unspentTxs\<close>: add inputs until their sum exceeds \<open>limit\<close>.\<close>

fun select_inputs :: "bytes \<Rightarrow> u32 \<Rightarrow> UnspentTx list \<Rightarrow> u32 \<Rightarrow> TxIn list \<Rightarrow> u32 \<times> TxIn list" where
  "select_inputs pub limit [] inputSum txIns = (inputSum, txIns)"
| "select_inputs pub limit (utx # rest) inputSum txIns =
     (let inputSum = inputSum + ut_Value utx; txIns = txIns @ [spend_input pub utx]
      in if inputSum > limit then (inputSum, txIns) else select_inputs pub limit rest inputSum txIns)"

definition transfer_tx :: "env \<Rightarrow> privkey \<Rightarrow> UnspentTx list \<Rightarrow> bytes \<Rightarrow> u32 \<Rightarrow> Transaction option go" where
  "transfer_tx E priv unspentTxs destination val =
     (if val = 0 then Ret None
      else let txFee = word_of_nat TX_FEE;
               (inputSum, txIns) = select_inputs (clerk_pubkey E priv) (val + txFee) unspentTxs 0 []
           in if inputSum < val + txFee then Ret None
              else let ptsTx = \<lparr>to_Value = inputSum - txFee - val, to_PubKeyHash = pubkeyHash E priv\<rparr>;
                       recTx = \<lparr>to_Value = val, to_PubKeyHash = destination\<rparr>
                   in bind_go (SignTx E priv \<lparr>tx_Type = TRANSFER, tx_TxIns = Some txIns, tx_TxOuts = [recTx, ptsTx],
                                              tx_Parent = None, tx_Content = None\<rparr>) (\<lambda>tx. Ret (Some tx)))"

definition post_tx :: "env \<Rightarrow> privkey \<Rightarrow> UnspentTx list \<Rightarrow> bytes \<Rightarrow> Transaction go" where
  "post_tx E priv unspentTxs content =
     bind_go (go_nth unspentTxs 0) (\<lambda>utx.
       SignTx E priv \<lparr>tx_Type = POST, tx_TxIns = Some [spend_input (clerk_pubkey E priv) utx],
         tx_TxOuts = [\<lparr>to_Value = ut_Value utx - word_of_nat TX_FEE, to_PubKeyHash = pubkeyHash E priv\<rparr>],
         tx_Parent = None, tx_Content = Some content\<rparr>)"

definition comment_tx :: "env \<Rightarrow> privkey \<Rightarrow> UnspentTx list \<Rightarrow> bytes \<Rightarrow> bytes \<Rightarrow> Transaction go" where
  "comment_tx E priv unspentTxs parent content =
     bind_go (go_nth unspentTxs 0) (\<lambda>utx.
       SignTx E priv \<lparr>tx_Type = COMMENT, tx_TxIns = Some [spend_input (clerk_pubkey E priv) utx],
         tx_TxOuts = [\<lparr>to_Value = ut_Value utx - word_of_nat TX_FEE, to_PubKeyHash = pubkeyHash E priv\<rparr>],
         tx_Parent = Some parent, tx_Content = Some content\<rparr>)"

definition upvote_tx :: "env \<Rightarrow> privkey \<Rightarrow> UnspentTx list \<Rightarrow> bytes \<Rightarrow> bytes \<Rightarrow> Transaction option go" where
  "upvote_tx E priv unspentTxs parent destination =
     (let txFee = word_of_nat TX_FEE; upvote = word_of_nat TX_UPVOTE;
          (inputSum, txIns) = select_inputs (clerk_pubkey E priv) (upvote + txFee) unspentTxs 0 []
      in if inputSum < upvote + txFee then Ret None
         else let ptsTx = \<lparr>to_Value = inputSum - txFee - upvote, to_PubKeyHash = pubkeyHash E priv\<rparr>;
                  upvTx = \<lparr>to_Value = upvote, to_PubKeyHash = destination\<rparr>
              in bind_go (SignTx E priv \<lparr>tx_Type = UPVOTE, tx_TxIns = Some txIns, tx_TxOuts = [upvTx, ptsTx],
                                         tx_Parent = Some parent, tx_Content = None\<rparr>) (\<lambda>tx. Ret (Some tx)))"

subsection \<open>The operations\<close>

text \<open>The common frame: query, build, submit.\<close>

definition clerk_op :: "utxo_net \<Rightarrow> append_net \<Rightarrow> Clerk \<Rightarrow> (UnspentTx list \<Rightarrow> Transaction option go) \<Rightarrow> bool go option" where
  "clerk_op unet anet ck build =
     (case QueryUtxo unet ck of
        None \<Rightarrow> None
      | Some (Panic p) \<Rightarrow> Some (Panic p)
      | Some (Ret (unspentTxs, succ)) \<Rightarrow>
          (if \<not> succ then Some (Ret False)
           else (case build unspentTxs of
               Panic p \<Rightarrow> Some (Panic p)
             | Ret None \<Rightarrow> Some (Ret False)
             | Ret (Some tx) \<Rightarrow> submit anet ck tx)))"

definition Transfer :: "env \<Rightarrow> utxo_net \<Rightarrow> append_net \<Rightarrow> Clerk \<Rightarrow> bytes \<Rightarrow> u32 \<Rightarrow> bool go option" where
  "Transfer E unet anet ck destination val =
     clerk_op unet anet ck (\<lambda>unspentTxs. transfer_tx E (ck_privKey ck) unspentTxs destination val)"

definition Post :: "env \<Rightarrow> utxo_net \<Rightarrow> append_net \<Rightarrow> Clerk \<Rightarrow> bytes \<Rightarrow> bool go option" where
  "Post E unet anet ck content =
     clerk_op unet anet ck (\<lambda>unspentTxs. bind_go (post_tx E (ck_privKey ck) unspentTxs content) (\<lambda>tx. Ret (Some tx)))"

definition Comment :: "env \<Rightarrow> utxo_net \<Rightarrow> append_net \<Rightarrow> Clerk \<Rightarrow> bytes \<Rightarrow> bytes \<Rightarrow> bool go option" where
  "Comment E unet anet ck parent content =
     clerk_op unet anet ck (\<lambda>unspentTxs. bind_go (comment_tx E (ck_privKey ck) unspentTxs parent content) (\<lambda>tx. Ret (Some tx)))"

definition Upvote :: "env \<Rightarrow> utxo_net \<Rightarrow> append_net \<Rightarrow> Clerk \<Rightarrow> bytes \<Rightarrow> bytes \<Rightarrow> bool go option" where
  "Upvote E unet anet ck parent destination =
     clerk_op unet anet ck (\<lambda>unspentTxs. upvote_tx E (ck_privKey ck) unspentTxs parent destination)"

subsection \<open>The clerk's peer list\<close>

interpretation cp: peer_table ck_ports ck_servers "\<lambda>p ck. False"
  "\<lambda>p ck. ck\<lparr>ck_servers := ck_servers ck @ [p], ck_ports := ck_ports ck @ [p]\<rparr>" Merge
  by unfold_locales auto

subsection \<open>The retry loop\<close>

lemma rpc_loop_first:
  assumes "current < N" and "\<forall>j < k. net (a + j) ((current + j) mod N) = None" and "net (a + k) ((current + k) mod N) = Some r"
  shows "rpc_loop net N a current = Some (Ret r)"
  using assms
proof (induction k arbitrary: a current)
  case 0
  then show ?case by (subst rpc_loop.simps) simp
next
  case (Suc k)
  have "net a current = None" using Suc.prems(1,2) by (auto dest: spec[of _ 0])
  then have "rpc_loop net N a current = rpc_loop net N (a + 1) ((current + 1) mod N)"
    using Suc.prems(1) by (subst rpc_loop.simps) simp
  also have "\<dots> = Some (Ret r)"
  proof (rule Suc.IH)
    show "(current + 1) mod N < N" using Suc.prems(1) by simp
    show "\<forall>j < k. net (a + 1 + j) (((current + 1) mod N + j) mod N) = None"
    proof (intro allI impI)
      fix j assume "j < k"
      then have "net (a + Suc j) ((current + Suc j) mod N) = None" using Suc.prems(2) by blast
      then show "net (a + 1 + j) (((current + 1) mod N + j) mod N) = None" by (simp add: mod_add_left_eq)
    qed
    show "net (a + 1 + k) (((current + 1) mod N + k) mod N) = Some r" using Suc.prems(3) by (simp add: mod_add_left_eq)
  qed
  finally show ?case .
qed

lemma rpc_loop_silent:
  assumes "current < N" and "\<forall>j. net (a + j) ((current + j) mod N) = None"
  shows "rpc_loop net N a current = None"
proof -
  have "\<forall>current. c = current \<longrightarrow> n = N \<longrightarrow> f = net \<longrightarrow> current < N \<longrightarrow> (\<forall>j. net (a + j) ((current + j) mod N) = None) \<longrightarrow> False"
    if "rpc_loop f n a c = Some x" for f n a c x
  proof (rule rpc_loop.raw_induct[OF _ that, of
      "\<lambda>f n a c x. \<forall>current. c = current \<longrightarrow> n = N \<longrightarrow> f = net \<longrightarrow> current < N \<longrightarrow> (\<forall>j. net (a + j) ((current + j) mod N) = None) \<longrightarrow> False"],
      intro allI impI)
    fix rec f n a c x current
    assume IH: "\<And>f n a c x. rec f n a c = Some x \<Longrightarrow>
        \<forall>current. c = current \<longrightarrow> n = N \<longrightarrow> f = net \<longrightarrow> current < N \<longrightarrow> (\<forall>j. net (a + j) ((current + j) mod N) = None) \<longrightarrow> False"
      and eq: "(if c < n then case f a c of None \<Rightarrow> rec f n (a + 1) ((c + 1) mod n) | Some reply \<Rightarrow> Some (Ret reply)
        else Some (Panic IndexOutOfRange)) = Some x"
      and h: "c = current" "n = N" "f = net" "current < N" and none: "\<forall>j. net (a + j) ((current + j) mod N) = None"
    have "net a c = None" using none[rule_format, of 0] h by simp
    with eq h have "rec net N (a + 1) ((c + 1) mod N) = Some x" by simp
    moreover have "\<forall>j. net (a + 1 + j) (((c + 1) mod N + j) mod N) = None"
    proof
      fix j show "net (a + 1 + j) (((c + 1) mod N + j) mod N) = None"
        using none[rule_format, of "Suc j"] h by (simp add: mod_add_left_eq)
    qed
    ultimately show False using IH h by (metis mod_less_divisor not_less_zero neq0_conv)
  qed
  with assms show ?thesis by (cases "rpc_loop net N a current") blast+
qed

subsection \<open>Choosing inputs\<close>

lemma select_inputs_prefix:
  "\<exists>n. n \<le> length us \<and> (us \<noteq> [] \<longrightarrow> n \<noteq> 0) \<and>
     select_inputs pub limit us s ins = (s + sum_list (map ut_Value (take n us)), ins @ map (spend_input pub) (take n us)) \<and>
     (n < length us \<longrightarrow> limit < s + sum_list (map ut_Value (take n us)))"
proof (induction us arbitrary: s ins)
  case Nil
  then show ?case by simp
next
  case (Cons u us)
  show ?case
  proof (cases "limit < s + ut_Value u")
    case True
    then show ?thesis by (intro exI[of _ 1]) (simp add: Let_def)
  next
    case False
    from Cons.IH[of "s + ut_Value u" "ins @ [spend_input pub u]"] obtain n where
      "n \<le> length us" "select_inputs pub limit us (s + ut_Value u) (ins @ [spend_input pub u]) =
         (s + ut_Value u + sum_list (map ut_Value (take n us)), (ins @ [spend_input pub u]) @ map (spend_input pub) (take n us))"
      "n < length us \<longrightarrow> limit < s + ut_Value u + sum_list (map ut_Value (take n us))" by blast
    with False show ?thesis by (intro exI[of _ "Suc n"]) (simp add: Let_def add.assoc)
  qed
qed

subsection \<open>Signing\<close>

lemma SignTx_ok:
  assumes "ecdsa_ok E" and "validateComponents tx = None"
  obtains s where "SignTx E priv tx = Ret (with_sigs (\<lambda>_. Serialize E s) tx)"
    and "ParseSignature E (Serialize E s) = Some s" and "Verify E s (sl (Hash E (tx_layout in_layout_nosig tx))) (PubKey E priv)"
proof -
  obtain s where "Sign E priv (sl (Hash E (tx_layout in_layout_nosig tx))) = Some s" "ParseSignature E (Serialize E s) = Some s"
      "Verify E s (sl (Hash E (tx_layout in_layout_nosig tx))) (PubKey E priv)"
    using assms(1) unfolding ecdsa_ok_def by blast
  with that[of s] show thesis by (simp add: SignTx_def HashNoSig_ok[OF assms(2)] with_sigs_def)
qed

lemma in_layout_nosig_Sig [simp]: "in_layout_nosig (t\<lparr>ti_Sig := s\<rparr>) = in_layout_nosig t"
  by (simp add: in_layout_nosig_def)

lemma tx_layout_nosig_with_sigs [simp]: "tx_layout in_layout_nosig (with_sigs f tx) = tx_layout in_layout_nosig tx"
  by (simp add: tx_layout_def with_sigs_def sl_map_option comp_def)

lemma with_sigs_simps [simp]:
  "tx_Type (with_sigs f tx) = tx_Type tx" "tx_TxOuts (with_sigs f tx) = tx_TxOuts tx" "tx_Parent (with_sigs f tx) = tx_Parent tx"
  "sl (tx_TxIns (with_sigs f tx)) = map (\<lambda>t. t\<lparr>ti_Sig := f t\<rparr>) (sl (tx_TxIns tx))"
  by (simp_all add: with_sigs_def sl_map_option)

lemma spend_input_simps [simp]:
  "ti_PrevTxHash (spend_input pub u) = ut_TxHash u" "ti_PrevTxOutIndex (spend_input pub u) = ut_TxOutIndex u"
  "ti_PubKey (spend_input pub u) = pub"
  by (simp_all add: spend_input_def)

text \<open>The clerk's coins, as a node reports them.\<close>

definition owned :: "env \<Rightarrow> UtxoDb \<Rightarrow> privkey \<Rightarrow> UnspentTx \<Rightarrow> bool" where
  "owned E db priv u \<longleftrightarrow> unspent db (ut_TxHash u, ut_TxOutIndex u) = Some (pubkeyHash E priv, ut_Value u) \<and>
     length (ut_TxHash u) = HASH_NUM_BYTES"

lemma signed_tx_accepted:
  assumes E: "ecdsa_ok E"
    and ins: "tx_TxIns tx = Some (map (spend_input (clerk_pubkey E priv)) us)" "us \<noteq> []" "\<forall>u \<in> set us. owned E db priv u"
    and outs: "tx_TxOuts tx \<noteq> []" "\<forall>out \<in> set (tx_TxOuts tx). length (to_PubKeyHash out) = PKHASH_NUM_BYTES"
    and val: "\<not> sum_list (map ut_Value us) + 1 < sum_list (map to_Value (tx_TxOuts tx))"
    and struct: "\<And>f. ValidateStructure E (with_sigs f tx) = Ret None" "\<And>f. parent_ok E chain (with_sigs f tx)"
  shows "\<exists>tx'. SignTx E priv tx = Ret tx' \<and> validateTransaction E db chain tx' = Ret None \<and> tx_TxOuts tx' = tx_TxOuts tx \<and>
    tx_Type tx' = tx_Type tx \<and> tx_inputs tx' = map (\<lambda>u. (ut_TxHash u, ut_TxOutIndex u)) us"
proof -
  have comps: "validateComponents tx = None" using ins outs by (auto simp: validateComponents_None owned_def)
  obtain s where s: "SignTx E priv tx = Ret (with_sigs (\<lambda>_. Serialize E s) tx)" "ParseSignature E (Serialize E s) = Some s"
      "Verify E s (sl (Hash E (tx_layout in_layout_nosig tx))) (PubKey E priv)"
    by (rule SignTx_ok[OF E comps])
  let ?tx = "with_sigs (\<lambda>_. Serialize E s) tx"
  have key: "ParsePubKey E (clerk_pubkey E priv) = Some (PubKey E priv)" using E by (simp add: ecdsa_ok_def clerk_pubkey_def)
  have "\<forall>t \<in> set (sl (tx_TxIns ?tx)). input_ok E db (sl (Hash E (tx_layout in_layout_nosig ?tx))) t"
    using ins s(2,3) key by (auto simp: input_ok_def outpoint_of_def owned_def verifySignature_def pubkeyHash_def)
  moreover have "map (input_value db) (sl (tx_TxIns ?tx)) = map ut_Value us"
    using ins by (auto simp: input_value_def outpoint_of_def owned_def)
  moreover have "sl (tx_TxIns ?tx) \<noteq> []" using ins(1,2) by simp
  ultimately have "tx_accepted E db chain ?tx"
    using comps outs(1) val struct by (simp add: tx_accepted_def del: with_sigs_simps(4))
  moreover have "tx_inputs ?tx = map (\<lambda>u. (ut_TxHash u, ut_TxOutIndex u)) us" using ins(1) by (simp add: tx_inputs_def)
  ultimately show ?thesis using s(1) by (simp add: validateTransaction_None)
qed

subsection \<open>The clerk's transactions are accepted\<close>

lemma fee_covered:
  fixes v :: u32
  assumes "v \<noteq> 0" and "v \<noteq> - 1"
  shows "\<not> v + 1 < v - 1"
proof -
  have "unat v < 2 ^ 32" using unsigned_less[of v] by simp
  moreover have "unat v \<noteq> 2 ^ 32 - 1"
  proof
    assume "unat v = 2 ^ 32 - 1"
    then have "word_of_nat (unat v) = (word_of_nat (2 ^ 32 - 1) :: u32)" by (rule arg_cong)
    with assms(2) show False by simp
  qed
  ultimately have "unat v + 1 < 2 ^ 32" by simp
  then have "unat (v + 1) = unat v + 1" by (simp add: unat_word_ariths)
  moreover have "unat (v - 1) = unat v - 1" using assms(1) by (simp add: unat_minus_one)
  ultimately show ?thesis by (simp add: word_less_nat_alt)
qed

lemma length_pubkeyHash: "scrypt_ok E \<Longrightarrow> length (pubkeyHash E priv) = PKHASH_NUM_BYTES"
  by (simp add: pubkeyHash_def)

lemma single_post_accepted:
  assumes E: "scrypt_ok E" "ecdsa_ok E" and u: "owned E db priv u" "ut_Value u \<noteq> 0" "ut_Value u \<noteq> - 1"
    and ty: "ty = POST \<and> parent = None \<or> ty = COMMENT \<and> parent \<noteq> None"
    and par: "\<And>f. parent_ok E chain (with_sigs f tx)"
    and tx: "tx = \<lparr>tx_Type = ty, tx_TxIns = Some [spend_input (clerk_pubkey E priv) u],
      tx_TxOuts = [\<lparr>to_Value = ut_Value u - word_of_nat TX_FEE, to_PubKeyHash = pubkeyHash E priv\<rparr>],
      tx_Parent = parent, tx_Content = content\<rparr>"
  shows "\<exists>tx'. SignTx E priv tx = Ret tx' \<and> validateTransaction E db chain tx' = Ret None \<and> tx_TxOuts tx' = tx_TxOuts tx \<and>
    tx_Type tx' = ty \<and> tx_inputs tx' = [(ut_TxHash u, ut_TxOutIndex u)]"
proof -
  have "ValidateStructure E (with_sigs f tx) = Ret None" for f
  proof -
    have "sl (tx_TxIns (with_sigs f tx)) = (spend_input (clerk_pubkey E priv) u)\<lparr>ti_Sig := f (spend_input (clerk_pubkey E priv) u)\<rparr> # []"
      by (simp add: tx)
    from ValidateStructure_Ret_None[OF this] show ?thesis using ty by (auto simp: tx tx_type_defs pubkeyHash_def)
  qed
  moreover have "\<not> ut_Value u + 1 < ut_Value u - word_of_nat TX_FEE" using fee_covered[OF u(2,3)] by (simp add: TX_FEE_def)
  ultimately show ?thesis
    using signed_tx_accepted[OF E(2), of tx priv "[u]" db chain] u(1) par length_pubkeyHash[OF E(1)] by (simp add: tx)
qed

lemma two_output_accepted:
  assumes E: "scrypt_ok E" "ecdsa_ok E" and us: "us \<noteq> []" "\<forall>u \<in> set us. owned E db priv u"
    and S: "S = sum_list (map ut_Value us)" "S \<noteq> 0" "S \<noteq> - 1" and dest: "length dest = PKHASH_NUM_BYTES"
    and ty: "ty = TRANSFER \<and> parent = None \<or> ty = UPVOTE \<and> parent \<noteq> None"
    and par: "\<And>f. parent_ok E chain (with_sigs f tx)"
    and tx: "tx = \<lparr>tx_Type = ty, tx_TxIns = Some (map (spend_input (clerk_pubkey E priv)) us),
      tx_TxOuts = [\<lparr>to_Value = val, to_PubKeyHash = dest\<rparr>, \<lparr>to_Value = S - 1 - val, to_PubKeyHash = pubkeyHash E priv\<rparr>],
      tx_Parent = parent, tx_Content = content\<rparr>"
  shows "\<exists>tx'. SignTx E priv tx = Ret tx' \<and> validateTransaction E db chain tx' = Ret None \<and> tx_TxOuts tx' = tx_TxOuts tx \<and>
    tx_Type tx' = ty \<and> tx_inputs tx' = map (\<lambda>u. (ut_TxHash u, ut_TxOutIndex u)) us"
proof -
  obtain u us' where us': "us = u # us'" using us(1) by (cases us) auto
  have "ValidateStructure E (with_sigs f tx) = Ret None" for f
  proof -
    have "sl (tx_TxIns (with_sigs f tx)) = (spend_input (clerk_pubkey E priv) u)\<lparr>ti_Sig := f (spend_input (clerk_pubkey E priv) u)\<rparr> #
        map (\<lambda>t. t\<lparr>ti_Sig := f t\<rparr>) (map (spend_input (clerk_pubkey E priv)) us')"
      by (simp add: tx us')
    from ValidateStructure_Ret_None[OF this] show ?thesis using ty by (auto simp: tx tx_type_defs pubkeyHash_def)
  qed
  moreover have "val + (S - 1 - val) = S - 1" by simp
  then have "\<not> sum_list (map ut_Value us) + 1 < sum_list (map to_Value (tx_TxOuts tx))"
    using fee_covered[OF S(2,3)] by (simp add: tx S(1))
  ultimately show ?thesis
    using signed_tx_accepted[OF E(2) _ us, of tx chain] par dest length_pubkeyHash[OF E(1)] by (simp add: tx)
qed

subsection \<open>Coins reported by a reachable node\<close>

lemma chain_coins_keys:
  assumes "scrypt_ok E" and "chain_coins E bs p \<noteq> None"
  shows "length (fst p) = HASH_NUM_BYTES"
proof -
  have "fold (tx_effect E) txs m p \<noteq> None \<Longrightarrow> (\<And>q. m q \<noteq> None \<Longrightarrow> length (fst q) = HASH_NUM_BYTES) \<Longrightarrow>
      length (fst p) = HASH_NUM_BYTES" for txs m
  proof (induction txs arbitrary: m)
    case Nil
    then show ?case by simp
  next
    case (Cons tx txs)
    have "length (fst q) = HASH_NUM_BYTES" if q: "tx_effect E tx m q \<noteq> None" for q
    proof (cases "Tx_Hash E tx")
      case (Panic e)
      with q show ?thesis using Cons.prems(2) by (simp add: tx_effect_def)
    next
      case (Ret h)
      have "m q \<noteq> None \<or> q \<in> fst ` set (tx_outputs (sl h) tx)"
        using q Ret by (auto simp: tx_effect_def apply_coins_def map_add_def restrict_map_def dest!: map_of_SomeD split: option.splits if_splits) force
      moreover have "length (fst q) = HASH_NUM_BYTES" if "q \<in> fst ` set (tx_outputs (sl h) tx)"
        using that Tx_Hash_Ret_Some[OF assms(1) Ret] by (auto simp: tx_outputs_def)
      ultimately show ?thesis using Cons.prems(2) by blast
    qed
    then show ?case using Cons.IH[of "tx_effect E tx m"] Cons.prems(1) by simp
  qed
  then show ?thesis using assms(2) by (auto simp: chain_coins_def)
qed

lemma GetUtxo_owned:
  assumes "reach (node_start E) (node_step E) n" and "scrypt_ok E" and "visits ord (nd_Utxo n)"
    and "u \<in> set (fst (GetUtxo ord (pubkeyHash E priv) n))"
  shows "owned E (nd_Utxo n) priv u"
proof -
  note inv = ninv.inv_reach[OF assms(1)]
  then obtain bs where bs: "nd_Blockchain n = map Some bs" by (rule node_invE)
  note coins = node_inv_coins[OF inv bs]
  have u: "unspent (nd_Utxo n) (ut_TxHash u, ut_TxOutIndex u) = Some (pubkeyHash E priv, ut_Value u)"
    using assms(4) GetUnspentTxs_set[OF conjunct1[OF coins] assms(3)] by (simp add: GetUtxo_def)
  moreover have "length (ut_TxHash u) = HASH_NUM_BYTES"
    using chain_coins_keys[OF assms(2), of bs "(ut_TxHash u, ut_TxOutIndex u)"] u coins by simp
  ultimately show ?thesis by (simp add: owned_def)
qed

lemma select_total:
  assumes "select_inputs pub limit us 0 [] = (S, ins)" and "us \<noteq> []" and "(\<Sum>u \<leftarrow> us. unat (ut_Value u)) + 1 < 2 ^ 32"
    and "unat limit \<le> (\<Sum>u \<leftarrow> us. unat (ut_Value u))" and "limit \<noteq> 0"
  obtains us' where "ins = map (spend_input pub) us'" and "us' \<noteq> []" and "set us' \<subseteq> set us" and "S = sum_list (map ut_Value us')"
    and "\<not> S < limit" and "S \<noteq> 0" and "S \<noteq> - 1"
proof -
  obtain n where n: "n \<le> length us" "n \<noteq> 0" "S = sum_list (map ut_Value (take n us))" "ins = map (spend_input pub) (take n us)"
      "n < length us \<longrightarrow> limit < S"
    using select_inputs_prefix[of us pub limit 0 "[]"] assms(1,2) by auto
  let ?v = "\<lambda>us. \<Sum>u \<leftarrow> us. unat (ut_Value u)"
  have split: "?v us = ?v (take n us) + ?v (drop n us)" by (metis append_take_drop_id map_append sum_list_append)
  then have bound: "?v (take n us) + 1 < 2 ^ 32" using assms(3) by linarith
  then have S: "unat S = ?v (take n us)" using unat_sum_list_bound[of ut_Value "take n us"] n(3) by simp
  have reached: "\<not> S < limit"
  proof (cases "n < length us")
    case True
    with n(5) show ?thesis by simp
  next
    case False
    with n(1) have "take n us = us" by simp
    with S assms(4) show ?thesis by (simp add: word_less_nat_alt)
  qed
  moreover have "S \<noteq> 0" using reached assms(5) word_gt_0 by blast
  moreover have "S \<noteq> - 1"
  proof
    assume "S = - 1"
    with S bound show False by (simp add: unsigned_minus_1_eq_mask mask_eq_exp_minus_1)
  qed
  ultimately show thesis using that[of "take n us"] n set_take_subset[of n us] assms(2) by simp
qed

subsection \<open>Concrete coins for evaluation\<close>

definition demo_coin :: UnspentTx where
  "demo_coin = \<lparr>ut_TxHash = demo_txid, ut_TxOutIndex = 0, ut_Value = 5\<rparr>"

definition demo_rich_db :: "u32 \<Rightarrow> UtxoDb" where
  "demo_rich_db v = \<lparr>ud_Entries = [(demo_txid, \<lparr>ue_outputs = [(0, \<lparr>uo_Spent = False, uo_PubKeyHash = demo_addr 7, uo_Value = v\<rparr>)]\<rparr>)]\<rparr>"

lemma demo_pubkeyHash: "pubkeyHash demo_env 7 = demo_addr 7" "clerk_pubkey demo_env 7 = [7]"
  by (simp_all add: pubkeyHash_def clerk_pubkey_def demo_addr_def demo_env_def)

lemma demo_owned: "owned demo_env (demo_rich_db v) 7 (demo_coin\<lparr>ut_Value := v\<rparr>)"
  by (simp add: owned_def demo_coin_def demo_rich_db_def unspent_def go_get_def demo_pubkeyHash HASH_NUM_BYTES_def)

text \<open>A chain whose only block holds a post by the demo key 7.\<close>

definition demo_parent_hash :: bytes where
  "demo_parent_hash = sl (Hash demo_env (tx_layout in_layout (demo_post 7 demo_txid 9)))"

definition demo_forum :: "Block option list" where
  "demo_forum = [Some (unmined demo_env [] [] 0 [demo_post 7 demo_txid 9])]"

lemma demo_forum_find: "findTxInBlockChain demo_env demo_parent_hash demo_forum = Ret (Some (demo_post 7 demo_txid 9))"
proof -
  have "Tx_Hash demo_env (demo_post 7 demo_txid 9) = Ret (Hash demo_env (tx_layout in_layout (demo_post 7 demo_txid 9)))"
    by (intro Tx_Hash_layout) simp
  then show ?thesis by (simp add: demo_forum_def demo_parent_hash_def)
qed

subsection \<open>Properties\<close>

text \<open>C29: The clerk's retry loop asks the servers in turn, starting with the current one, and returns the first
  answer; it never returns if and only if no attempt is ever answered.\<close>

theorem retry_round_robin:
  assumes "ck_current ck < length (ck_servers ck)"
  shows "(submit net ck tx = None) = (\<forall>k. net tx k ((ck_current ck + k) mod length (ck_servers ck)) = None) \<and>
    (\<forall>k r. net tx k ((ck_current ck + k) mod length (ck_servers ck)) = Some r \<longrightarrow>
       (\<forall>j < k. net tx j ((ck_current ck + j) mod length (ck_servers ck)) = None) \<longrightarrow> submit net ck tx = Some (Ret r))"
proof -
  let ?N = "length (ck_servers ck)"
  let ?ans = "\<lambda>k. net tx k ((ck_current ck + k) mod ?N)"
  have first: "submit net ck tx = Some (Ret r)" if "?ans k = Some r" "\<forall>j < k. ?ans j = None" for k r
    using rpc_loop_first[OF assms, of k "net tx" 0 r] that by (simp add: submit_def)
  show ?thesis
  proof (cases "\<forall>k. ?ans k = None")
    case True
    then show ?thesis using rpc_loop_silent[OF assms, of "net tx" 0] by (simp add: submit_def)
  next
    case False
    then obtain k where "?ans k \<noteq> None" "\<forall>j < k. ?ans j = None"
      using exists_least_iff[of "\<lambda>k. ?ans k \<noteq> None"] by blast
    then have "submit net ck tx \<noteq> None" using first by blast
    with False first show ?thesis by blast
  qed
qed

theorem retry_round_robin_witness:
  "submit (\<lambda>tx k i. if k = 4 then Some True else None)
     \<lparr>ck_port = [], ck_ports = [''1'', ''2''], ck_servers = [''1'', ''2''], ck_clerkId = 0, ck_current = 1, ck_privKey = 7, ck_gossip = None\<rparr>
     (demo_grant 7 5) = Some (Ret True)"
  using retry_round_robin[of "\<lparr>ck_port = [], ck_ports = [''1'', ''2''], ck_servers = [''1'', ''2''], ck_clerkId = 0, ck_current = 1,
      ck_privKey = 7, ck_gossip = None\<rparr>" "\<lambda>tx k i. if k = 4 then Some True else None" "demo_grant 7 5"]
  by auto



text \<open>A post built and signed by the clerk from its first coin is accepted by every node that has this
  coin, and gives the coin back minus the fee, unless the coin is worth 0 or \<open>2 ^ 32 - 1\<close>.\<close>

theorem clerk_post_accepted:
  assumes "scrypt_ok E" and "ecdsa_ok E" and "owned E db priv u" and "ut_Value u \<noteq> 0" and "ut_Value u \<noteq> - 1"
  shows "\<exists>tx. post_tx E priv (u # us) content = Ret tx \<and> validateTransaction E db chain tx = Ret None \<and>
    tx_TxOuts tx = [\<lparr>to_Value = ut_Value u - 1, to_PubKeyHash = pubkeyHash E priv\<rparr>] \<and>
    tx_inputs tx = [(ut_TxHash u, ut_TxOutIndex u)]"
  using single_post_accepted[OF assms, of POST None chain _ "Some content"]
  by (auto simp: post_tx_def go_nth_def TX_FEE_def parent_ok_def tx_type_defs)

theorem clerk_post_accepted_witness:
  "\<exists>tx. post_tx demo_env 7 [demo_coin\<lparr>ut_Value := 5\<rparr>] [104, 105] = Ret tx \<and>
     validateTransaction demo_env (demo_rich_db 5) [] tx = Ret None"
  using clerk_post_accepted[OF demo_scrypt_ok demo_ecdsa_ok demo_owned[of 5], of "[]" "[104, 105]" "[]"] by auto

text \<open>A comment built by the clerk is accepted by every node that has the clerk's first coin and whose
  chain holds the parent as a post or a comment.\<close>

theorem clerk_comment_accepted:
  assumes "scrypt_ok E" and "ecdsa_ok E" and "owned E db priv u" and "ut_Value u \<noteq> 0" and "ut_Value u \<noteq> - 1"
    and "findTxInBlockChain E parent chain = Ret (Some ptx)" and "tx_Type ptx = POST \<or> tx_Type ptx = COMMENT"
  shows "\<exists>tx. comment_tx E priv (u # us) parent content = Ret tx \<and> validateTransaction E db chain tx = Ret None"
  using single_post_accepted[OF assms(1-5), of COMMENT "Some parent" chain _ "Some content"] assms(6,7)
  by (auto simp: comment_tx_def go_nth_def TX_FEE_def parent_ok_def tx_type_defs)

theorem clerk_comment_accepted_witness:
  "\<exists>tx. comment_tx demo_env 7 [demo_coin\<lparr>ut_Value := 5\<rparr>] demo_parent_hash [104, 105] = Ret tx \<and>
     validateTransaction demo_env (demo_rich_db 5) demo_forum tx = Ret None"
  using clerk_comment_accepted[OF demo_scrypt_ok demo_ecdsa_ok demo_owned[of 5] _ _ demo_forum_find, of "[]" "[104, 105]"]
  by (auto simp: demo_post_def)

text \<open>C17: A transfer built by the clerk is accepted by every node that has the clerk's coins: when the coins
  cover the positive amount and the fee without overflow and the destination has 20 bytes, the
  transaction pays the amount to the destination and spends only coins of the clerk.\<close>

theorem clerk_transfer_accepted:
  assumes "scrypt_ok E" and "ecdsa_ok E" and "us \<noteq> []" and "\<forall>u \<in> set us. owned E db priv u"
    and "(\<Sum>u \<leftarrow> us. unat (ut_Value u)) + 1 < 2 ^ 32" and "val \<noteq> 0" and "unat val + 1 \<le> (\<Sum>u \<leftarrow> us. unat (ut_Value u))"
    and "length destination = 20"
  shows "\<exists>tx. transfer_tx E priv us destination val = Ret (Some tx) \<and> validateTransaction E db chain tx = Ret None \<and>
    hd (tx_TxOuts tx) = \<lparr>to_Value = val, to_PubKeyHash = destination\<rparr> \<and>
    set (tx_inputs tx) \<subseteq> (\<lambda>u. (ut_TxHash u, ut_TxOutIndex u)) ` set us"
proof -
  let ?limit = "val + word_of_nat TX_FEE"
  obtain S ins where sel: "select_inputs (clerk_pubkey E priv) ?limit us 0 [] = (S, ins)"
    by (cases "select_inputs (clerk_pubkey E priv) ?limit us 0 []")
  have lim: "unat ?limit = unat val + 1" using assms(5,7) by (simp add: TX_FEE_def unat_word_ariths)
  then have "?limit \<noteq> 0" by auto
  with lim obtain us' where us': "ins = map (spend_input (clerk_pubkey E priv)) us'" "us' \<noteq> []" "set us' \<subseteq> set us"
      "S = sum_list (map ut_Value us')" "\<not> S < ?limit" "S \<noteq> 0" "S \<noteq> - 1"
    using select_total[OF sel assms(3,5)] assms(7) by auto
  let ?tx = "\<lparr>tx_Type = TRANSFER, tx_TxIns = Some ins,
      tx_TxOuts = [\<lparr>to_Value = val, to_PubKeyHash = destination\<rparr>, \<lparr>to_Value = S - 1 - val, to_PubKeyHash = pubkeyHash E priv\<rparr>],
      tx_Parent = None, tx_Content = None\<rparr>"
  have "\<forall>u \<in> set us'. owned E db priv u" using us'(3) assms(4) by blast
  from two_output_accepted[OF assms(1,2) us'(2) this us'(4,6,7), of destination TRANSFER None chain ?tx val None]
  obtain tx' where tx': "SignTx E priv ?tx = Ret tx'" "validateTransaction E db chain tx' = Ret None" "tx_TxOuts tx' = tx_TxOuts ?tx"
      "tx_inputs tx' = map (\<lambda>u. (ut_TxHash u, ut_TxOutIndex u)) us'"
    using assms(8) us'(1) by (auto simp: parent_ok_def tx_type_defs PKHASH_NUM_BYTES_def)
  then show ?thesis using sel assms(6) us'(3,5) by (auto simp: transfer_tx_def Let_def TX_FEE_def)
qed

theorem clerk_transfer_accepted_witness:
  "\<exists>tx. transfer_tx demo_env 7 [demo_coin\<lparr>ut_Value := 5\<rparr>] (replicate 20 9) 3 = Ret (Some tx) \<and>
     validateTransaction demo_env (demo_rich_db 5) [] tx = Ret None"
  using clerk_transfer_accepted[OF demo_scrypt_ok demo_ecdsa_ok, of "[demo_coin\<lparr>ut_Value := 5\<rparr>]" "demo_rich_db 5" 7 3 "replicate 20 9" "[]"]
    demo_owned[of 5] by auto

text \<open>C18: An upvote built by the clerk is accepted by every node that has the clerk's coins and whose chain holds
  the parent as a post or comment of the destination: when the coins cover the 10 units and the fee.\<close>

theorem clerk_upvote_accepted:
  assumes "scrypt_ok E" and "ecdsa_ok E" and "us \<noteq> []" and "\<forall>u \<in> set us. owned E db priv u"
    and "(\<Sum>u \<leftarrow> us. unat (ut_Value u)) + 1 < 2 ^ 32" and "11 \<le> (\<Sum>u \<leftarrow> us. unat (ut_Value u))" and "length destination = 20"
    and "findTxInBlockChain E parent chain = Ret (Some ptx)" and "tx_Type ptx = POST \<or> tx_Type ptx = COMMENT"
    and "tx_TxOuts ptx = out # outs" and "to_PubKeyHash out = destination"
  shows "\<exists>tx. upvote_tx E priv us parent destination = Ret (Some tx) \<and> validateTransaction E db chain tx = Ret None \<and>
    hd (tx_TxOuts tx) = \<lparr>to_Value = 10, to_PubKeyHash = destination\<rparr>"
proof -
  let ?limit = "word_of_nat TX_UPVOTE + word_of_nat TX_FEE"
  have lim: "?limit = (11 :: u32)" by (simp add: TX_UPVOTE_def TX_FEE_def)
  obtain S ins where sel: "select_inputs (clerk_pubkey E priv) ?limit us 0 [] = (S, ins)"
    by (cases "select_inputs (clerk_pubkey E priv) ?limit us 0 []")
  obtain us' where us': "ins = map (spend_input (clerk_pubkey E priv)) us'" "us' \<noteq> []" "set us' \<subseteq> set us"
      "S = sum_list (map ut_Value us')" "\<not> S < ?limit" "S \<noteq> 0" "S \<noteq> - 1"
    using select_total[OF sel assms(3,5)] assms(6) lim by auto
  let ?tx = "\<lparr>tx_Type = UPVOTE, tx_TxIns = Some ins,
      tx_TxOuts = [\<lparr>to_Value = 10, to_PubKeyHash = destination\<rparr>, \<lparr>to_Value = S - 1 - 10, to_PubKeyHash = pubkeyHash E priv\<rparr>],
      tx_Parent = Some parent, tx_Content = None\<rparr>"
  have "\<forall>u \<in> set us'. owned E db priv u" using us'(3) assms(4) by blast
  from two_output_accepted[OF assms(1,2) us'(2) this us'(4,6,7), of destination UPVOTE "Some parent" chain ?tx 10 None]
  obtain tx' where tx': "SignTx E priv ?tx = Ret tx'" "validateTransaction E db chain tx' = Ret None" "tx_TxOuts tx' = tx_TxOuts ?tx"
    using assms(7-11) us'(1) by (auto simp: parent_ok_def tx_type_defs PKHASH_NUM_BYTES_def)
  then show ?thesis using sel us'(5) by (auto simp: upvote_tx_def Let_def TX_FEE_def TX_UPVOTE_def)
qed

theorem clerk_upvote_accepted_witness:
  "\<exists>tx. upvote_tx demo_env 7 [demo_coin\<lparr>ut_Value := 50\<rparr>] demo_parent_hash (demo_addr 7) = Ret (Some tx) \<and>
     validateTransaction demo_env (demo_rich_db 50) demo_forum tx = Ret None"
proof -
  have "length (demo_addr 7) = 20" by (simp add: demo_addr_def demo_scrypt_ok PKHASH_NUM_BYTES_def)
  moreover have "tx_TxOuts (demo_post 7 demo_txid 9) = \<lparr>to_Value = 9, to_PubKeyHash = demo_addr 7\<rparr> # []" "tx_Type (demo_post 7 demo_txid 9) = POST"
    by (simp_all add: demo_post_def)
  ultimately show ?thesis
    using clerk_upvote_accepted[OF demo_scrypt_ok demo_ecdsa_ok, of "[demo_coin\<lparr>ut_Value := 50\<rparr>]" "demo_rich_db 50" 7 "demo_addr 7", OF _ _ _ _ _ demo_forum_find]
      demo_owned[of 50] by auto
qed

text \<open>A transfer of \<open>2 ^ 32 - 1\<close> units creates them: amount plus fee wraps to zero, so the clerk takes any
  wallet as sufficient, and the outputs wrap back to less than the input, so the node accepts.\<close>

theorem transfer_overflow_accepted:
  "\<exists>tx. transfer_tx demo_env 7 [demo_coin\<lparr>ut_Value := 5\<rparr>] (replicate 20 9) (- 1) = Ret (Some tx) \<and>
     validateTransaction demo_env (demo_rich_db 5) [] tx = Ret None \<and>
     (\<Sum>out \<leftarrow> tx_TxOuts tx. unat (to_Value out)) > 2 ^ 31"
proof -
  let ?us = "[demo_coin\<lparr>ut_Value := 5\<rparr>]"
  let ?tx = "\<lparr>tx_Type = TRANSFER, tx_TxIns = Some (map (spend_input (clerk_pubkey demo_env 7)) ?us),
      tx_TxOuts = [\<lparr>to_Value = - 1, to_PubKeyHash = replicate 20 9\<rparr>, \<lparr>to_Value = 5 - 1 - (- 1), to_PubKeyHash = pubkeyHash demo_env 7\<rparr>],
      tx_Parent = None, tx_Content = None\<rparr>"
  have "\<exists>tx'. SignTx demo_env 7 ?tx = Ret tx' \<and> validateTransaction demo_env (demo_rich_db 5) [] tx' = Ret None \<and>
      tx_TxOuts tx' = tx_TxOuts ?tx \<and> tx_Type tx' = TRANSFER \<and> tx_inputs tx' = map (\<lambda>u. (ut_TxHash u, ut_TxOutIndex u)) ?us"
    by (rule two_output_accepted[OF demo_scrypt_ok demo_ecdsa_ok, where us = ?us and S = 5])
      (use demo_owned[of 5] in \<open>auto simp: parent_ok_def tx_type_defs PKHASH_NUM_BYTES_def\<close>)
  then obtain tx' where tx': "SignTx demo_env 7 ?tx = Ret tx'" "validateTransaction demo_env (demo_rich_db 5) [] tx' = Ret None"
      "tx_TxOuts tx' = tx_TxOuts ?tx" by blast
  have "transfer_tx demo_env 7 ?us (replicate 20 9) (- 1) = Ret (Some tx')"
    using tx'(1) by (simp add: transfer_tx_def Let_def TX_FEE_def)
  with tx' show ?thesis by (simp add: unsigned_minus_1_eq_mask mask_eq_exp_minus_1)
qed

end
