(* ===== verification/Consensus.thy ===== *)
theory Consensus
  imports NodeInv
begin

text \<open>
  What several nodes agree on.  The ledger of a node is its chain together with its UTXO database;
  \<open>same_ledger\<close> relates nodes that have the same one.  Received blocks act on it deterministically
  (\<open>SendBlock_agree\<close>), so nodes that receive the same blocks agree, a replayed log gives the ledger of the
  node it was taken from, and a mined block has the same effect at a peer as at the node that mined it.

  The locale \<open>settling_loop\<close> extends \<open>tx_loop\<close> with what the two loops over a block's transactions do to
  the waiting clients: the transactions they go through are reported as successful.
\<close>

definition same_ledger :: "DRNode \<Rightarrow> DRNode \<Rightarrow> bool" where
  "same_ledger n m \<longleftrightarrow> nd_Blockchain n = nd_Blockchain m \<and> nd_Utxo n = nd_Utxo m"

text \<open>Receiving a list of blocks, as \<^verbatim>\<open>replayLog\<close> does: errors are ignored.\<close>

definition receive_all :: "env \<Rightarrow> Block list \<Rightarrow> DRNode \<Rightarrow> DRNode go" where
  "receive_all E bs n = fold_go (\<lambda>b n. bind_go (SendBlock E b n) (\<lambda>(n, err). Ret n)) bs n"

lemma replayLog_receive_all: "replayLog E n = receive_all E (nd_Log n) n"
  by (simp add: replayLog_def receive_all_def)

lemma receive_all_simps [simp]:
  "receive_all E [] n = Ret n"
  "receive_all E (b # bs) n = bind_go (SendBlock E b n) (\<lambda>(n, err). receive_all E bs n)"
  by (auto simp: receive_all_def bind_go_assoc case_prod_unfold intro: bind_go_cong)

subsection \<open>Receiving a block is deterministic on the ledger\<close>

lemma accept_loop_returns:
  assumes "apply_txs E txs (nd_Utxo n) = Ret db"
  shows "\<exists>n'. fold_go (accept_tx E) txs n = Ret n'"
  using assms
proof (induction txs arbitrary: n)
  case Nil
  then show ?case by simp
next
  case (Cons tx txs)
  then obtain db1 where db1: "updateUtxoDb E tx (nd_Utxo n) = Ret db1" "apply_txs E txs db1 = Ret db"
    by (auto simp: apply_txs_def go_simps)
  then obtain h where "Tx_Hash E tx = Ret h" by (auto simp: updateUtxoDb_Ret)
  with db1(1) have "\<exists>n1. accept_tx E tx n = Ret n1 \<and> nd_Utxo n1 = db1"
    by (cases "tx_Type tx = COINBASE") (simp_all add: accept_tx_def)
  then obtain n1 where "accept_tx E tx n = Ret n1" "nd_Utxo n1 = db1" by blast
  with Cons.IH[of n1] db1(2) show ?case by simp
qed

lemma accept_block_returns:
  assumes "apply_txs E (b_Transactions b) (nd_Utxo n) = Ret db"
  shows "\<exists>n'. accept_block E b n = Ret n' \<and> nd_Blockchain n' = nd_Blockchain n @ [Some b] \<and> nd_Utxo n' = db"
proof -
  obtain n1 where "fold_go (accept_tx E) (b_Transactions b) (n\<lparr>nd_Blockchain := nd_Blockchain n @ [Some b]\<rparr>) = Ret n1"
    using accept_loop_returns[of E "b_Transactions b" "n\<lparr>nd_Blockchain := nd_Blockchain n @ [Some b]\<rparr>" db] assms by auto
  then obtain n' where n': "accept_block E b n = Ret n'" by (simp add: accept_block_def)
  then show ?thesis by (rule accept_block_Ret) (use assms n' in auto)
qed

lemma SendBlock_accepts:
  assumes "ValidateBlock E b = Ret None" and "extends_main b (nd_Blockchain m) = Ret True"
    and "validateBlockTxs E (nd_Utxo m) (nd_Blockchain m) b = Ret None"
    and "apply_txs E (b_Transactions b) (nd_Utxo m) = Ret db"
  shows "\<exists>m'. SendBlock E b m = Ret (m', None) \<and> nd_Blockchain m' = nd_Blockchain m @ [Some b] \<and> nd_Utxo m' = db"
proof -
  let ?m = "m\<lparr>nd_Log := nd_Log m @ [b]\<rparr>"
  obtain m' where "accept_block E b ?m = Ret m'" "nd_Blockchain m' = nd_Blockchain ?m @ [Some b]" "nd_Utxo m' = db"
    using accept_block_returns[of E b ?m db] assms(4) by auto
  with assms show ?thesis by (simp add: SendBlock_def)
qed

lemma SendBlock_agree:
  assumes "node_inv E n" and "node_inv E m" and "same_ledger n m" and "SendBlock E b n = Ret (n', err)"
  shows "\<exists>m'. SendBlock E b m = Ret (m', err) \<and> same_ledger n' m'"
proof -
  obtain bs where bs: "nd_Blockchain n = map Some bs" "bs \<noteq> []" "nd_SideChains n = []" "nd_OrphanChains n = []"
    using assms(1) by (rule node_invE)
  have m: "nd_Blockchain m = map Some bs" "nd_Utxo m = nd_Utxo n" "nd_SideChains m = []" "nd_OrphanChains m = []"
    using assms(2,3) bs(1) by (auto simp: same_ledger_def node_inv_def)
  have ext: "extends_main b (map Some bs) = Ret (b_PrevBlock b = b_BlockHash (last bs))"
    by (rule extends_main_map_Some[OF bs(2)])
  obtain v where v: "ValidateBlock E b = Ret v"
    using assms(4) by (cases "ValidateBlock E b") (auto simp: SendBlock_def)
  consider (reject) "v \<noteq> None \<or> (b_PrevBlock b = b_BlockHash (last bs) \<and> validateBlockTxs E (nd_Utxo n) (map Some bs) b \<noteq> Ret None)"
    | (aside) "v = None" "b_PrevBlock b \<noteq> b_BlockHash (last bs)"
    | (accept) "v = None" "b_PrevBlock b = b_BlockHash (last bs)" "validateBlockTxs E (nd_Utxo n) (map Some bs) b = Ret None"
    by blast
  then show ?thesis
  proof cases
    case reject
    then have "\<exists>e. SendBlock E b k = Ret (k\<lparr>nd_Log := nd_Log k @ [b]\<rparr>, e) \<and> e = err"
      if "nd_Blockchain k = map Some bs" "nd_Utxo k = nd_Utxo n" for k
      using that assms(4) v ext bs(1) by (auto simp: SendBlock_def Let_def go_simps split: if_splits)
    from this[of n] this[of m] bs(1) m(1,2) assms(3,4) show ?thesis by (auto simp: same_ledger_def)
  next
    case aside
    have "\<exists>h. SendBlock E b k = Ret (k\<lparr>nd_Log := nd_Log k @ [b], nd_heap := h\<rparr>, None)"
      if "nd_Blockchain k = map Some bs" "nd_SideChains k = []" "nd_OrphanChains k = []" for k
      using place_block_ok[of "k\<lparr>nd_Log := nd_Log k @ [b]\<rparr>" bs b] that bs(2) aside v ext by (auto simp: SendBlock_def Let_def)
    from this[OF bs(1,3,4)] this[OF m(1,3,4)] assms(3,4) show ?thesis by (auto simp: same_ledger_def)
  next
    case accept
    from assms(4) bs obtain db where db: "err = None" "nd_Blockchain n' = map Some bs @ [Some b]" "nd_Utxo n' = db"
        "apply_txs E (b_Transactions b) (nd_Utxo n) = Ret db"
    proof (cases rule: SendBlock_cases)
      case (rejected h)
      have "nd_Blockchain n' = map Some bs @ [Some b]"
        using assms(4) accept v ext bs(1) by (auto simp: SendBlock_def Let_def go_simps accept_block_def elim!: recv.loop_Ret[elim_format])
      with rejected bs(1) show ?thesis by simp
    qed (use that bs(1) in auto)
    have "extends_main b (nd_Blockchain m) = Ret True" using accept(2) ext m(1) by simp
    from SendBlock_accepts[OF _ this, of E db] v accept(1,3) m db show ?thesis by (auto simp: same_ledger_def)
  qed
qed

lemma node_inv_receive_all: "receive_all E bs n = Ret n' \<Longrightarrow> node_inv E n \<Longrightarrow> node_inv E n'"
  by (induction bs arbitrary: n) (auto simp: go_simps dest: node_inv_SendBlock)

lemma receive_all_agree:
  assumes "node_inv E n" and "node_inv E m" and "same_ledger n m" and "receive_all E bs n = Ret n'"
  shows "\<exists>m'. receive_all E bs m = Ret m' \<and> same_ledger n' m'"
  using assms
proof (induction bs arbitrary: n m)
  case Nil
  then show ?case by simp
next
  case (Cons b bs)
  then obtain n1 err where n1: "SendBlock E b n = Ret (n1, err)" "receive_all E bs n1 = Ret n'" by (auto simp: go_simps)
  obtain m1 where m1: "SendBlock E b m = Ret (m1, err)" "same_ledger n1 m1"
    using SendBlock_agree[OF Cons.prems(1,2,3) n1(1)] by blast
  have "node_inv E n1" "node_inv E m1" using Cons.prems(1,2) n1(1) m1(1) node_inv_SendBlock by blast+
  from Cons.IH[OF this m1(2) n1(2)] m1(1) show ?case by simp
qed

lemma SendBlock_Log:
  assumes "node_inv E n" and "SendBlock E b n = Ret (n', err)"
  shows "nd_Log n' = nd_Log n @ [b]"
proof -
  obtain bs where bs: "nd_Blockchain n = map Some bs" "bs \<noteq> []" "nd_SideChains n = []" "nd_OrphanChains n = []"
    using assms(1) by (rule node_invE)
  from assms(2) bs show ?thesis by (cases rule: SendBlock_cases) auto
qed

lemma receive_all_Log:
  "receive_all E bs n = Ret n' \<Longrightarrow> node_inv E n \<Longrightarrow> nd_Log n' = nd_Log n @ bs"
proof (induction bs arbitrary: n)
  case Nil
  then show ?case by simp
next
  case (Cons b bs)
  then obtain n1 err where n1: "SendBlock E b n = Ret (n1, err)" "receive_all E bs n1 = Ret n'" by (auto simp: go_simps)
  with Cons show ?case using node_inv_SendBlock SendBlock_Log by fastforce
qed

lemma bootstrap_Ret:
  assumes "bootstrap E (new_node me port pubHash) = Some (Ret n)"
  obtains g where "GenerateGenesisBlock E = Some (Ret g)" and "nd_Blockchain n = [Some g]" and "nd_Log n = [g]"
    and "apply_chain E [Some g] empty_utxo = Ret (nd_Utxo n)"
  using assms by (auto simp: bootstrap_def go_simps)

lemma SendBlock_genesis:
  assumes "scrypt_ok E" and "GenerateGenesisBlock E = Some (Ret g)"
  shows "\<exists>err. SendBlock E g n = Ret (n\<lparr>nd_Log := nd_Log n @ [g]\<rparr>, err)"
  using ValidateBlock_genesis[OF assms] by (simp add: SendBlock_def)

subsection \<open>A mined block at a peer\<close>

lemma mined_block_valid_txs:
  assumes "GenerateBlock E now prev (map tn_Tx tns) pubHash = Some (Ret b)"
    and "\<forall>tn \<in> set tns. validateTransaction E db chain (tn_Tx tn) = Ret None \<and> tx_Type (tn_Tx tn) \<noteq> COINBASE"
  shows "validateBlockTxs E db chain b = Ret None"
proof -
  have txs: "b_Transactions b = map tn_Tx tns @ [MakeCoinbaseTx (map tn_Tx tns) pubHash]"
    using assms(1) by (rule GenerateBlock_Ret)
  then show ?thesis
    using assms(2) by (auto simp: validateBlockTxs_def validate_txs_None validateTransaction_None MakeCoinbaseTx_def Let_def)
qed

lemma mine_sends_new_block:
  assumes "node_inv E n" and "mine E now ord n = Some (Ret (n', msgs))" and "(client, b) \<in> set msgs"
  shows "nd_Blockchain n' = nd_Blockchain n @ [Some b]"
proof -
  obtain bs where "nd_Blockchain n = map Some bs" "bs \<noteq> []" using assms(1) by (rule node_invE)
  with assms(2) show ?thesis by (cases rule: mine_cases) (use assms(3) in auto)
qed

lemma mined_block_at_peer:
  assumes "node_inv E n" and "node_inv E m" and "same_ledger n m"
    and "mine E now ord n = Some (Ret (n', msgs))" and "nd_Blockchain n' = nd_Blockchain n @ [Some b]"
    and "\<forall>s tn. go_get (nd_PendingTxs n) s = Some tn \<longrightarrow> tx_Type (tn_Tx tn) \<noteq> COINBASE"
  shows "\<exists>m'. SendBlock E b m = Ret (m', None) \<and> same_ledger n' m'"
proof -
  obtain bs where bs: "nd_Blockchain n = map Some bs" "bs \<noteq> []" using assms(1) by (rule node_invE)
  have m: "nd_Blockchain m = map Some bs" "nd_Utxo m = nd_Utxo n" using assms(3) bs(1) by (simp_all add: same_ledger_def)
  from assms(4) bs show ?thesis
  proof (cases rule: mine_cases)
    case (idle p)
    with assms(5) show ?thesis by simp
  next
    case (mined tns b' p0 p db prev)
    have b': "b' = b" using mined(4) assms(5) by simp
    from collect_pending_Ret[OF mined(1)]
    have valid: "\<forall>tn \<in> set tns. validateTransaction E (nd_Utxo n) (nd_Blockchain n) (tn_Tx tn) = Ret None \<and> tx_Type (tn_Tx tn) \<noteq> COINBASE"
      using assms(6) by (auto simp: taken_from_def) metis
    have "ValidateBlock E b = Ret None" using GenerateBlock_valid[OF mined(2)] valid b' by auto
    moreover have "extends_main b (nd_Blockchain m) = Ret True"
      using extends_main_map_Some[OF bs(2)] mined(3) b' m(1) by simp
    moreover have "validateBlockTxs E (nd_Utxo m) (nd_Blockchain m) b = Ret None"
      using mined_block_valid_txs[OF mined(2) valid] b' m bs(1) by simp
    ultimately show ?thesis
      using SendBlock_accepts[of E b m db] mined(4,6) b' m bs(1) by (auto simp: same_ledger_def)
  qed
qed

subsection \<open>Reporting success\<close>

definition settled :: "bytes \<Rightarrow> DRNode \<Rightarrow> bool" where
  "settled s n \<longleftrightarrow> (\<exists>tn. go_get (nd_PendingTxs n) s = Some tn \<and> tn_Status tn = SUCCESS)"

locale settling_loop = tx_loop +
  fixes key :: "'a \<Rightarrow> bytes option"
  assumes settles: "body x n = Ret n' \<Longrightarrow> key x = Some s \<Longrightarrow> go_get (nd_PendingTxs n) s \<noteq> None \<Longrightarrow> settled s n'"
    and keeps: "body x n = Ret n' \<Longrightarrow> settled s n \<Longrightarrow> settled s n'"
begin

lemma loop_keeps: "fold_go body xs n = Ret n' \<Longrightarrow> settled s n \<Longrightarrow> settled s n'"
  by (erule fold_go_invariant) (auto intro: keeps)

lemma loop_settles:
  assumes "fold_go body xs n = Ret n'" and "x \<in> set xs" and "key x = Some s" and "go_get (nd_PendingTxs n) s \<noteq> None"
  shows "settled s n'"
  using assms(1,2,4)
proof (induction xs arbitrary: n)
  case Nil
  then show ?case by simp
next
  case (Cons y ys)
  then obtain n1 where n1: "body y n = Ret n1" "fold_go body ys n1 = Ret n'" by (auto simp: go_simps)
  show ?case
  proof (cases "x = y")
    case True
    then show ?thesis using settles[OF n1(1)] assms(3) Cons.prems(3) loop_keeps[OF n1(2)] by blast
  next
    case False
    obtain p where "nd_PendingTxs n1 = p" and same: "same_txs (nd_PendingTxs n) p" using body_Ret[OF n1(1)] by auto
    then have "go_get (nd_PendingTxs n1) s \<noteq> None" using same_txs_None[OF same] Cons.prems(3) by simp
    then show ?thesis using Cons.IH[OF n1(2)] False Cons.prems(2) by simp
  qed
qed

end

lemma settled_Utxo [simp]: "settled s (n\<lparr>nd_PendingTxs := p, nd_Utxo := db\<rparr>) = settled s (n\<lparr>nd_PendingTxs := p\<rparr>)"
  "settled s (n\<lparr>nd_Utxo := db\<rparr>) = settled s n"
  by (simp_all add: settled_def)

lemma settled_set_status:
  "settled s n \<Longrightarrow> settled s (n\<lparr>nd_PendingTxs := set_status k SUCCESS (nd_PendingTxs n)\<rparr>)"
  "go_get (nd_PendingTxs n) k = Some tn \<Longrightarrow> settled k (n\<lparr>nd_PendingTxs := set_status k SUCCESS (nd_PendingTxs n)\<rparr>)"
  by (auto simp: settled_def set_status_def split: option.split)

interpretation msettle: settling_loop "mark_mined E" E tn_Tx "\<lambda>tn. Some (tn_Hash tn)" for E
  by unfold_locales (auto simp: mark_mined_def go_simps intro: settled_set_status)

text \<open>The key of a received transaction: its hash, unless it is a coinbase.\<close>

definition recv_key :: "env \<Rightarrow> Transaction \<Rightarrow> bytes option" where
  "recv_key E tx = (if tx_Type tx = COINBASE then None else case Tx_Hash E tx of Panic p \<Rightarrow> None | Ret h \<Rightarrow> Some (sl h))"

interpretation rsettle: settling_loop "accept_tx E" E "\<lambda>tx. tx" "recv_key E" for E
proof
  fix tx n n' s
  assume acc: "accept_tx E tx n = Ret n'"
  have cases: "(tx_Type tx = COINBASE \<and> (\<exists>db. n' = n\<lparr>nd_Utxo := db\<rparr>)) \<or> (tx_Type tx \<noteq> COINBASE \<and> (\<exists>h db. Tx_Hash E tx = Ret h \<and>
      n' = n\<lparr>nd_PendingTxs := set_status (sl h) SUCCESS (nd_PendingTxs n), nd_Utxo := db\<rparr>))"
    using acc by (cases "tx_Type tx = COINBASE") (auto simp: accept_tx_def go_simps)
  then show "settled s n'" if "settled s n" using that by (auto intro: settled_set_status)
  show "settled s n'" if "recv_key E tx = Some s" "go_get (nd_PendingTxs n) s \<noteq> None"
    using that cases by (auto simp: recv_key_def intro: settled_set_status)
qed

lemma AppendTx_poll_settled:
  assumes "settled s n"
  shows "\<exists>n'. AppendTx_poll s n = Ret (n', Some True)"
  using assms by (auto simp: settled_def AppendTx_poll_def)

lemma publish_settles:
  assumes "publish_block E tns b n = Ret (n', msgs)" and "nd_Blockchain n' \<noteq> nd_Blockchain n"
    and "tn \<in> set tns" and "go_get (nd_PendingTxs n) (tn_Hash tn) \<noteq> None"
  shows "settled (tn_Hash tn) n'"
proof -
  let ?n = "n\<lparr>nd_Blockchain := nd_Blockchain n @ [Some b], nd_Log := nd_Log n @ [b]\<rparr>"
  obtain n1 db k where n1: "fold_go (mark_mined E) tns ?n = Ret n1" and n': "n' = n1\<lparr>nd_Utxo := db, nd_numPending := k\<rparr>"
    using assms(1,2) by (auto simp: publish_block_def bind_go_eq_Ret split: if_splits)
  have "settled (tn_Hash tn) n1" using msettle.loop_settles[OF n1 assms(3)] assms(4) by simp
  then show ?thesis by (simp add: n' settled_def)
qed

lemma mine_settles:
  assumes "node_inv E n" and "mine E now ord n = Some (Ret (n', msgs))"
    and "nd_Blockchain n' = nd_Blockchain n @ [Some b]" and "tx \<in> set (butlast (b_Transactions b))" and "Tx_Hash E tx = Ret h"
  shows "settled (sl h) n'"
  using assms(2)
proof (cases rule: mine_Ret)
  case quiet
  with assms(3) show ?thesis by simp
next
  case (turn p0 tns prev b')
  obtain bs where bs: "nd_Blockchain n = map Some bs" "bs \<noteq> []" using assms(1) by (rule node_invE)
  have "nd_Blockchain (n\<lparr>nd_PendingTxs := p0\<rparr>) = map Some bs" using bs(1) by simp
  from turn(3) this bs(2) have "b' = b" by (cases rule: publish_block_cases) (use assms(3) in auto)
  moreover have "butlast (b_Transactions b') = map tn_Tx tns" by (rule GenerateBlock_Ret[OF turn(2)]) simp
  ultimately obtain tn where tn: "tn \<in> set tns" "tx = tn_Tx tn" using assms(4) by auto
  have same: "same_txs (nd_PendingTxs n) p0" and "taken_from (nd_PendingTxs n) tn"
    using collect_pending_Ret[OF turn(1)] tn(1) by auto
  then obtain s tn' where tn': "go_get (nd_PendingTxs n) s = Some tn'" "tn_Tx tn' = tx" "tn_Hash tn' = tn_Hash tn"
    using tn(2) by (auto simp: taken_from_def)
  then have "tn_Hash tn = s" "sl h = s" using node_inv_pending[OF assms(1) tn'(1)] assms(5) by simp_all
  moreover have "go_get p0 s \<noteq> None" using same_txs_None[OF same] tn'(1) by simp
  ultimately show ?thesis using publish_settles[OF turn(3) _ tn(1)] assms(3) by simp
qed

lemma SendBlock_settles:
  assumes "SendBlock E b n = Ret (n', None)" and "nd_Blockchain n' = nd_Blockchain n @ [Some b]"
    and "nd_SideChains n = []" and "nd_OrphanChains n = []" and "nd_Blockchain n = map Some bs" and "bs \<noteq> []"
    and "tx \<in> set (b_Transactions b)" and "tx_Type tx \<noteq> COINBASE" and "Tx_Hash E tx = Ret h"
    and "go_get (nd_PendingTxs n) (sl h) \<noteq> None"
  shows "settled (sl h) n'"
proof -
  let ?n = "n\<lparr>nd_Log := nd_Log n @ [b], nd_Blockchain := nd_Blockchain n @ [Some b]\<rparr>"
  from assms(1,5,6,3,4) have "b_PrevBlock b = b_BlockHash (last bs)" "ValidateBlock E b = Ret None"
      "validateBlockTxs E (nd_Utxo n) (nd_Blockchain n) b = Ret None"
    by (cases rule: SendBlock_cases; use assms(2) in simp)+
  then obtain n1 k where n1: "fold_go (accept_tx E) (b_Transactions b) ?n = Ret n1" and n': "n' = n1\<lparr>nd_numPending := k\<rparr>"
    using assms(1,5) extends_main_map_Some[OF assms(6)] by (auto simp: SendBlock_def Let_def go_simps accept_block_def)
  have "settled (sl h) n1"
    using rsettle.loop_settles[OF n1 assms(7)] assms(8,9,10) by (simp add: recv_key_def)
  then show ?thesis by (simp add: n' settled_def)
qed

subsection \<open>Mining makes progress\<close>

lemma mark_loop_returns:
  assumes "apply_txs E (map tn_Tx tns) (nd_Utxo n) = Ret db" and "\<forall>tn \<in> set tns. go_get (nd_PendingTxs n) (tn_Hash tn) \<noteq> None"
  shows "\<exists>n'. fold_go (mark_mined E) tns n = Ret n' \<and> nd_Utxo n' = db \<and> nd_servers n' = nd_servers n \<and> nd_Blockchain n' = nd_Blockchain n"
  using assms
proof (induction tns arbitrary: n)
  case Nil
  then show ?case by (simp add: apply_txs_def)
next
  case (Cons tn tns)
  then obtain db1 where db1: "updateUtxoDb E (tn_Tx tn) (nd_Utxo n) = Ret db1" "apply_txs E (map tn_Tx tns) db1 = Ret db"
    by (auto simp: apply_txs_def go_simps)
  let ?n = "n\<lparr>nd_PendingTxs := set_status (tn_Hash tn) SUCCESS (nd_PendingTxs n), nd_Utxo := db1\<rparr>"
  have "mark_mined E tn n = Ret ?n" using db1(1) Cons.prems(2) by (auto simp: mark_mined_def)
  moreover have "\<forall>t \<in> set tns. go_get (nd_PendingTxs ?n) (tn_Hash t) \<noteq> None"
    using Cons.prems(2) same_txs_None[OF same_txs_set_status] by simp
  ultimately show ?case using Cons.IH[of ?n] db1(2) by simp
qed

lemma apply_coinbase:
  assumes "length (fst (DecodeString pubHash)) = PKHASH_NUM_BYTES"
  shows "\<exists>db'. updateUtxoDb E (MakeCoinbaseTx txs pubHash) db = Ret db'"
proof (rule updateUtxoDb_succeeds)
  show "distinct (tx_inputs (MakeCoinbaseTx txs pubHash))" "set (tx_inputs (MakeCoinbaseTx txs pubHash)) \<subseteq> dom (unspent db)"
    by (simp_all add: tx_inputs_def MakeCoinbaseTx_def Let_def)
  show "Tx_Hash E (MakeCoinbaseTx txs pubHash) = Ret (Hash E (tx_layout in_layout (MakeCoinbaseTx txs pubHash)))"
    using assms by (intro Tx_Hash_layout) (simp add: validateComponents_None MakeCoinbaseTx_def Let_def)
qed

lemma prev_block_hash_tip:
  assumes "scrypt_ok E" and "chain_ok E bs"
  shows "prev_block_hash (map Some bs) = Ret (b_BlockHash (last bs))"
proof -
  have "bs \<noteq> []" using assms(2) by (simp add: chain_ok_def)
  moreover from this have "length (b_BlockHash (last bs)) = HASH_NUM_BYTES"
    using assms by (simp add: chain_ok_def block_hash_def)
  ultimately show ?thesis by (simp add: prev_block_hash_def last_block_map_Some copy_into_def)
qed

lemma mine_publishes:
  assumes inv: "node_inv E n" and E: "scrypt_ok E" "pow_solvable E"
    and ready: "\<not> nd_quit n" "BLOCK_SIZE_THRESHOLD E \<le> nd_numPending n" "length (fst (DecodeString (nd_pubHash n))) = PKHASH_NUM_BYTES"
    and collect: "collect_pending E (nd_Utxo n) (nd_Blockchain n) ord (nd_PendingTxs n, []) = Ret (p0, tns)"
    and applied: "apply_txs E (map tn_Tx tns) (nd_Utxo n) = Ret db"
  shows "\<exists>n' b. mine E now ord n = Some (Ret (n', map (\<lambda>c. (c, b)) (nd_servers n))) \<and>
    nd_Blockchain n' = nd_Blockchain n @ [Some b] \<and> b_Transactions b = map tn_Tx tns @ [MakeCoinbaseTx (map tn_Tx tns) (nd_pubHash n)]"
proof -
  obtain bs where bs: "nd_Blockchain n = map Some bs" "chain_ok E bs" "bs \<noteq> []" using inv by (rule node_invE)
  note prev = prev_block_hash_tip[OF E(1) bs(2)]
  have same: "same_txs (nd_PendingTxs n) p0" and taken: "\<forall>tn \<in> set tns. taken_from (nd_PendingTxs n) tn"
    using collect_pending_Ret[OF collect] by auto
  have ok: "validateComponents (tn_Tx tn) = None \<and> go_get p0 (tn_Hash tn) \<noteq> None" if mem: "tn \<in> set tns" for tn
  proof -
    obtain s tn' where tn': "go_get (nd_PendingTxs n) s = Some tn'" "tn_Tx tn' = tn_Tx tn" "tn_Hash tn' = tn_Hash tn"
      using taken mem by (auto simp: taken_from_def)
    then have "tn_Hash tn = s" "validateComponents (tn_Tx tn) = None" using node_inv_pending[OF inv tn'(1)] by simp_all
    with tn'(1) same_txs_None[OF same] show ?thesis by simp
  qed
  obtain b where b: "GenerateBlock E now (b_BlockHash (last bs)) (map tn_Tx tns) (nd_pubHash n) = Some (Ret b)"
    using GenerateBlock_returns[OF E _ ready(3), of "map tn_Tx tns" now "b_BlockHash (last bs)"] ok by auto
  then have txs: "b_Transactions b = map tn_Tx tns @ [MakeCoinbaseTx (map tn_Tx tns) (nd_pubHash n)]"
    and pb: "b_PrevBlock b = b_BlockHash (last bs)" by (auto elim: GenerateBlock_Ret)
  let ?n = "n\<lparr>nd_PendingTxs := p0, nd_Blockchain := nd_Blockchain n @ [Some b], nd_Log := nd_Log n @ [b]\<rparr>"
  obtain n1 where n1: "fold_go (mark_mined E) tns ?n = Ret n1" "nd_servers n1 = nd_servers n" "nd_Blockchain n1 = nd_Blockchain n @ [Some b]"
    using mark_loop_returns[of E tns ?n db] applied ok by auto
  obtain db' where "updateUtxoDb E (MakeCoinbaseTx (map tn_Tx tns) (nd_pubHash n)) (nd_Utxo n1) = Ret db'"
    using apply_coinbase[OF ready(3)] by blast
  moreover have "go_nth (b_Transactions b) (length (b_Transactions b) - 1) = Ret (MakeCoinbaseTx (map tn_Tx tns) (nd_pubHash n))"
    by (simp add: txs go_nth_def nth_append)
  ultimately have "publish_block E tns b (n\<lparr>nd_PendingTxs := p0\<rparr>) =
      Ret (n1\<lparr>nd_Utxo := db', nd_numPending := nd_numPending n1 - int (length tns)\<rparr>, map (\<lambda>c. (c, b)) (nd_servers n))"
    using n1 pb bs(1) extends_main_map_Some[OF bs(3)] by (simp add: publish_block_def)
  moreover have "prev_block_hash (nd_Blockchain n) = Ret (b_BlockHash (last bs))" using prev bs(1) by simp
  ultimately show ?thesis using ready(1,2) collect b n1(3) txs by (simp add: mine_def)
qed

subsection \<open>Transactions are taken once\<close>

lemma seen_mono:
  assumes "node_inv E n" and "node_step E n n'" and "go_get (nd_SeenTxs n) s \<noteq> None"
  shows "go_get (nd_SeenTxs n') s \<noteq> None"
proof -
  obtain bs where bs: "nd_Blockchain n = map Some bs" "bs \<noteq> []" "nd_SideChains n = []" "nd_OrphanChains n = []"
    using assms(1) by (rule node_invE)
  from assms(2) show ?thesis
  proof (cases rule: node_step.cases)
    case (step_SendBlock b err)
    from this bs show ?thesis by (cases rule: SendBlock_cases) (use assms(3) in auto)
  next
    case (step_mine ord now msgs)
    from step_mine(2) bs(1,2) show ?thesis by (cases rule: mine_cases) (use assms(3) in auto)
  next
    case (step_poll k res)
    then show ?thesis by (rule AppendTx_poll_Ret) (use assms(3) in auto)
  next
    case (step_gossip_receive dial)
    then show ?thesis using assms(1) by (auto simp: gossip_receive_def node_inv_def)
  qed (use assms(3) in \<open>auto simp: AppendTx_def go_simps Let_def gossip_send_def Kill_def Gossip_def split: if_splits\<close>)
qed

lemma seen_mono_steps:
  assumes "(node_step E)\<^sup>*\<^sup>* n n'" and "node_inv E n" and "go_get (nd_SeenTxs n) s \<noteq> None"
  shows "go_get (nd_SeenTxs n') s \<noteq> None"
  using assms
proof (induction rule: rtranclp_induct)
  case base
  then show ?case by simp
next
  case (step m m')
  then show ?case using seen_mono ninv.inv_steps by blast
qed

subsection \<open>A concrete mining turn\<close>

lemma connect_servers_silent:
  assumes "\<And>s. ask s = None"
  shows "connect_servers E dial ask ss n =
    Ret (n\<lparr>nd_servers := nd_servers n @ filter dial ss, nd_ports := nd_ports n @ filter dial ss\<rparr>)"
  by (induction ss arbitrary: n) (simp_all add: Let_def assms)

text \<open>A transfer without inputs: it is registered, found invalid, and a block with a coinbase only is mined.\<close>

definition demo_empty_transfer :: Transaction where
  "demo_empty_transfer = (demo_grant 7 5)\<lparr>tx_Type := TRANSFER\<rparr>"

lemma demo_empty_transfer_simps:
  "validateComponents demo_empty_transfer = None" "tx_Type demo_empty_transfer \<noteq> COINBASE"
  "\<exists>e. validateTransaction demo_env db chain demo_empty_transfer = Ret (Some e)"
proof -
  show ok: "validateComponents demo_empty_transfer = None"
    using demo_components(1)[of 7 5] by (simp add: demo_empty_transfer_def validateComponents_None demo_grant_def)
  show "tx_Type demo_empty_transfer \<noteq> COINBASE" by (simp add: demo_empty_transfer_def tx_type_defs)
  have "sl (tx_TxIns demo_empty_transfer) = []" by (simp add: demo_empty_transfer_def demo_grant_def)
  then show "\<exists>e. validateTransaction demo_env db chain demo_empty_transfer = Ret (Some e)"
    by (simp add: validateTransaction_def Tx_Id_def Tx_Hash_layout[OF ok])
qed

lemma demo_turn:
  obtains n0 n1 n2 b s where "reach (node_start demo_env) (node_step demo_env) n0"
    and "AppendTx demo_env demo_empty_transfer 3 n0 = Ret (n1, Polling s [''2''])"
    and "mset [s] = mset (map fst (nd_PendingTxs n1))" and "same_ledger n1 n0"
    and "\<forall>k tn. go_get (nd_PendingTxs n1) k = Some tn \<longrightarrow> tx_Type (tn_Tx tn) \<noteq> COINBASE"
    and "mine demo_env 0 [s] n1 = Some (Ret (n2, [(''2'', b)]))" and "nd_Blockchain n2 = nd_Blockchain n1 @ [Some b]"
    and "length (nd_Blockchain n1) = 1"
proof -
  let ?addr = "''ekZtvHY9XwiGbnzyVOvvMhCEDSE=''"
  let ?tx = demo_empty_transfer
  let ?s = "sl (Hash demo_env (tx_layout in_layout ?tx))"
  obtain g where g: "GenerateGenesisBlock demo_env = Some (Ret g)"
    using GenerateGenesisBlock_returns[OF demo_scrypt_ok demo_pow_solvable] by blast
  obtain db where db: "apply_chain demo_env [Some g] empty_utxo = Ret db"
    using apply_genesis[OF GenerateGenesisBlock_Ret(1)[OF demo_scrypt_ok g]] by blast
  define n0 where "n0 = (new_node 0 ''1'' ?addr)\<lparr>nd_Blockchain := [Some g], nd_Log := [g], nd_Utxo := db,
    nd_servers := [''2''], nd_ports := [''2'']\<rparr>"
  have "StartDRNode demo_env (\<lambda>_. True) (\<lambda>_. None) 0 ''1'' ?addr [''2''] = Some (Ret n0)"
    by (simp add: StartDRNode_def bootstrap_def g db connect_servers_silent n0_def new_node_def)
  then have reach: "reach (node_start demo_env) (node_step demo_env) n0" by (rule reach_StartDRNode)
  define n1 where "n1 = n0\<lparr>nd_SeenTxs := [(?s, True)],
    nd_PendingTxs := [(?s, \<lparr>tn_Tx = ?tx, tn_ClerkId = 3, tn_Status = PENDING, tn_Hash = ?s\<rparr>)], nd_numPending := 1\<rparr>"
  have app: "AppendTx demo_env ?tx 3 n0 = Ret (n1, Polling ?s [''2''])"
    by (simp add: AppendTx_def Tx_Hash_layout demo_empty_transfer_simps(1) n1_def n0_def new_node_def go_put_def Let_def)
  have inv: "node_inv demo_env n1"
    by (rule node_inv_AppendTx[OF ninv.inv_reach[OF reach] app])
  obtain e where "validateTransaction demo_env (nd_Utxo n1) (nd_Blockchain n1) ?tx = Ret (Some e)"
    using demo_empty_transfer_simps(3) by blast
  then have collect: "\<exists>p0. collect_pending demo_env (nd_Utxo n1) (nd_Blockchain n1) [?s] (nd_PendingTxs n1, []) = Ret (p0, [])"
    by (simp add: n1_def go_get_def)
  have ready: "\<not> nd_quit n1" "BLOCK_SIZE_THRESHOLD demo_env \<le> nd_numPending n1" "nd_servers n1 = [''2'']" "nd_pubHash n1 = ?addr"
    by (simp_all add: n1_def n0_def new_node_def demo_env_def)
  have addr: "length (fst (DecodeString (nd_pubHash n1))) = PKHASH_NUM_BYTES"
    unfolding ready(4) by code_simp
  from collect obtain n2 b where "mine demo_env 0 [?s] n1 = Some (Ret (n2, [(''2'', b)]))" "nd_Blockchain n2 = nd_Blockchain n1 @ [Some b]"
    using mine_publishes[OF inv demo_scrypt_ok demo_pow_solvable ready(1,2) addr, of "[?s]" _ "[]" "nd_Utxo n1" 0] ready(3)
    by (auto simp: apply_txs_def)
  moreover have "same_ledger n1 n0" "length (nd_Blockchain n1) = 1" by (simp_all add: same_ledger_def n1_def n0_def new_node_def)
  ultimately show thesis
    by (intro that[OF reach app]) (auto simp: n1_def go_get_def demo_empty_transfer_simps(2) split: if_splits)
qed

subsection \<open>Properties\<close>

text \<open>C13: Replication: two reachable nodes with the same chain and UTXO database that receive the same blocks
  in the same order, valid or not, still have the same chain and database afterwards; if the first
  handles them without a panic, so does the second.\<close>

theorem same_blocks_same_ledger:
  assumes "reach (node_start E) (node_step E) n" and "reach (node_start E) (node_step E) m" and "same_ledger n m"
    and "receive_all E bs n = Ret n'"
  shows "\<exists>m'. receive_all E bs m = Ret m' \<and> nd_Blockchain m' = nd_Blockchain n' \<and> nd_Utxo m' = nd_Utxo n'"
  using receive_all_agree[OF ninv.inv_reach[OF assms(1)] ninv.inv_reach[OF assms(2)] assms(3,4)]
  by (auto simp: same_ledger_def)

theorem same_blocks_same_ledger_witness:
  "\<exists>n b n' m'. SendBlock demo_env b n = Ret (n', None) \<and> receive_all demo_env [b] n = Ret m' \<and>
     length (nd_Blockchain m') = Suc (length (nd_Blockchain n))"
proof -
  obtain n0 n1 n2 b s where t: "reach (node_start demo_env) (node_step demo_env) n0"
      "AppendTx demo_env demo_empty_transfer 3 n0 = Ret (n1, Polling s [''2''])" "same_ledger n1 n0"
      "\<forall>k tn. go_get (nd_PendingTxs n1) k = Some tn \<longrightarrow> tx_Type (tn_Tx tn) \<noteq> COINBASE"
      "mine demo_env 0 [s] n1 = Some (Ret (n2, [(''2'', b)]))" "nd_Blockchain n2 = nd_Blockchain n1 @ [Some b]"
    by (rule demo_turn)
  note inv = ninv.inv_reach[OF t(1)]
  obtain n' where n': "SendBlock demo_env b n0 = Ret (n', None)" "same_ledger n2 n'"
    using mined_block_at_peer[OF node_inv_AppendTx[OF inv t(2)] inv t(3,5,6,4)] by auto
  then have "receive_all demo_env [b] n0 = Ret n'" by simp
  moreover have "same_ledger n0 n0" by (simp add: same_ledger_def)
  ultimately obtain m' where "receive_all demo_env [b] n0 = Ret m'" "nd_Blockchain m' = nd_Blockchain n'"
    using same_blocks_same_ledger[OF t(1) t(1)] by blast
  moreover have "nd_Blockchain n' = nd_Blockchain n0 @ [Some b]" using n'(2) t(3,6) by (simp add: same_ledger_def)
  then have "length (nd_Blockchain n') = Suc (length (nd_Blockchain n0))" by simp
  ultimately show ?thesis using n'(1) by metis
qed



text \<open>C15: A mined block is accepted by its peers: a reachable peer with the same chain and UTXO database as the
  miner accepts the block that the miner sends, and then both have the same chain and database again,
  provided that none of the miner's pending transactions claims to be a coinbase.\<close>

theorem mined_block_accepted_by_peer:
  assumes "reach (node_start E) (node_step E) n" and "reach (node_start E) (node_step E) m" and "same_ledger n m"
    and "mine E now ord n = Some (Ret (n', msgs))" and "(client, b) \<in> set msgs"
    and "\<forall>s tn. go_get (nd_PendingTxs n) s = Some tn \<longrightarrow> tx_Type (tn_Tx tn) \<noteq> COINBASE"
  shows "\<exists>m'. SendBlock E b m = Ret (m', None) \<and> nd_Blockchain m' = nd_Blockchain n' \<and> nd_Utxo m' = nd_Utxo n'"
  using mined_block_at_peer[OF ninv.inv_reach[OF assms(1)] ninv.inv_reach[OF assms(2)] assms(3,4)
    mine_sends_new_block[OF ninv.inv_reach[OF assms(1)] assms(4,5)] assms(6)]
  by (auto simp: same_ledger_def)

theorem mined_block_accepted_by_peer_witness:
  "\<exists>n m n' s b m'. mine demo_env 0 [s] n = Some (Ret (n', [(''2'', b)])) \<and> SendBlock demo_env b m = Ret (m', None) \<and>
     nd_Blockchain m' = nd_Blockchain m @ [Some b]"
proof -
  obtain n0 n1 n2 b s where t: "reach (node_start demo_env) (node_step demo_env) n0"
      "AppendTx demo_env demo_empty_transfer 3 n0 = Ret (n1, Polling s [''2''])" "same_ledger n1 n0"
      "\<forall>k tn. go_get (nd_PendingTxs n1) k = Some tn \<longrightarrow> tx_Type (tn_Tx tn) \<noteq> COINBASE"
      "mine demo_env 0 [s] n1 = Some (Ret (n2, [(''2'', b)]))" "nd_Blockchain n2 = nd_Blockchain n1 @ [Some b]"
    by (rule demo_turn)
  have "reach (node_start demo_env) (node_step demo_env) n1" using reach_step[OF t(1) step_AppendTx[OF t(2)]] .
  from mined_block_accepted_by_peer[OF this t(1,3,5) _ t(4)] obtain m' where "SendBlock demo_env b n0 = Ret (m', None)"
      "nd_Blockchain m' = nd_Blockchain n2" by auto
  then show ?thesis using t(3,5,6) unfolding same_ledger_def by metis
qed


text \<open>A node whose only pending transaction is a signed transfer that calls itself a coinbase.\<close>

definition demo_false_coinbase :: Transaction where
  "demo_false_coinbase = demo_signed ((demo_post 7 demo_txid 5)\<lparr>tx_Type := COINBASE\<rparr>)"

definition demo_split_node :: DRNode where
  "demo_split_node = (let tx = demo_false_coinbase; s = replicate 32 1 in (new_node 0 ''1'' ''ekZtvHY9XwiGbnzyVOvvMhCEDSE='')\<lparr>
     nd_Blockchain := [Some ((unmined demo_env [] [] 0 [])\<lparr>b_BlockHash := replicate 32 0\<rparr>)], nd_Utxo := demo_db, nd_numPending := 1,
     nd_PendingTxs := [(s, \<lparr>tn_Tx = tx, tn_ClerkId = 3, tn_Status = PENDING, tn_Hash = s\<rparr>)]\<rparr>)"

definition mined_false_coinbase :: "(DRNode \<times> (string \<times> Block) list) go option \<Rightarrow> bool" where
  "mined_false_coinbase r = (case r of Some (Ret (n', msgs)) \<Rightarrow>
     butlast (nd_Blockchain n') = nd_Blockchain demo_split_node \<and> nd_Blockchain n' \<noteq> [] \<and>
     (case last (nd_Blockchain n') of None \<Rightarrow> False | Some b \<Rightarrow> list_ex (\<lambda>tx. tx_Type tx = COINBASE) (butlast (b_Transactions b)))
   | _ \<Rightarrow> False)"

lemma demo_split: "mined_false_coinbase (mine demo_env 0 [replicate 32 1] demo_split_node)"
  by code_simp


text \<open>C16: Progress: a running node with enough pending transactions mines a block in one turn and sends it to
  every server it knows, if its address is well-formed, the proof of work can be solved, and the
  transactions it collects can be applied one after the other.\<close>

theorem miner_makes_progress:
  assumes "reach (node_start E) (node_step E) n" and "scrypt_ok E" and "pow_solvable E" and "\<not> nd_quit n"
    and "BLOCK_SIZE_THRESHOLD E \<le> nd_numPending n" and "length (fst (DecodeString (nd_pubHash n))) = 20"
    and "collect_pending E (nd_Utxo n) (nd_Blockchain n) ord (nd_PendingTxs n, []) = Ret (p0, tns)"
    and "apply_txs E (map tn_Tx tns) (nd_Utxo n) = Ret db"
  shows "\<exists>n' b. mine E now ord n = Some (Ret (n', map (\<lambda>c. (c, b)) (nd_servers n))) \<and>
    nd_Blockchain n' = nd_Blockchain n @ [Some b] \<and> butlast (b_Transactions b) = map tn_Tx tns"
proof -
  have "length (fst (DecodeString (nd_pubHash n))) = PKHASH_NUM_BYTES" using assms(6) by (simp add: PKHASH_NUM_BYTES_def)
  from mine_publishes[OF ninv.inv_reach[OF assms(1)] assms(2-5) this assms(7,8)] show ?thesis by (metis butlast_snoc)
qed

theorem miner_makes_progress_witness:
  "\<exists>n n' b s. mine demo_env 0 [s] n = Some (Ret (n', map (\<lambda>c. (c, b)) (nd_servers n))) \<and> nd_Blockchain n' = nd_Blockchain n @ [Some b]"
proof -
  let ?addr = "''ekZtvHY9XwiGbnzyVOvvMhCEDSE=''"
  obtain n g where n: "StartDRNode demo_env (\<lambda>_. False) (\<lambda>_. None) 0 ''1'' ?addr [] = Some (Ret n)"
    by (rule StartDRNode_alone[OF demo_scrypt_ok demo_pow_solvable])
  have fields: "nd_SeenTxs n = []" "nd_PendingTxs n = []" "nd_numPending n = 0" "\<not> nd_quit n" "nd_pubHash n = ?addr"
    using n by (auto simp: StartDRNode_def bootstrap_def new_node_def go_simps)
  let ?s = "sl (Hash demo_env (tx_layout in_layout demo_empty_transfer))"
  obtain n1 where n1: "AppendTx demo_env demo_empty_transfer 3 n = Ret (n1, Polling ?s (nd_servers n))"
      "nd_PendingTxs n1 = [(?s, \<lparr>tn_Tx = demo_empty_transfer, tn_ClerkId = 3, tn_Status = PENDING, tn_Hash = ?s\<rparr>)]"
      "nd_numPending n1 = 1" "\<not> nd_quit n1" "nd_pubHash n1 = ?addr"
    using fields by (auto simp: AppendTx_def Tx_Hash_layout demo_empty_transfer_simps(1) Let_def go_put_def)
  have reach: "reach (node_start demo_env) (node_step demo_env) n1"
    using reach_step[OF reach_StartDRNode[OF n] step_AppendTx[OF n1(1)]] .
  obtain e where "validateTransaction demo_env (nd_Utxo n1) (nd_Blockchain n1) demo_empty_transfer = Ret (Some e)"
    using demo_empty_transfer_simps(3) by blast
  then have "\<exists>p0. collect_pending demo_env (nd_Utxo n1) (nd_Blockchain n1) [?s] (nd_PendingTxs n1, []) = Ret (p0, [])"
    by (simp add: n1(2) go_get_def)
  then obtain p0 where collect: "collect_pending demo_env (nd_Utxo n1) (nd_Blockchain n1) [?s] (nd_PendingTxs n1, []) = Ret (p0, [])" by blast
  have addr: "length (fst (DecodeString (nd_pubHash n1))) = 20" unfolding n1(5) by code_simp
  have "BLOCK_SIZE_THRESHOLD demo_env \<le> nd_numPending n1" by (simp add: n1(3) demo_env_def)
  from miner_makes_progress[OF reach demo_scrypt_ok demo_pow_solvable n1(4) this addr collect, of "nd_Utxo n1" 0]
  show ?thesis by (auto simp: apply_txs_def)
qed

text \<open>C34: A transaction is taken at most once: after a node registered it, every later submission of the
  same transaction, by any clerk and after any steps of the node, is refused without a change of state.\<close>

theorem AppendTx_taken_once:
  assumes "reach (node_start E) (node_step E) n" and "AppendTx E tx clerkId n = Ret (n1, Polling s clients)"
    and "(node_step E)\<^sup>*\<^sup>* n1 n2"
  shows "AppendTx E tx clerkId' n2 = Ret (n2, Replied False)"
proof -
  have inv: "node_inv E n1" using node_inv_AppendTx[OF ninv.inv_reach[OF assms(1)] assms(2)] .
  have ok: "validateComponents tx = None" and s: "s = sl (Hash E (tx_layout in_layout tx))" and "go_get (nd_SeenTxs n1) s \<noteq> None"
    using assms(2) by (auto simp: AppendTx_def Let_def Tx_Hash_layout split: if_splits)
  then have "go_get (nd_SeenTxs n2) s \<noteq> None" using seen_mono_steps[OF assms(3) inv] by blast
  with ok s show ?thesis by (simp add: AppendTx_def Tx_Hash_layout)
qed

theorem AppendTx_taken_once_witness:
  "\<exists>n1 s clients. AppendTx demo_env demo_empty_transfer 4 n1 = Ret (n1, Replied False) \<and> go_get (nd_PendingTxs n1) s \<noteq> None \<and>
     nd_servers n1 = clients"
proof -
  obtain n0 n1 n2 b s where t: "reach (node_start demo_env) (node_step demo_env) n0"
      "AppendTx demo_env demo_empty_transfer 3 n0 = Ret (n1, Polling s [''2''])" "mset [s] = mset (map fst (nd_PendingTxs n1))"
    by (rule demo_turn)
  have "s \<in> dom (go_get (nd_PendingTxs n1))"
    using mset_eq_setD[OF t(3)] gm.set_keys[of "nd_PendingTxs n1"] by auto
  then have "go_get (nd_PendingTxs n1) s \<noteq> None" by auto
  with AppendTx_taken_once[OF t(1,2) rtranclp.rtrancl_refl] show ?thesis by blast
qed

end
