(* ===== verification/Pipeline.thy ===== *)
theory Pipeline
  imports Clerk Consensus
begin

text \<open>
  The way of a transaction through the system: the clerk queries its coins, builds and signs the
  transaction, a node registers it, the miner puts it into a block, and the handler that waits for it
  answers success.
\<close>

subsection \<open>What one turn of the miner collects\<close>

lemma collect_nothing:
  assumes "\<forall>s \<in> set ord. \<forall>tn. go_get p s = Some tn \<longrightarrow> tn_Status tn \<noteq> PENDING"
  shows "collect_pending E db chain ord (p, acc) = Ret (p, acc)"
  using assms
proof (induction ord)
  case Nil
  then show ?case by simp
next
  case (Cons s ord)
  then show ?case by (cases "go_get p s") auto
qed

text \<open>With a single pending transaction, and that one valid, the order of the visit does not matter.\<close>

lemma collect_only:
  assumes "distinct ord" and "s \<in> set ord" and "go_get p s = Some tn" and "tn_Status tn = PENDING"
    and "validateTransaction E db chain (tn_Tx tn) = Ret None"
    and "\<forall>s' tn'. s' \<noteq> s \<longrightarrow> go_get p s' = Some tn' \<longrightarrow> tn_Status tn' \<noteq> PENDING"
  shows "collect_pending E db chain ord (p, acc) = Ret (p, acc @ [tn])"
  using assms(1,2)
proof (induction ord)
  case Nil
  then show ?case by simp
next
  case (Cons s' ord)
  show ?case
  proof (cases "s' = s")
    case True
    with Cons.prems have "\<forall>s \<in> set ord. \<forall>tn. go_get p s = Some tn \<longrightarrow> tn_Status tn \<noteq> PENDING"
      using assms(6) by auto
    from collect_nothing[OF this] True assms(3-5) show ?thesis by simp
  next
    case False
    with Cons have "collect_pending E db chain ord (p, acc) = Ret (p, acc @ [tn])" by simp
    with False assms(6) show ?thesis by (cases "go_get p s'") auto
  qed
qed

text \<open>A submitted transaction that the next turn accepts is published and its handler answered.\<close>

lemma submitted_tx_mined:
  assumes E: "scrypt_ok E" "pow_solvable E" and n: "node_inv E n" "\<not> nd_quit n" "BLOCK_SIZE_THRESHOLD E \<le> nd_numPending n + 1"
      "length (fst (DecodeString (nd_pubHash n))) = PKHASH_NUM_BYTES"
    and idle: "\<forall>s tn. go_get (nd_PendingTxs n) s = Some tn \<longrightarrow> tn_Status tn \<noteq> PENDING"
    and tx: "validateTransaction E (nd_Utxo n) (nd_Blockchain n) tx = Ret None" "distinct (tx_inputs tx)"
      "go_get (nd_SeenTxs n) (sl (Hash E (tx_layout in_layout tx))) = None"
  shows "\<exists>n1 s. AppendTx E tx clerkId n = Ret (n1, Polling s (nd_servers n)) \<and>
    (\<forall>now ord. mset ord = mset (map fst (nd_PendingTxs n1)) \<longrightarrow>
      (\<exists>n2 n3 b. mine E now ord n1 = Some (Ret (n2, map (\<lambda>c. (c, b)) (nd_servers n))) \<and>
        nd_Blockchain n2 = nd_Blockchain n @ [Some b] \<and> butlast (b_Transactions b) = [tx] \<and>
        AppendTx_poll s n2 = Ret (n3, Some True)))"
proof -
  have acc: "tx_accepted E (nd_Utxo n) (nd_Blockchain n) tx" using tx(1) by (simp add: validateTransaction_None)
  then have ok: "validateComponents tx = None" by (simp add: tx_accepted_def)
  note hash = Tx_Hash_layout[OF ok, of E]
  let ?s = "sl (Hash E (tx_layout in_layout tx))"
  let ?tn = "\<lparr>tn_Tx = tx, tn_ClerkId = clerkId, tn_Status = PENDING, tn_Hash = ?s\<rparr>"
  define n1 where "n1 = n\<lparr>nd_SeenTxs := go_put ?s True (nd_SeenTxs n), nd_PendingTxs := go_put ?s ?tn (nd_PendingTxs n),
    nd_numPending := nd_numPending n + 1\<rparr>"
  have app: "AppendTx E tx clerkId n = Ret (n1, Polling ?s (nd_servers n))"
    using ok tx(3) by (simp add: AppendTx_def hash Let_def n1_def)
  have inv: "node_inv E n1" by (rule node_inv_AppendTx[OF n(1) app])
  have ready: "\<not> nd_quit n1" "BLOCK_SIZE_THRESHOLD E \<le> nd_numPending n1" "length (fst (DecodeString (nd_pubHash n1))) = PKHASH_NUM_BYTES"
    using n by (simp_all add: n1_def)
  obtain db where "updateUtxoDb E tx (nd_Utxo n) = Ret db"
    using updateUtxoDb_succeeds[OF tx(2) tx_accepted_inputs[OF acc] hash] by blast
  then have applied: "apply_txs E (map tn_Tx [?tn]) (nd_Utxo n1) = Ret db" by (simp add: apply_txs_def n1_def)
  have turn: "\<exists>n2 n3 b. mine E now ord n1 = Some (Ret (n2, map (\<lambda>c. (c, b)) (nd_servers n))) \<and>
      nd_Blockchain n2 = nd_Blockchain n @ [Some b] \<and> butlast (b_Transactions b) = [tx] \<and> AppendTx_poll ?s n2 = Ret (n3, Some True)"
    if ord: "mset ord = mset (map fst (nd_PendingTxs n1))" for now ord
  proof -
    have "go_map_wf (nd_PendingTxs n1)" using inv by (simp add: node_inv_def pending_ok_def)
    then have "distinct ord" using ord unfolding go_map_wf_def by (metis mset_eq_imp_distinct_iff)
    moreover have "set ord = dom (go_get (nd_PendingTxs n1))" using mset_eq_setD[OF ord] gm.set_keys[of "nd_PendingTxs n1"] by simp
    then have "?s \<in> set ord" by (auto simp: n1_def)
    ultimately have collect: "collect_pending E (nd_Utxo n1) (nd_Blockchain n1) ord (nd_PendingTxs n1, []) = Ret (nd_PendingTxs n1, [] @ [?tn])"
      by (rule collect_only) (use idle tx(1) in \<open>auto simp: n1_def\<close>)
    from mine_publishes[OF inv E ready this[unfolded append_Nil] applied] obtain n2 b where
        n2: "mine E now ord n1 = Some (Ret (n2, map (\<lambda>c. (c, b)) (nd_servers n1)))" "nd_Blockchain n2 = nd_Blockchain n1 @ [Some b]"
        "b_Transactions b = map tn_Tx [?tn] @ [MakeCoinbaseTx (map tn_Tx [?tn]) (nd_pubHash n1)]" by blast
    have "settled ?s n2" by (rule mine_settles[OF inv n2(1,2) _ hash]) (simp add: n2(3))
    then obtain n3 where "AppendTx_poll ?s n2 = Ret (n3, Some True)" using AppendTx_poll_settled by blast
    with n2 show ?thesis by (auto simp: n1_def)
  qed
  show ?thesis by (intro exI[of _ n1] exI[of _ ?s] conjI app allI impI turn)
qed

text \<open>A node without transactions is ready again after such a turn.\<close>

lemma turn_frame:
  assumes "node_inv E n" and "nd_PendingTxs n = []" and "AppendTx E tx clerkId n = Ret (n1, Polling s servers)"
    and "mine E now ord n1 = Some (Ret (n2, msgs))" and "nd_Blockchain n2 = nd_Blockchain n @ [Some b]"
    and "butlast (b_Transactions b) = [tx]"
  shows "b_Transactions b = [tx, MakeCoinbaseTx [tx] (nd_pubHash n)]" and "nd_quit n2 = nd_quit n" and "nd_pubHash n2 = nd_pubHash n"
    and "nd_numPending n2 = nd_numPending n" and "nd_SeenTxs n2 = [(s, True)] \<or> nd_SeenTxs n \<noteq> []"
    and "\<forall>s' tn'. go_get (nd_PendingTxs n2) s' = Some tn' \<longrightarrow> tn_Status tn' \<noteq> PENDING"
proof -
  obtain h where h: "Tx_Hash E tx = Ret h" "s = sl h"
    and n1: "n1 = n\<lparr>nd_SeenTxs := go_put s True (nd_SeenTxs n),
      nd_PendingTxs := [(s, \<lparr>tn_Tx = tx, tn_ClerkId = clerkId, tn_Status = PENDING, tn_Hash = s\<rparr>)], nd_numPending := nd_numPending n + 1\<rparr>"
    using assms(2,3) by (auto simp: AppendTx_def go_simps Let_def go_put_def split: if_splits)
  have inv: "node_inv E n1" by (rule node_inv_AppendTx[OF assms(1,3)])
  then obtain bs where bs: "nd_Blockchain n1 = map Some bs" "bs \<noteq> []" by (rule node_invE)
  have chain: "nd_Blockchain n2 = nd_Blockchain n1 @ [Some b]" using assms(5) n1 by simp
  have settled: "settled s n2" using mine_settles[OF inv assms(4) chain _ h(1)] assms(6) h(2) by simp
  from assms(4) bs have "b_Transactions b = [tx, MakeCoinbaseTx [tx] (nd_pubHash n)] \<and> nd_quit n2 = nd_quit n1 \<and>
      nd_pubHash n2 = nd_pubHash n1 \<and> nd_numPending n2 = nd_numPending n \<and> nd_SeenTxs n2 = nd_SeenTxs n1 \<and>
      same_txs (nd_PendingTxs n1) (nd_PendingTxs n2)"
  proof (cases rule: mine_cases)
    case (idle p)
    with chain show ?thesis by simp
  next
    case (mined tns b' p0 p db prev)
    with chain have [simp]: "b' = b" by simp
    have txs: "b_Transactions b = map tn_Tx tns @ [MakeCoinbaseTx (map tn_Tx tns) (nd_pubHash n1)]"
      by (rule GenerateBlock_Ret[OF mined(2)]) simp
    with assms(6) have tx: "map tn_Tx tns = [tx]" by simp
    then have "length tns = 1" by (metis length_map One_nat_def length_Cons list.size(3))
    with mined(4,5) txs tx n1 show ?thesis by simp
  qed
  note frame = this
  show "b_Transactions b = [tx, MakeCoinbaseTx [tx] (nd_pubHash n)]" "nd_quit n2 = nd_quit n" "nd_pubHash n2 = nd_pubHash n"
    "nd_numPending n2 = nd_numPending n" "nd_SeenTxs n2 = [(s, True)] \<or> nd_SeenTxs n \<noteq> []"
    using frame n1 by (auto simp: go_put_def)
  show "\<forall>s' tn'. go_get (nd_PendingTxs n2) s' = Some tn' \<longrightarrow> tn_Status tn' \<noteq> PENDING"
  proof (intro allI impI)
    fix s' tn' assume tn': "go_get (nd_PendingTxs n2) s' = Some tn'"
    with frame same_txs_None have "go_get (nd_PendingTxs n1) s' \<noteq> None" by (metis option.distinct(1))
    then have "s' = s" using n1 by (auto simp: go_get_def split: if_splits)
    with settled tn' show "tn_Status tn' \<noteq> PENDING" by (simp add: settled_def)
  qed
qed

lemma Post_answered:
  assumes "ck_current ck < length (ck_servers ck)" and "unet 0 (ck_current ck) = Some (us, True)" and "us \<noteq> []"
    and "post_tx E (ck_privKey ck) us content = Ret tx" and "anet tx 0 (ck_current ck) = Some r"
  shows "Post E unet anet ck content = Some (Ret r)"
proof -
  have "QueryUtxo unet ck = Some (Ret (us, True))"
    using rpc_loop_first[of "ck_current ck" "length (ck_servers ck)" 0 unet 0 "(us, True)"] assms(1-3) by (simp add: QueryUtxo_def)
  moreover have "submit anet ck tx = Some (Ret r)"
    using rpc_loop_first[of "ck_current ck" "length (ck_servers ck)" 0 "anet tx" 0 r] assms(1,5) by (simp add: submit_def)
  ultimately show ?thesis using assms(4) by (simp add: Post_def clerk_op_def)
qed

subsection \<open>A wallet for evaluation\<close>

text \<open>
  An instance in which every key has the first address of the genesis block, and the digest of data shows
  their first bytes.
\<close>

definition wallet_env :: env where
  "wallet_env = demo_env\<lparr>scrypt_Key := \<lambda>pw salt N r p n.
     Some (if n = 20 then fst (DecodeString (hd genesis_pubKeyHashB64)) else take n (0 # pw @ replicate n 0))\<rparr>"

lemma wallet_scrypt_ok: "scrypt_ok wallet_env"
proof -
  have "length (fst (DecodeString (hd genesis_pubKeyHashB64))) = 20"
    using genesis_addresses by (simp add: genesis_pubKeyHashB64_def)
  then show ?thesis by (simp add: scrypt_ok_def wallet_env_def)
qed

lemma wallet_ecdsa_ok: "ecdsa_ok wallet_env"
  using demo_ecdsa_ok by (simp add: ecdsa_ok_def wallet_env_def)

lemma wallet_hash: "sl (Hash wallet_env d) = take 32 (0 # d @ replicate 32 0)"
  by (simp add: Hash_def wallet_env_def)

text \<open>The digest of a transaction shows its type.\<close>

lemma wallet_hash_type:
  assumes "sl (Hash wallet_env (tx_layout lay tx)) = sl (Hash wallet_env (tx_layout lay' tx'))"
  shows "tx_Type tx = tx_Type tx'"
proof -
  have "take 4 (tl (sl (Hash wallet_env (tx_layout l t)))) = packInt (tx_Type t)" for l t
    by (simp add: wallet_hash tx_layout_def tl_take)
  with assms show ?thesis by (metis packInt_inject)
qed

lemma wallet_pow_solvable: "pow_solvable wallet_env"
proof -
  have "leading_zeros 1 (sl (Hash wallet_env d))" for d by (simp add: wallet_hash leading_zeros_def)
  then have "b_Bits block = 1 \<Longrightarrow> good_nonce wallet_env block n" for block n by (simp add: good_nonce_def block_hash_def)
  moreover have "DIFFICULTY wallet_env = 1" by (simp add: wallet_env_def)
  ultimately show ?thesis by (simp add: pow_solvable_def)
qed

lemma wallet_address: "pubkeyHash wallet_env priv = fst (DecodeString (hd genesis_pubKeyHashB64))"
  by (simp add: pubkeyHash_def PKHash_def wallet_env_def)

text \<open>A coin of the genesis block is worth 100; the first address has one.\<close>

lemma genesis_coins:
  assumes "scrypt_ok E" and "b_Transactions g = [genesis_tx]" and "chain_coins E [g] p = Some (pkh, v)"
  shows "v = 100"
proof -
  have "map_of (rev (tx_outputs (sl (Hash E (tx_layout in_layout genesis_tx))) genesis_tx)) p = Some (pkh, v)"
    using assms(2,3) by (simp add: chain_coins_def tx_effect_def Tx_Hash_layout[OF genesis_components] apply_coins_def restrict_map_def)
  from map_of_SomeD[OF this] have "(p, pkh, v) \<in> set (tx_outputs (sl (Hash E (tx_layout in_layout genesis_tx))) genesis_tx)"
    by simp
  then have "(pkh, v) \<in> (\<lambda>out. (to_PubKeyHash out, to_Value out)) ` set (tx_TxOuts genesis_tx)"
    by (auto simp: tx_outputs_def in_set_enumerate_eq)
  then show ?thesis by (auto simp: genesis_tx_def)
qed

lemma genesis_first_coin:
  assumes "b_Transactions g = [genesis_tx]"
  shows "chain_coins E [g] (sl (Hash E (tx_layout in_layout genesis_tx)), 0) = Some (fst (DecodeString (hd genesis_pubKeyHashB64)), 100)"
proof -
  have "map_of (rev (tx_outputs h genesis_tx)) (h, 0) = Some (fst (DecodeString (hd genesis_pubKeyHashB64)), 100)" for h
    by (simp add: tx_outputs_def genesis_tx_def genesis_pubKeyHashB64_def)
  then show ?thesis
    using assms by (simp add: chain_coins_def tx_effect_def Tx_Hash_layout[OF genesis_components] apply_coins_def)
qed

text \<open>A fresh node of this instance: it reports a coin of 100 to every key, and no other coins.\<close>

lemma wallet_node:
  obtains n u us where "reach (node_start wallet_env) (node_step wallet_env) n" and "\<not> nd_quit n" and "nd_numPending n = 0"
    and "length (fst (DecodeString (nd_pubHash n))) = 20" and "nd_PendingTxs n = []" and "nd_SeenTxs n = []"
    and "visits (list_order (nd_Utxo n)) (nd_Utxo n)"
    and "GetUtxo (list_order (nd_Utxo n)) (pubkeyHash wallet_env 7) n = (u # us, True)" and "ut_Value u = 100"
    and "nd_pubHash n = hd genesis_pubKeyHashB64" and "\<exists>g. nd_Blockchain n = [Some g]"
    and "StartDRNode wallet_env (\<lambda>_. False) (\<lambda>_. None) 0 ''1'' (hd genesis_pubKeyHashB64) [] = Some (Ret n)"
proof -
  let ?addr = "hd genesis_pubKeyHashB64"
  obtain n g where n: "StartDRNode wallet_env (\<lambda>_. False) (\<lambda>_. None) 0 ''1'' ?addr [] = Some (Ret n)"
      and g: "GenerateGenesisBlock wallet_env = Some (Ret g)" "nd_Blockchain n = [Some g]"
    by (rule StartDRNode_alone[OF wallet_scrypt_ok wallet_pow_solvable])
  note reach = reach_StartDRNode[OF n]
  have fields: "nd_SeenTxs n = []" "nd_PendingTxs n = []" "nd_numPending n = 0" "\<not> nd_quit n" "nd_pubHash n = ?addr"
    using n by (auto simp: StartDRNode_def bootstrap_def new_node_def go_simps)
  have "length (fst (DecodeString ?addr)) = 20" using genesis_addresses by (simp add: genesis_pubKeyHashB64_def)
  note txs = GenerateGenesisBlock_Ret(1)[OF wallet_scrypt_ok g(1)]
  have "nd_Blockchain n = map Some [g]" using g(2) by simp
  from node_inv_coins[OF ninv.inv_reach[OF reach] this] have wf: "utxo_wf (nd_Utxo n)" and coins: "unspent (nd_Utxo n) = chain_coins wallet_env [g]"
    by auto
  note visits = visits_list_order[OF wf]
  let ?us = "fst (GetUtxo (list_order (nd_Utxo n)) (pubkeyHash wallet_env 7) n)"
  have mem: "u \<in> set ?us \<longleftrightarrow> chain_coins wallet_env [g] (ut_TxHash u, ut_TxOutIndex u) = Some (pubkeyHash wallet_env 7, ut_Value u)" for u
    unfolding GetUtxo_def GetUnspentTxs_set[OF wf visits] coins ..
  have "\<lparr>ut_TxHash = sl (Hash wallet_env (tx_layout in_layout genesis_tx)), ut_TxOutIndex = 0, ut_Value = 100\<rparr> \<in> set ?us"
    unfolding mem using genesis_first_coin[OF txs] by (simp add: wallet_address)
  then obtain u us where us: "?us = u # us" by (cases ?us) auto
  then have "u \<in> set ?us" by simp
  then have "ut_Value u = 100" unfolding mem by (rule genesis_coins[OF wallet_scrypt_ok txs])
  moreover have "snd (GetUtxo ord pkh n) = (fst (GetUtxo ord pkh n) \<noteq> [])" for ord pkh
    by (simp add: GetUtxo_def GetUnspentTxs_def Let_def)
  then have "GetUtxo (list_order (nd_Utxo n)) (pubkeyHash wallet_env 7) n = (u # us, True)" using us by (metis list.distinct(1) prod.collapse)
  ultimately show thesis using that[OF reach fields(4,3) _ fields(2,1) visits] \<open>length (fst (DecodeString ?addr)) = 20\<close> fields(5) g(2) n by simp
qed

subsection \<open>Properties\<close>

text \<open>A mined transaction is reported to its clerk: after the turn in which a reachable node put a
  transaction into a block, the handler that waits for it answers success at its next poll.\<close>

theorem mined_tx_reported:
  assumes "reach (node_start E) (node_step E) n" and "mine E now ord n = Some (Ret (n', msgs))"
    and "nd_Blockchain n' = nd_Blockchain n @ [Some b]" and "tx \<in> set (butlast (b_Transactions b))" and "Tx_Hash E tx = Ret h"
  shows "\<exists>n''. AppendTx_poll (sl h) n' = Ret (n'', Some True)"
  by (rule AppendTx_poll_settled[OF mine_settles[OF ninv.inv_reach[OF assms(1)] assms(2-5)]])


theorem mined_tx_reported_witness:
  "\<exists>n n' n'' b s. mine wallet_env 0 [s] n = Some (Ret (n', map (\<lambda>c. (c, b)) (nd_servers n))) \<and>
     nd_Blockchain n' = nd_Blockchain n @ [Some b] \<and> AppendTx_poll s n' = Ret (n'', Some True)"
proof -
  obtain n u us where n: "reach (node_start wallet_env) (node_step wallet_env) n" "\<not> nd_quit n" "nd_numPending n = 0"
      "length (fst (DecodeString (nd_pubHash n))) = 20" "nd_PendingTxs n = []" "nd_SeenTxs n = []"
      "visits (list_order (nd_Utxo n)) (nd_Utxo n)"
      "GetUtxo (list_order (nd_Utxo n)) (pubkeyHash wallet_env 7) n = (u # us, True)" "ut_Value u = 100"
      "nd_pubHash n = hd genesis_pubKeyHashB64" "\<exists>g. nd_Blockchain n = [Some g]"
      "StartDRNode wallet_env (\<lambda>_. False) (\<lambda>_. None) 0 ''1'' (hd genesis_pubKeyHashB64) [] = Some (Ret n)"
    by (rule wallet_node)
  have "owned wallet_env (nd_Utxo n) 7 u" using GetUtxo_owned[OF n(1) wallet_scrypt_ok n(7), of u 7] n(8) by simp
  from single_post_accepted[OF wallet_scrypt_ok wallet_ecdsa_ok this, of POST None "nd_Blockchain n" _ "Some [104]"] n(9)
  obtain tx where tx: "validateTransaction wallet_env (nd_Utxo n) (nd_Blockchain n) tx = Ret None"
      "tx_inputs tx = [(ut_TxHash u, ut_TxOutIndex u)]" by (auto simp: parent_ok_def tx_type_defs)
  have "BLOCK_SIZE_THRESHOLD wallet_env \<le> nd_numPending n + 1" using n(3) by (simp add: wallet_env_def demo_env_def)
  from submitted_tx_mined[OF wallet_scrypt_ok wallet_pow_solvable ninv.inv_reach[OF n(1)] n(2) this _ _ tx(1), of 3] n(4-6) tx(2)
  obtain n1 s where n1: "AppendTx wallet_env tx 3 n = Ret (n1, Polling s (nd_servers n))"
      "\<And>now ord. mset ord = mset (map fst (nd_PendingTxs n1)) \<Longrightarrow>
        \<exists>n2 n3 b. mine wallet_env now ord n1 = Some (Ret (n2, map (\<lambda>c. (c, b)) (nd_servers n))) \<and>
          nd_Blockchain n2 = nd_Blockchain n @ [Some b] \<and> butlast (b_Transactions b) = [tx]"
    by (fastforce simp: PKHASH_NUM_BYTES_def)
  have "nd_PendingTxs n1 = [(s, \<lparr>tn_Tx = tx, tn_ClerkId = 3, tn_Status = PENDING, tn_Hash = s\<rparr>)] \<and> nd_servers n1 = nd_servers n \<and>
      nd_Blockchain n1 = nd_Blockchain n"
    and s: "\<exists>h. Tx_Hash wallet_env tx = Ret h \<and> s = sl h"
    using n1(1) n(5) by (auto simp: AppendTx_def go_simps Let_def go_put_def split: if_splits)
  then have fields: "mset [s] = mset (map fst (nd_PendingTxs n1))" "nd_servers n1 = nd_servers n" "nd_Blockchain n1 = nd_Blockchain n"
    by simp_all
  obtain n2 b where n2: "mine wallet_env 0 [s] n1 = Some (Ret (n2, map (\<lambda>c. (c, b)) (nd_servers n1)))"
      "nd_Blockchain n2 = nd_Blockchain n1 @ [Some b]" "tx \<in> set (butlast (b_Transactions b))"
    using n1(2)[OF fields(1), of 0] fields(2,3) by auto
  have "reach (node_start wallet_env) (node_step wallet_env) n1" using n(1) step_AppendTx[OF n1(1)] by (rule reach_step)
  from mined_tx_reported[OF this n2] s n2 show ?thesis by blast
qed

text \<open>C5: End to end: a clerk posts to a reachable, running node with no unfinished transaction, which reports to it
  a coin of a value other than 0 and \<open>2 ^ 32 - 1\<close>.  The transaction it builds, if the node has not seen its hash
  before, is registered; the next turn of the miner, whatever the order in which it visits the pending
  map, puts it into a block and sends that to every peer; the waiting handler then answers success, and with
  these answers the clerk's operation returns true.\<close>

theorem post_end_to_end:
  assumes "scrypt_ok E" and "ecdsa_ok E" and "pow_solvable E"
    and "reach (node_start E) (node_step E) n" and "\<not> nd_quit n" and "BLOCK_SIZE_THRESHOLD E \<le> nd_numPending n + 1"
    and "length (fst (DecodeString (nd_pubHash n))) = 20"
    and "\<forall>s tn. go_get (nd_PendingTxs n) s = Some tn \<longrightarrow> tn_Status tn \<noteq> PENDING"
    and "visits utxo_ord (nd_Utxo n)" and "GetUtxo utxo_ord (pubkeyHash E (ck_privKey ck)) n = (u # us, True)"
    and "ut_Value u \<noteq> 0" and "ut_Value u \<noteq> - 1"
    and "post_tx E (ck_privKey ck) (u # us) content = Ret tx" and "Tx_Hash E tx = Ret h" and "go_get (nd_SeenTxs n) (sl h) = None"
    and "ck_current ck < length (ck_servers ck)"
  shows "\<exists>n1. AppendTx E tx (ck_clerkId ck) n = Ret (n1, Polling (sl h) (nd_servers n)) \<and>
    (\<forall>now ord. mset ord = mset (map fst (nd_PendingTxs n1)) \<longrightarrow>
      (\<exists>n2 n3 b answer. mine E now ord n1 = Some (Ret (n2, map (\<lambda>c. (c, b)) (nd_servers n))) \<and>
        nd_Blockchain n2 = nd_Blockchain n @ [Some b] \<and> butlast (b_Transactions b) = [tx] \<and>
        AppendTx_poll (sl h) n2 = Ret (n3, answer) \<and> answer = Some True \<and>
        (\<forall>unet anet. unet 0 (ck_current ck) = Some (GetUtxo utxo_ord (pubkeyHash E (ck_privKey ck)) n) \<longrightarrow>
           anet tx 0 (ck_current ck) = answer \<longrightarrow> Post E unet anet ck content = Some (Ret True))))"
proof -
  have "owned E (nd_Utxo n) (ck_privKey ck) u" using GetUtxo_owned[OF assms(4,1,9), of u "ck_privKey ck"] assms(10) by simp
  then have tx: "validateTransaction E (nd_Utxo n) (nd_Blockchain n) tx = Ret None \<and> tx_inputs tx = [(ut_TxHash u, ut_TxOutIndex u)]"
    using single_post_accepted[OF assms(1,2) _ assms(11,12), of "nd_Utxo n" "ck_privKey ck" POST None "nd_Blockchain n" _ "Some content"] assms(13)
    by (auto simp: post_tx_def go_nth_def TX_FEE_def parent_ok_def tx_type_defs)
  then have "tx_accepted E (nd_Utxo n) (nd_Blockchain n) tx" by (simp add: validateTransaction_None)
  then have hash: "Tx_Hash E tx = Ret (Hash E (tx_layout in_layout tx))" by (intro Tx_Hash_layout) (simp add: tx_accepted_def)
  with assms(14) have h: "h = Hash E (tx_layout in_layout tx)" by simp
  have addr: "length (fst (DecodeString (nd_pubHash n))) = PKHASH_NUM_BYTES" using assms(7) by (simp add: PKHASH_NUM_BYTES_def)
  have "distinct (tx_inputs tx)" using tx by simp
  from submitted_tx_mined[OF assms(1,3) ninv.inv_reach[OF assms(4)] assms(5,6) addr assms(8) conjunct1[OF tx] this assms(15)[unfolded h], of "ck_clerkId ck"]
  obtain n1 s where app: "AppendTx E tx (ck_clerkId ck) n = Ret (n1, Polling s (nd_servers n))"
    and turn: "\<And>now ord. mset ord = mset (map fst (nd_PendingTxs n1)) \<Longrightarrow>
      \<exists>n2 n3 b. mine E now ord n1 = Some (Ret (n2, map (\<lambda>c. (c, b)) (nd_servers n))) \<and>
        nd_Blockchain n2 = nd_Blockchain n @ [Some b] \<and> butlast (b_Transactions b) = [tx] \<and> AppendTx_poll s n2 = Ret (n3, Some True)"
    by blast
  have s: "s = sl h" using app by (auto simp: AppendTx_def assms(14) Let_def split: if_splits)
  have post: "Post E unet anet ck content = Some (Ret True)"
    if "unet 0 (ck_current ck) = Some (GetUtxo utxo_ord (pubkeyHash E (ck_privKey ck)) n)" "anet tx 0 (ck_current ck) = Some True" for unet anet
    using Post_answered[of ck unet "u # us" E content tx anet True] that assms(10,13,16) by simp
  have inner: "\<exists>n2 n3 b answer. mine E now ord n1 = Some (Ret (n2, map (\<lambda>c. (c, b)) (nd_servers n))) \<and>
      nd_Blockchain n2 = nd_Blockchain n @ [Some b] \<and> butlast (b_Transactions b) = [tx] \<and> AppendTx_poll (sl h) n2 = Ret (n3, answer) \<and> answer = Some True \<and>
      (\<forall>unet anet. unet 0 (ck_current ck) = Some (GetUtxo utxo_ord (pubkeyHash E (ck_privKey ck)) n) \<longrightarrow>
         anet tx 0 (ck_current ck) = answer \<longrightarrow> Post E unet anet ck content = Some (Ret True))"
    if "mset ord = mset (map fst (nd_PendingTxs n1))" for now ord
    using turn[OF that, of now] post unfolding s by blast
  show ?thesis by (rule exI[of _ n1]) (use app[unfolded s] inner in blast)
qed

definition demo_clerk :: Clerk where
  "demo_clerk = \<lparr>ck_port = ''20200'', ck_ports = [''20000''], ck_servers = [''20000''], ck_clerkId = 3, ck_current = 0, ck_privKey = 7, ck_gossip = None\<rparr>"

theorem post_end_to_end_witness:
  "\<exists>n n1 tx s. post_tx wallet_env 7 (fst (GetUtxo (list_order (nd_Utxo n)) (pubkeyHash wallet_env 7) n)) [104, 105] = Ret tx \<and>
     AppendTx wallet_env tx 3 n = Ret (n1, Polling s (nd_servers n)) \<and>
     (\<forall>now ord. mset ord = mset (map fst (nd_PendingTxs n1)) \<longrightarrow>
       (\<exists>n2 n3 msgs. mine wallet_env now ord n1 = Some (Ret (n2, msgs)) \<and> AppendTx_poll s n2 = Ret (n3, Some True)))"
proof -
  obtain n u us where n: "reach (node_start wallet_env) (node_step wallet_env) n" "\<not> nd_quit n" "nd_numPending n = 0"
      "length (fst (DecodeString (nd_pubHash n))) = 20" "nd_PendingTxs n = []" "nd_SeenTxs n = []"
      "visits (list_order (nd_Utxo n)) (nd_Utxo n)"
      "GetUtxo (list_order (nd_Utxo n)) (pubkeyHash wallet_env 7) n = (u # us, True)" "ut_Value u = 100"
      "nd_pubHash n = hd genesis_pubKeyHashB64" "\<exists>g. nd_Blockchain n = [Some g]"
      "StartDRNode wallet_env (\<lambda>_. False) (\<lambda>_. None) 0 ''1'' (hd genesis_pubKeyHashB64) [] = Some (Ret n)"
    by (rule wallet_node)
  have ready: "BLOCK_SIZE_THRESHOLD wallet_env \<le> nd_numPending n + 1" using n(3) by (simp add: wallet_env_def demo_env_def)
  have own: "owned wallet_env (nd_Utxo n) 7 u" using GetUtxo_owned[OF n(1) wallet_scrypt_ok n(7), of u 7] n(8) by simp
  have val: "ut_Value u \<noteq> 0" "ut_Value u \<noteq> - 1" using n(9) by simp_all
  from single_post_accepted[OF wallet_scrypt_ok wallet_ecdsa_ok own val, of POST None "nd_Blockchain n" _ "Some [104, 105]"]
  obtain tx where tx: "post_tx wallet_env 7 (u # us) [104, 105] = Ret tx" and "tx_accepted wallet_env (nd_Utxo n) (nd_Blockchain n) tx"
    by (auto simp: post_tx_def go_nth_def TX_FEE_def parent_ok_def tx_type_defs validateTransaction_None)
  then obtain h where h: "Tx_Hash wallet_env tx = Ret h" using Tx_Hash_layout unfolding tx_accepted_def by blast
  have priv: "ck_privKey demo_clerk = 7" "ck_clerkId demo_clerk = 3" "ck_current demo_clerk < length (ck_servers demo_clerk)"
    by (simp_all add: demo_clerk_def)
  have "\<forall>s tn. go_get (nd_PendingTxs n) s = Some tn \<longrightarrow> tn_Status tn \<noteq> PENDING" "go_get (nd_SeenTxs n) (sl h) = None"
    using n(5,6) by (simp_all add: go_get_def)
  from post_end_to_end[OF wallet_scrypt_ok wallet_ecdsa_ok wallet_pow_solvable n(1,2) ready n(4) this(1) n(7) n(8)[folded priv(1)] val
      tx[folded priv(1)] h this(2) priv(3)]
  obtain n1 where app: "AppendTx wallet_env tx 3 n = Ret (n1, Polling (sl h) (nd_servers n))"
    and turn: "\<forall>now ord. mset ord = mset (map fst (nd_PendingTxs n1)) \<longrightarrow>
      (\<exists>n2 n3 b answer. mine wallet_env now ord n1 = Some (Ret (n2, map (\<lambda>c. (c, b)) (nd_servers n))) \<and>
        nd_Blockchain n2 = nd_Blockchain n @ [Some b] \<and> butlast (b_Transactions b) = [tx] \<and> AppendTx_poll (sl h) n2 = Ret (n3, answer) \<and> answer = Some True \<and>
        (\<forall>unet anet. unet 0 (ck_current demo_clerk) = Some (GetUtxo (list_order (nd_Utxo n)) (pubkeyHash wallet_env 7) n) \<longrightarrow>
           anet tx 0 (ck_current demo_clerk) = answer \<longrightarrow> Post wallet_env unet anet demo_clerk [104, 105] = Some (Ret True)))"
    unfolding priv by blast
  have "\<exists>n2 n3 msgs. mine wallet_env now ord n1 = Some (Ret (n2, msgs)) \<and> AppendTx_poll (sl h) n2 = Ret (n3, Some True)"
    if "mset ord = mset (map fst (nd_PendingTxs n1))" for now ord
    using turn that by blast
  moreover have "fst (GetUtxo (list_order (nd_Utxo n)) (pubkeyHash wallet_env 7) n) = u # us" using n(8) by simp
  ultimately show ?thesis using tx app by metis
qed

end
