(* ===== verification/History.thy ===== *)
theory History
  imports Consensus
begin

text \<open>
  The chain as an audit trail: every block of a reachable node was checked against the ledger of the
  blocks before it, whether it was received by \<^verbatim>\<open>SendBlock\<close> or built by \<^verbatim>\<open>mine\<close>.  \<open>block_checked\<close> is the
  check, \<open>history_ok\<close> says that it holds at every height; the locale \<open>invariant_system\<close> is interpreted
  once more, for this invariant.
\<close>

subsection \<open>The check of a block against the chain before it\<close>

definition block_checked :: "env \<Rightarrow> UtxoDb \<Rightarrow> Block option list \<Rightarrow> Block \<Rightarrow> bool" where
  "block_checked E db chain b \<longleftrightarrow> (let txs = b_Transactions b in
     txs \<noteq> [] \<and> tx_Type (last txs) = COINBASE \<and>
     map to_Value (tx_TxOuts (last txs)) = [word_of_nat (length txs - 1 + 100)] \<and>
     list_all (\<lambda>tx. tx_Type tx = COINBASE \<or> tx_accepted E db chain tx) txs)"

definition history_ok :: "env \<Rightarrow> Block list \<Rightarrow> bool" where
  "history_ok E bs \<longleftrightarrow> (\<forall>i. 0 < i \<and> i < length bs \<longrightarrow>
     (\<exists>db. apply_chain E (map Some (take i bs)) empty_utxo = Ret db \<and> block_checked E db (map Some (take i bs)) (bs ! i)))"

lemma history_ok_single [simp]: "history_ok E [b]"
  by (simp add: history_ok_def)

lemma history_ok_snoc:
  assumes "history_ok E bs" and "apply_chain E (map Some bs) empty_utxo = Ret db" and "block_checked E db (map Some bs) b"
  shows "history_ok E (bs @ [b])"
  unfolding history_ok_def
proof (intro allI impI)
  fix i assume i: "0 < i \<and> i < length (bs @ [b])"
  let ?goal = "\<lambda>pre x. \<exists>db. apply_chain E (map Some pre) empty_utxo = Ret db \<and> block_checked E db (map Some pre) x"
  show "?goal (take i (bs @ [b])) ((bs @ [b]) ! i)"
  proof (cases "i < length bs")
    case True
    with i assms(1) have "?goal (take i bs) (bs ! i)" by (simp add: history_ok_def)
    with True show ?thesis by (simp add: nth_append)
  next
    case False
    with i have "i = length bs" by simp
    with assms(2,3) show ?thesis by auto
  qed
qed

lemma received_block_checked:
  assumes "ValidateBlock E b = Ret None" and "validateBlockTxs E db chain b = Ret None"
  shows "block_checked E db chain b"
proof -
  have ne: "b_Transactions b \<noteq> []" and cb: "VerifyCoinbaseTx (last (b_Transactions b)) = None"
    using assms(1) by (auto simp: ValidateBlock_None)
  have txs: "\<forall>tx \<in> set (b_Transactions b). if tx_Type tx = COINBASE
      then tx_TxOuts tx \<noteq> [] \<and> to_Value (hd (tx_TxOuts tx)) = word_of_nat ((length (b_Transactions b) - 1) * TX_FEE + TX_COINBASE)
      else tx_accepted E db chain tx"
    using assms(2) by (simp only: validateBlockTxs_def validate_txs_None)
  have type: "tx_Type (last (b_Transactions b)) = COINBASE" "length (tx_TxOuts (last (b_Transactions b))) = 1"
    using cb by (simp_all add: VerifyCoinbaseTx_None)
  with txs last_in_set[OF ne] have "to_Value (hd (tx_TxOuts (last (b_Transactions b)))) = word_of_nat (length (b_Transactions b) - 1 + 100)"
    by (simp add: TX_FEE_def TX_COINBASE_def)
  with type have "map to_Value (tx_TxOuts (last (b_Transactions b))) = [word_of_nat (length (b_Transactions b) - 1 + 100)]"
    by (cases "tx_TxOuts (last (b_Transactions b))") auto
  moreover have "list_all (\<lambda>tx. tx_Type tx = COINBASE \<or> tx_accepted E db chain tx) (b_Transactions b)"
    unfolding list_all_iff using txs by metis
  ultimately show ?thesis using ne type(1) by (simp add: block_checked_def Let_def)
qed

lemma mined_block_checked:
  assumes "collect_pending E db chain ord (p, []) = Ret (p0, tns)"
    and "GenerateBlock E now prev (map tn_Tx tns) pubHash = Some (Ret b)"
  shows "block_checked E db chain b"
proof -
  have "\<forall>tn \<in> set tns. tx_accepted E db chain (tn_Tx tn)"
    using collect_pending_Ret[OF assms(1)] by (simp add: validateTransaction_None)
  then have "list_all (tx_accepted E db chain) (map tn_Tx tns)" by (simp add: list_all_iff)
  moreover have "b_Transactions b = map tn_Tx tns @ [MakeCoinbaseTx (map tn_Tx tns) pubHash]" by (rule GenerateBlock_Ret[OF assms(2)])
  moreover have "tx_Type (MakeCoinbaseTx txs pubHash) = COINBASE"
    "map to_Value (tx_TxOuts (MakeCoinbaseTx txs pubHash)) = [word_of_nat (length txs + 100)]" for txs
    by (simp_all add: MakeCoinbaseTx_def Let_def TX_FEE_def TX_COINBASE_def)
  ultimately show ?thesis by (simp add: block_checked_def Let_def list_all_iff)
qed

subsection \<open>Preservation\<close>

definition audited :: "env \<Rightarrow> DRNode \<Rightarrow> bool" where
  "audited E n \<longleftrightarrow> node_inv E n \<and> history_ok E (map the (nd_Blockchain n)) \<and>
     (scrypt_ok E \<longrightarrow> b_Transactions (the (hd (nd_Blockchain n))) = [genesis_tx])"

lemma audited_keep: "audited E n \<Longrightarrow> node_inv E n' \<Longrightarrow> nd_Blockchain n' = nd_Blockchain n \<Longrightarrow> audited E n'"
  by (simp add: audited_def)

lemma audited_grow:
  assumes "audited E n" and "node_inv E n'" and "nd_Blockchain n' = nd_Blockchain n @ [Some b]"
    and "block_checked E (nd_Utxo n) (nd_Blockchain n) b"
  shows "audited E n'"
proof -
  obtain bs where bs: "nd_Blockchain n = map Some bs" using assms(1) unfolding audited_def by (blast elim: node_invE)
  have "bs \<noteq> []" using assms(1) bs by (auto simp: audited_def node_inv_def chain_ok_def)
  have "apply_chain E (map Some bs) empty_utxo = Ret (nd_Utxo n)" using assms(1) bs by (simp add: audited_def node_inv_def)
  then have "history_ok E (bs @ [b])"
    using assms(1,4) bs by (intro history_ok_snoc) (simp_all add: audited_def comp_def)
  with assms(1-3) bs \<open>bs \<noteq> []\<close> show ?thesis by (cases bs) (simp_all add: audited_def comp_def)
qed

lemma audited_SendBlock:
  assumes "audited E n" and "SendBlock E b n = Ret (n', err)"
  shows "audited E n'"
proof -
  have inv: "node_inv E n" using assms(1) by (simp add: audited_def)
  note inv' = node_inv_SendBlock[OF inv assms(2)]
  obtain bs where bs: "nd_Blockchain n = map Some bs" "bs \<noteq> []" using inv by (rule node_invE)
  have "nd_SideChains n = []" "nd_OrphanChains n = []" using inv by (simp_all add: node_inv_def)
  from assms(2) bs this show ?thesis
  proof (cases rule: SendBlock_cases)
    case (rejected h)
    then show ?thesis by (intro audited_keep[OF assms(1) inv']) simp
  next
    case (accepted p db k)
    show ?thesis
      by (rule audited_grow[OF assms(1) inv' _ received_block_checked[OF accepted(2,4)]]) (simp add: accepted(5))
  qed
qed

lemma audited_step:
  assumes "audited E n" and "node_step E n n'"
  shows "audited E n'"
proof -
  have inv: "node_inv E n" using assms(1) by (simp add: audited_def)
  note inv' = node_inv_step[OF inv assms(2)]
  obtain bs where bs: "nd_Blockchain n = map Some bs" "bs \<noteq> []" using inv by (rule node_invE)
  note keep = audited_keep[OF assms(1) inv']
  from assms(2) show ?thesis
  proof cases
    case (step_SendBlock b err)
    with assms(1) show ?thesis by (blast intro: audited_SendBlock)
  next
    case (step_mine ord now msgs)
    from step_mine(2) bs show ?thesis
    proof (cases rule: mine_cases)
      case (idle p)
      then show ?thesis by (intro keep) simp
    next
      case (mined tns b p0 p db prev)
      show ?thesis
        by (rule audited_grow[OF assms(1) inv' _ mined_block_checked[OF mined(1,2)]]) (simp add: mined(4))
    qed
  next
    case (step_poll s res)
    then show ?thesis by (rule AppendTx_poll_Ret) (use keep in auto)
  next
    case (step_Gossip dial args reply)
    then show ?thesis by (intro keep) (auto simp: Gossip_def Let_def split: if_splits)
  next
    case (step_gossip_receive dial)
    then show ?thesis using inv by (auto simp: gossip_receive_def node_inv_def)
  qed (use inv' in \<open>auto simp: AppendTx_def go_simps Let_def gossip_send_def Kill_def split: if_splits intro!: audited_keep[OF assms(1)]\<close>)
qed

subsection \<open>Start-up\<close>

lemma audited_start:
  assumes "node_start E n"
  shows "audited E n"
proof -
  obtain n0 dial ask me port pubHash servers where n0: "bootstrap E (new_node me port pubHash) = Some (Ret n0)"
      and n: "connect_servers E dial ask servers n0 = Ret n"
    using assms by (auto simp: node_start_def StartDRNode_def go_simps)
  have "audited E n0"
    using bootstrap_inv[OF n0] n0 GenerateGenesisBlock_Ret(1) by (auto simp: audited_def bootstrap_def go_simps)
  with n show ?thesis
  proof (rule connect_servers_invariant)
    fix m s assume m: "audited E m"
    then have "node_inv E (m\<lparr>nd_servers := nd_servers m @ [s], nd_ports := nd_ports m @ [s]\<rparr>)"
      unfolding audited_def by (auto intro: node_inv_frame)
    with m show "audited E (m\<lparr>nd_servers := nd_servers m @ [s], nd_ports := nd_ports m @ [s]\<rparr>)"
      by (rule audited_keep) simp
  next
    fix m log assume "audited E m" "length (nd_Blockchain m) = 1"
    then show "audited E (m\<lparr>nd_Log := log\<rparr>)" by (auto simp: audited_def node_inv_short_log)
  qed (rule audited_SendBlock)
qed

interpretation hist: invariant_system "node_start E" "node_step E" "audited E" for E
  by unfold_locales (auto intro: audited_start audited_step)

lemma reach_history:
  assumes "reach (node_start E) (node_step E) n" and "nd_Blockchain n = map Some bs"
  shows "history_ok E bs"
  using hist.inv_reach[OF assms(1)] assms(2) by (simp add: audited_def comp_def)

lemma chain_tx_accepted:
  assumes "history_ok E bs" and "b \<in> set (tl bs)" and "tx \<in> set (b_Transactions b)" and "tx_Type tx \<noteq> COINBASE"
  shows "\<exists>db chain. tx_accepted E db chain tx"
proof -
  obtain i where i: "i < length (tl bs)" "b = tl bs ! i" using assms(2) by (auto simp: in_set_conv_nth)
  then have "0 < Suc i \<and> Suc i < length bs" "b = bs ! Suc i" by (simp_all add: nth_tl)
  with assms(1) obtain db where "block_checked E db (map Some (take (Suc i) bs)) b" unfolding history_ok_def by blast
  with assms(3,4) show ?thesis unfolding block_checked_def Let_def list_all_iff by blast
qed

lemma chain_genesis:
  assumes "reach (node_start E) (node_step E) n" and "scrypt_ok E" and "nd_Blockchain n = map Some bs"
  shows "b_Transactions (hd bs) = [genesis_tx]" and "bs \<noteq> []"
proof -
  show "bs \<noteq> []" using ninv.inv_reach[OF assms(1)] assms(3) by (auto simp: node_inv_def chain_ok_def)
  then show "b_Transactions (hd bs) = [genesis_tx]"
    using hist.inv_reach[OF assms(1)] assms(2,3) by (simp add: audited_def hd_map)
qed

subsection \<open>Properties\<close>

text \<open>C2: The chain of a reachable node can be audited: replaying the blocks before height \<open>i\<close> never panics and
  gives a database for which the block at height \<open>i\<close> is right: its last transaction is a coinbase with
  one output worth 100 and one for each other transaction, and every transaction of another type is
  accepted against that database and those blocks.\<close>

theorem reachable_chain_audited:
  assumes "reach (node_start E) (node_step E) n" and "nd_Blockchain n = map Some bs" and "0 < i" and "i < length bs"
  shows "\<exists>db. apply_chain E (map Some (take i bs)) empty_utxo = Ret db \<and>
    block_checked E db (map Some (take i bs)) (bs ! i)"
  using reach_history[OF assms(1,2)] assms(3,4) by (simp add: history_ok_def)

theorem reachable_chain_audited_witness:
  "\<exists>n g b db. reach (node_start demo_env) (node_step demo_env) n \<and> nd_Blockchain n = map Some [g, b] \<and>
     block_checked demo_env db [Some g] b"
proof -
  obtain n0 n1 n2 b s where t: "reach (node_start demo_env) (node_step demo_env) n0"
      "AppendTx demo_env demo_empty_transfer 3 n0 = Ret (n1, Polling s [''2''])"
      "mset [s] = mset (map fst (nd_PendingTxs n1))" "same_ledger n1 n0"
      "mine demo_env 0 [s] n1 = Some (Ret (n2, [(''2'', b)]))" "nd_Blockchain n2 = nd_Blockchain n1 @ [Some b]"
      "length (nd_Blockchain n1) = 1"
    by (rule demo_turn)
  have "reach (node_start demo_env) (node_step demo_env) n1" using t(1) step_AppendTx[OF t(2)] by (rule reach_step)
  then have reach: "reach (node_start demo_env) (node_step demo_env) n2" using step_mine[OF t(3,5)] by (rule reach_step)
  obtain bs where bs: "nd_Blockchain n1 = map Some bs"
    using ninv.inv_reach[OF \<open>reach (node_start demo_env) (node_step demo_env) n1\<close>] by (rule node_invE)
  with t(7) obtain g where "bs = [g]" by (cases bs) auto
  with bs t(6) have chain: "nd_Blockchain n2 = map Some [g, b]" by simp
  from reachable_chain_audited[OF reach chain, of 1] obtain db where "block_checked demo_env db [Some g] b" by auto
  with reach chain show ?thesis by blast
qed

end
