(* ===== verification/Forum.thy ===== *)
theory Forum
  imports Pipeline History
begin

text \<open>
  The posts, comments and upvotes on a chain.  \<open>chain_txs\<close> lists the transactions of a chain, \<open>answers\<close> relates a
  comment or an upvote to what it names.  The last part is a run with a post and a comment on the chain.
\<close>

subsection \<open>The forum on the chain\<close>

text \<open>The transactions of a chain, in order.\<close>

definition chain_txs :: "Block list \<Rightarrow> Transaction list" where
  "chain_txs bs = concat (map b_Transactions bs)"

lemma apply_txs_hashes:
  assumes "apply_txs E txs db = Ret db'" and "tx \<in> set txs"
  shows "\<exists>h. Tx_Hash E tx = Ret h"
  using assms unfolding apply_txs_def
  by (induction txs arbitrary: db) (auto simp: bind_go_eq_Ret updateUtxoDb_Ret)

lemma chain_tx_hash:
  assumes "node_inv E n" and "nd_Blockchain n = map Some bs" and "tx \<in> set (chain_txs bs)"
  shows "\<exists>h. Tx_Hash E tx = Ret h"
proof -
  have "\<exists>h. Tx_Hash E tx = Ret h" if "apply_chain E (map Some bs) db = Ret db'" "b \<in> set bs" "tx \<in> set (b_Transactions b)" for b db db'
    using that
  proof (induction bs arbitrary: db)
    case Nil
    then show ?case by simp
  next
    case (Cons b' bs)
    then obtain db1 where "apply_txs E (b_Transactions b') db = Ret db1" "apply_chain E (map Some bs) db1 = Ret db'"
      by (auto simp: apply_chain_def bind_go_eq_Ret)
    with Cons show ?case using apply_txs_hashes by auto
  qed
  with assms show ?thesis by (auto simp: node_inv_def chain_txs_def)
qed

lemma find_tx_Some: "find_tx E k txs = Ret (Some tx) \<Longrightarrow> tx \<in> set txs \<and> (\<exists>h. Tx_Hash E tx = Ret h \<and> sl h = k)"
  by (induction txs) (auto simp: bind_go_eq_Ret split: if_splits)

lemma findTxInBlockChain_Some:
  "findTxInBlockChain E k (map Some bs) = Ret (Some tx) \<Longrightarrow> tx \<in> set (chain_txs bs) \<and> (\<exists>h. Tx_Hash E tx = Ret h \<and> sl h = k)"
  by (induction bs) (auto simp: bind_go_eq_Ret chain_txs_def dest!: find_tx_Some split: if_splits)

text \<open>A comment or an upvote at height \<open>i\<close> and its parent.\<close>

definition answers :: "env \<Rightarrow> Block list \<Rightarrow> Transaction \<Rightarrow> Transaction \<Rightarrow> bool" where
  "answers E before tx parent \<longleftrightarrow> parent \<in> set (chain_txs before) \<and> (\<exists>h. Tx_Hash E parent = Ret h \<and> sl h = sl (tx_Parent tx)) \<and>
     (tx_Type parent = POST \<or> tx_Type parent = COMMENT) \<and>
     (tx_Type tx = UPVOTE \<longrightarrow> to_PubKeyHash (hd (tx_TxOuts tx)) = to_PubKeyHash (hd (tx_TxOuts parent)))"

lemma chain_tx_at:
  assumes "reach (node_start E) (node_step E) n" and "scrypt_ok E" and "nd_Blockchain n = map Some bs"
    and "i < length bs" and "tx \<in> set (b_Transactions (bs ! i))" and "tx_Type tx \<noteq> COINBASE"
  shows "\<exists>db. tx_accepted E db (map Some (take i bs)) tx"
proof -
  have "bs ! 0 = hd bs" using chain_genesis(2)[OF assms(1-3)] by (simp add: hd_conv_nth)
  moreover have "tx_Type genesis_tx = COINBASE" by (simp add: genesis_tx_def)
  ultimately have "i \<noteq> 0" using assms(5,6) chain_genesis(1)[OF assms(1-3)] by (cases i) auto
  with assms(4) reach_history[OF assms(1,3)] obtain db where "block_checked E db (map Some (take i bs)) (bs ! i)"
    by (auto simp: history_ok_def)
  with assms(5,6) show ?thesis by (auto simp: block_checked_def Let_def list_all_iff)
qed

lemma chain_answers:
  assumes "reach (node_start E) (node_step E) n" and "scrypt_ok E" and "nd_Blockchain n = map Some bs"
    and "i < length bs" and "tx \<in> set (b_Transactions (bs ! i))" and "tx_Type tx = COMMENT \<or> tx_Type tx = UPVOTE"
  shows "\<exists>parent. answers E (take i bs) tx parent"
proof -
  have "tx_Type tx \<noteq> COINBASE" using assms(6) by (auto simp: tx_type_defs)
  from chain_tx_at[OF assms(1-5) this] obtain db where "tx_accepted E db (map Some (take i bs)) tx" by blast
  then obtain parent where "findTxInBlockChain E (sl (tx_Parent tx)) (map Some (take i bs)) = Ret (Some parent)"
      "tx_Type parent = POST \<or> tx_Type parent = COMMENT"
      "tx_Type tx = UPVOTE \<longrightarrow> to_PubKeyHash (hd (tx_TxOuts tx)) = to_PubKeyHash (hd (tx_TxOuts parent))"
    using assms(6) unfolding tx_accepted_def parent_ok_def by blast
  then show ?thesis using findTxInBlockChain_Some unfolding answers_def by blast
qed

subsection \<open>A forum for evaluation\<close>

text \<open>The parent lookup on a chain of the genesis block and one with a post.\<close>

lemma wallet_find_post:
  assumes "b_Transactions g = [genesis_tx]" and "b_Transactions b = [tx, cb]" and "validateComponents tx = None" and "tx_Type tx = POST"
  shows "findTxInBlockChain wallet_env (sl (Hash wallet_env (tx_layout in_layout tx))) [Some g, Some b] = Ret (Some tx)"
proof -
  have "tx_Type genesis_tx \<noteq> tx_Type tx" using assms(4) by (simp add: genesis_tx_def tx_type_defs)
  then have "sl (Hash wallet_env (tx_layout in_layout genesis_tx)) \<noteq> sl (Hash wallet_env (tx_layout in_layout tx))"
    using wallet_hash_type by blast
  then show ?thesis using assms(1-3) by (simp add: Tx_Hash_layout genesis_components)
qed

text \<open>The coinbase of the last block is a coin.\<close>

lemma coinbase_coin:
  assumes "b_Transactions b = txs @ [MakeCoinbaseTx txs' addr]" and "length (fst (DecodeString addr)) = PKHASH_NUM_BYTES"
  shows "chain_coins E (bs @ [b]) (sl (Hash E (tx_layout in_layout (MakeCoinbaseTx txs' addr))), 0) =
    Some (fst (DecodeString addr), word_of_nat (length txs' + 100))"
proof -
  have "validateComponents (MakeCoinbaseTx txs' addr) = None"
    using assms(2) by (simp add: validateComponents_None MakeCoinbaseTx_def Let_def)
  moreover have "tx_outputs h (MakeCoinbaseTx txs' addr) = [((h, 0), (fst (DecodeString addr), word_of_nat (length txs' + 100)))]" for h
    by (simp add: tx_outputs_def MakeCoinbaseTx_def Let_def TX_FEE_def TX_COINBASE_def)
  ultimately show ?thesis
    using assms(1) by (simp add: chain_coins_def tx_effect_def Tx_Hash_layout apply_coins_def)
qed

text \<open>One turn of the node of \<open>wallet_env\<close>: an accepted transaction is registered and mined.\<close>

lemma wallet_turn:
  assumes n: "reach (node_start wallet_env) (node_step wallet_env) n" "\<not> nd_quit n" "nd_numPending n = 0"
      "nd_pubHash n = hd genesis_pubKeyHashB64"
    and idle: "\<forall>s tn. go_get (nd_PendingTxs n) s = Some tn \<longrightarrow> tn_Status tn \<noteq> PENDING"
    and tx: "validateTransaction wallet_env (nd_Utxo n) (nd_Blockchain n) tx = Ret None" "distinct (tx_inputs tx)"
      "go_get (nd_SeenTxs n) (sl (Hash wallet_env (tx_layout in_layout tx))) = None"
  obtains n1 n2 s b msgs ord where "AppendTx wallet_env tx 3 n = Ret (n1, Polling s (nd_servers n))"
    and "mine wallet_env now ord n1 = Some (Ret (n2, msgs))" and "reach (node_start wallet_env) (node_step wallet_env) n2"
    and "nd_Blockchain n2 = nd_Blockchain n @ [Some b]" and "butlast (b_Transactions b) = [tx]"
    and "s = sl (Hash wallet_env (tx_layout in_layout tx))" and "mset ord = mset (map fst (nd_PendingTxs n1))"
proof -
  have "length (fst (DecodeString (nd_pubHash n))) = PKHASH_NUM_BYTES"
    using genesis_addresses n(4) by (simp add: genesis_pubKeyHashB64_def PKHASH_NUM_BYTES_def)
  moreover have "BLOCK_SIZE_THRESHOLD wallet_env \<le> nd_numPending n + 1" using n(3) by (simp add: wallet_env_def demo_env_def)
  ultimately obtain n1 s where n1: "AppendTx wallet_env tx 3 n = Ret (n1, Polling s (nd_servers n))"
    and turn: "\<And>now ord. mset ord = mset (map fst (nd_PendingTxs n1)) \<Longrightarrow>
        \<exists>n2 n3 b. mine wallet_env now ord n1 = Some (Ret (n2, map (\<lambda>c. (c, b)) (nd_servers n))) \<and>
          nd_Blockchain n2 = nd_Blockchain n @ [Some b] \<and> butlast (b_Transactions b) = [tx]"
    using submitted_tx_mined[OF wallet_scrypt_ok wallet_pow_solvable ninv.inv_reach[OF n(1)] n(2) _ _ idle tx] by metis
  define ord where "ord = map fst (nd_PendingTxs n1)"
  from turn[of ord now] obtain n2 b where n2: "mine wallet_env now ord n1 = Some (Ret (n2, map (\<lambda>c. (c, b)) (nd_servers n)))"
      "nd_Blockchain n2 = nd_Blockchain n @ [Some b]" "butlast (b_Transactions b) = [tx]" by (auto simp: ord_def)
  have "reach (node_start wallet_env) (node_step wallet_env) n1" using n(1) step_AppendTx[OF n1] by (rule reach_step)
  then have "reach (node_start wallet_env) (node_step wallet_env) n2" using step_mine[OF _ n2(1)] by (rule reach_step) (simp add: ord_def)
  moreover have "s = sl (Hash wallet_env (tx_layout in_layout tx))"
  proof -
    have "Tx_Hash wallet_env tx = Ret (Hash wallet_env (tx_layout in_layout tx))"
      using tx(1) by (intro Tx_Hash_layout) (simp add: validateTransaction_None tx_accepted_def)
    with n1 show ?thesis by (auto simp: AppendTx_def Let_def split: if_splits)
  qed
  moreover have "mset ord = mset (map fst (nd_PendingTxs n1))" by (simp add: ord_def)
  ultimately show thesis using that n1 n2 by blast
qed

text \<open>A fresh node and a post that it accepts.\<close>

lemma wallet_post_ready:
  obtains n tx where "StartDRNode wallet_env (\<lambda>_. False) (\<lambda>_. None) 0 ''1'' (hd genesis_pubKeyHashB64) [] = Some (Ret n)"
    and "reach (node_start wallet_env) (node_step wallet_env) n" and "\<not> nd_quit n" and "nd_numPending n = 0"
    and "nd_PendingTxs n = []" and "nd_SeenTxs n = []" and "nd_pubHash n = hd genesis_pubKeyHashB64"
    and "\<exists>g. nd_Blockchain n = [Some g]" and "tx_Type tx = POST" and "distinct (tx_inputs tx)"
    and "validateTransaction wallet_env (nd_Utxo n) (nd_Blockchain n) tx = Ret None"
proof -
  obtain n u us where n: "reach (node_start wallet_env) (node_step wallet_env) n" "\<not> nd_quit n" "nd_numPending n = 0"
      "length (fst (DecodeString (nd_pubHash n))) = 20" "nd_PendingTxs n = []" "nd_SeenTxs n = []"
      "visits (list_order (nd_Utxo n)) (nd_Utxo n)"
      "GetUtxo (list_order (nd_Utxo n)) (pubkeyHash wallet_env 7) n = (u # us, True)" "ut_Value u = 100"
      "nd_pubHash n = hd genesis_pubKeyHashB64" "\<exists>g. nd_Blockchain n = [Some g]"
      "StartDRNode wallet_env (\<lambda>_. False) (\<lambda>_. None) 0 ''1'' (hd genesis_pubKeyHashB64) [] = Some (Ret n)"
    by (rule wallet_node)
  have "owned wallet_env (nd_Utxo n) 7 u" using GetUtxo_owned[OF n(1) wallet_scrypt_ok n(7), of u 7] n(8) by simp
  from single_post_accepted[OF wallet_scrypt_ok wallet_ecdsa_ok this, of POST None "nd_Blockchain n" _ "Some [104]"] n(9)
  obtain tx where "validateTransaction wallet_env (nd_Utxo n) (nd_Blockchain n) tx = Ret None" "tx_Type tx = POST"
      "tx_inputs tx = [(ut_TxHash u, ut_TxOutIndex u)]" by (auto simp: parent_ok_def tx_type_defs)
  with that n show thesis by simp
qed

text \<open>The first block after the genesis block holds a post; its coinbase pays every key of \<open>wallet_env\<close>.\<close>

lemma wallet_first_post:
  obtains n n2 tx s b u where "reach (node_start wallet_env) (node_step wallet_env) n" and "nd_numPending n = 0"
    and "nd_PendingTxs n = []" and "nd_SeenTxs n = []" and "\<not> nd_quit n"
    and "reach (node_start wallet_env) (node_step wallet_env) n2" and "\<not> nd_quit n2" and "nd_numPending n2 = 0"
    and "nd_pubHash n2 = hd genesis_pubKeyHashB64" and "nd_SeenTxs n2 = [(s, True)]"
    and "\<forall>s' tn'. go_get (nd_PendingTxs n2) s' = Some tn' \<longrightarrow> tn_Status tn' \<noteq> PENDING"
    and "\<exists>g. nd_Blockchain n2 = [Some g, Some b]" and "\<exists>cb. b_Transactions b = [tx, cb]"
    and "tx_Type tx = POST" and "s = sl (Hash wallet_env (tx_layout in_layout tx))"
    and "findTxInBlockChain wallet_env s (nd_Blockchain n2) = Ret (Some tx)"
    and "owned wallet_env (nd_Utxo n2) 7 u" and "ut_Value u = 101"
    and "\<exists>m. SendBlock wallet_env b n = Ret (m, None) \<and> same_ledger n2 m" and "nd_Blockchain n2 \<noteq> nd_Blockchain n"
proof -
  let ?reach = "reach (node_start wallet_env) (node_step wallet_env)"
  obtain n tx where n: "?reach n" "\<not> nd_quit n" "nd_numPending n = 0" "nd_PendingTxs n = []" "nd_SeenTxs n = []"
      "nd_pubHash n = hd genesis_pubKeyHashB64" and single: "\<exists>g. nd_Blockchain n = [Some g]"
    and tx: "validateTransaction wallet_env (nd_Utxo n) (nd_Blockchain n) tx = Ret None" "tx_Type tx = POST" "distinct (tx_inputs tx)"
    by (rule wallet_post_ready)
  then obtain g where g: "nd_Blockchain n = map Some [g]" by auto
  have genesis: "b_Transactions g = [genesis_tx]" using chain_genesis(1)[OF n(1) wallet_scrypt_ok g] by simp
  have addr: "length (fst (DecodeString (nd_pubHash n))) = PKHASH_NUM_BYTES"
    using genesis_addresses n(6) by (simp add: genesis_pubKeyHashB64_def PKHASH_NUM_BYTES_def)
  have comps: "validateComponents tx = None" using tx(1) by (simp add: validateTransaction_None tx_accepted_def)
  have idle: "\<forall>s tn. go_get (nd_PendingTxs n) s = Some tn \<longrightarrow> tn_Status tn \<noteq> PENDING" using n(4) by (simp add: go_get_def)
  obtain n1 n2 s b msgs ord where app: "AppendTx wallet_env tx 3 n = Ret (n1, Polling s (nd_servers n))"
      and turn: "mine wallet_env 0 ord n1 = Some (Ret (n2, msgs))" and reach2: "?reach n2"
      and b: "nd_Blockchain n2 = nd_Blockchain n @ [Some b]" "butlast (b_Transactions b) = [tx]"
      and s: "s = sl (Hash wallet_env (tx_layout in_layout tx))"
    by (rule wallet_turn[where now = 0, OF n(1-3,6) idle tx(1)]) (use tx(3) n(5) in \<open>auto simp: go_get_def\<close>)
  note frame = turn_frame[OF ninv.inv_reach[OF n(1)] n(4) app turn b]
  have chain: "nd_Blockchain n2 = map Some ([g] @ [b])" using b(1) g by simp
  let ?cb = "MakeCoinbaseTx [tx] (nd_pubHash n)"
  let ?u = "\<lparr>ut_TxHash = sl (Hash wallet_env (tx_layout in_layout ?cb)), ut_TxOutIndex = 0, ut_Value = 101\<rparr>"
  have "unspent (nd_Utxo n2) = chain_coins wallet_env ([g] @ [b])" using node_inv_coins[OF ninv.inv_reach[OF reach2] chain] by simp
  moreover have "chain_coins wallet_env ([g] @ [b]) (ut_TxHash ?u, ut_TxOutIndex ?u) = Some (pubkeyHash wallet_env 7, ut_Value ?u)"
    using coinbase_coin[of b "[tx]" "[tx]" "nd_pubHash n" wallet_env "[g]"] frame(1) addr n(6) by (simp add: wallet_address)
  ultimately have own: "owned wallet_env (nd_Utxo n2) 7 ?u" using wallet_scrypt_ok by (simp add: owned_def)
  have find: "findTxInBlockChain wallet_env s (nd_Blockchain n2) = Ret (Some tx)"
    using wallet_find_post[OF genesis frame(1) comps tx(2)] chain s by simp
  have n1: "same_ledger n1 n" "\<forall>k tn. go_get (nd_PendingTxs n1) k = Some tn \<longrightarrow> tx_Type (tn_Tx tn) \<noteq> COINBASE"
    using app n(4) tx(2) by (auto simp: AppendTx_def go_simps Let_def same_ledger_def go_put_def go_get_def tx_type_defs split: if_splits)
  have "nd_Blockchain n2 = nd_Blockchain n1 @ [Some b]" using b(1) n1(1) by (simp add: same_ledger_def)
  then have "\<exists>m. SendBlock wallet_env b n = Ret (m, None) \<and> same_ledger n2 m"
    using mined_block_at_peer[OF node_inv_AppendTx[OF ninv.inv_reach[OF n(1)] app] ninv.inv_reach[OF n(1)] n1(1) turn _ n1(2)] by blast
  then show thesis
    using that[OF n(1,3,4,5,2) reach2 _ _ _ _ frame(6) _ _ tx(2) s find own] frame(1-5) n chain g by simp
qed

text \<open>A run in which a post and then a comment on it are mined.\<close>

lemma wallet_forum:
  obtains n bs tx where "reach (node_start wallet_env) (node_step wallet_env) n" and "nd_Blockchain n = map Some bs" and "length bs = 3"
    and "tx \<in> set (b_Transactions (bs ! 2))" and "tx_Type tx = COMMENT"
proof -
  obtain n n2 tx s b u where n2: "reach (node_start wallet_env) (node_step wallet_env) n2" "\<not> nd_quit n2" "nd_numPending n2 = 0"
      "nd_pubHash n2 = hd genesis_pubKeyHashB64" "nd_SeenTxs n2 = [(s, True)]"
    and idle: "\<forall>s' tn'. go_get (nd_PendingTxs n2) s' = Some tn' \<longrightarrow> tn_Status tn' \<noteq> PENDING"
    and chain: "\<exists>g. nd_Blockchain n2 = [Some g, Some b]"
    and tx: "tx_Type tx = POST" "s = sl (Hash wallet_env (tx_layout in_layout tx))"
      "findTxInBlockChain wallet_env s (nd_Blockchain n2) = Ret (Some tx)"
    and u: "owned wallet_env (nd_Utxo n2) 7 u" "ut_Value u = 101"
    by (rule wallet_first_post)
  from single_post_accepted[OF wallet_scrypt_ok wallet_ecdsa_ok u(1), of COMMENT "Some s" "nd_Blockchain n2" _ "Some [105]"] tx u(2)
  obtain tx2 where tx2: "validateTransaction wallet_env (nd_Utxo n2) (nd_Blockchain n2) tx2 = Ret None" "tx_Type tx2 = COMMENT"
      "tx_inputs tx2 = [(ut_TxHash u, ut_TxOutIndex u)]" by (auto simp: parent_ok_def tx_type_defs)
  have "sl (Hash wallet_env (tx_layout in_layout tx2)) \<noteq> s"
    using wallet_hash_type[of in_layout tx2 in_layout tx] tx(1,2) tx2(2) by (auto simp: tx_type_defs)
  then have unseen: "go_get (nd_SeenTxs n2) (sl (Hash wallet_env (tx_layout in_layout tx2))) = None"
    using n2(5) by (simp add: go_get_def)
  obtain n4 b2 where reach4: "reach (node_start wallet_env) (node_step wallet_env) n4"
      and b2: "nd_Blockchain n4 = nd_Blockchain n2 @ [Some b2]" "butlast (b_Transactions b2) = [tx2]"
    by (rule wallet_turn[where now = 0, OF n2(1-4) idle tx2(1) _ unseen]) (use tx2(3) in auto)
  from chain obtain g where g: "nd_Blockchain n2 = [Some g, Some b]" by blast
  show thesis
  proof (rule that[OF reach4])
    show "nd_Blockchain n4 = map Some [g, b, b2]" using b2(1) g by simp
    have "tx2 \<in> set (butlast (b_Transactions b2))" using b2(2) by simp
    then have "tx2 \<in> set (b_Transactions b2)" by (rule in_set_butlastD)
    then show "tx2 \<in> set (b_Transactions ([g, b, b2] ! 2))" by simp
  qed (use tx2(2) in simp_all)
qed

subsection \<open>Properties\<close>

text \<open>C21: The forum of a reachable node is well-formed: every comment and every upvote on its chain names, by its
  hash, a post or a comment in an earlier block, and an upvote pays the author of what it names.\<close>

theorem comments_and_upvotes_have_parents:
  assumes "reach (node_start E) (node_step E) n" and "scrypt_ok E" and "nd_Blockchain n = map Some bs"
    and "i < length bs" and "tx \<in> set (b_Transactions (bs ! i))" and "tx_Type tx = COMMENT \<or> tx_Type tx = UPVOTE"
  shows "\<exists>j parent h. j < i \<and> parent \<in> set (b_Transactions (bs ! j)) \<and> Tx_Hash E parent = Ret h \<and> sl h = sl (tx_Parent tx) \<and>
    (tx_Type parent = POST \<or> tx_Type parent = COMMENT) \<and>
    (tx_Type tx = UPVOTE \<longrightarrow> to_PubKeyHash (hd (tx_TxOuts tx)) = to_PubKeyHash (hd (tx_TxOuts parent)))"
proof -
  obtain parent where p: "answers E (take i bs) tx parent" using chain_answers[OF assms] by blast
  then obtain b where b: "b \<in> set (take i bs)" "parent \<in> set (b_Transactions b)" by (auto simp: answers_def chain_txs_def)
  then obtain j where "j < length (take i bs)" "take i bs ! j = b" unfolding in_set_conv_nth by blast
  with b(2) have "j < i" "parent \<in> set (b_Transactions (bs ! j))" by auto
  with p show ?thesis unfolding answers_def by blast
qed

theorem comments_and_upvotes_have_parents_witness:
  "\<exists>n bs tx. reach (node_start wallet_env) (node_step wallet_env) n \<and> nd_Blockchain n = map Some bs \<and> length bs = 3 \<and>
     tx \<in> set (b_Transactions (bs ! 2)) \<and> tx_Type tx = COMMENT \<and>
     (\<exists>j parent h. j < 2 \<and> parent \<in> set (b_Transactions (bs ! j)) \<and> Tx_Hash wallet_env parent = Ret h \<and> sl h = sl (tx_Parent tx))"
proof -
  obtain n bs tx where n: "reach (node_start wallet_env) (node_step wallet_env) n" "nd_Blockchain n = map Some bs" "length bs = 3"
      "tx \<in> set (b_Transactions (bs ! 2))" "tx_Type tx = COMMENT"
    by (rule wallet_forum)
  have "2 < length bs" using n(3) by simp
  from comments_and_upvotes_have_parents[OF n(1) wallet_scrypt_ok n(2) this n(4)] n show ?thesis by blast
qed

end
