(* ===== verification/BadClerk.thy ===== *)
theory BadClerk
  imports Clerk History
begin

text \<open>
  \<^verbatim>\<open>src/clerk/bad_clerk.go\<close>: a wallet that builds ill-formed posts, comments and upvotes, used to try the
  nodes' checks.  Each operation differs from the one of \<open>Clerk\<close> in the outputs of its transaction only;
  it queries, signs and submits with the embedded \<^verbatim>\<open>Clerk\<close>.  The last part shows that the nodes
  withstand it: its transactions are refused whatever the state, and never enter a chain.
\<close>

subsection \<open>The model\<close>

record BadClerk =
  bc_Clerk :: Clerk

definition MakeBadClerk :: "env \<Rightarrow> (string \<Rightarrow> bool) \<Rightarrow> int \<Rightarrow> string \<Rightarrow> string \<Rightarrow> string list \<Rightarrow> BadClerk option" where
  "MakeBadClerk E dial random port privKey servers =
     (let connected = filter dial servers;
          (pkBytes, err) = DecodeString privKey
      in if err then None
         else Some \<lparr>bc_Clerk = \<lparr>ck_port = port, ck_ports = connected, ck_servers = connected, ck_clerkId = random,
                     ck_current = 0, ck_privKey = PrivKeyFromBytes E pkBytes, ck_gossip = None\<rparr>\<rparr>)"

text \<open>\<^verbatim>\<open>txOuts\<close> is nil in the post and in the comment, and has one element in the upvote.\<close>

definition bad_post_tx :: "env \<Rightarrow> privkey \<Rightarrow> UnspentTx list \<Rightarrow> bytes \<Rightarrow> Transaction go" where
  "bad_post_tx E priv unspentTxs content =
     bind_go (go_nth unspentTxs 0) (\<lambda>utx.
       SignTx E priv \<lparr>tx_Type = POST, tx_TxIns = Some [spend_input (clerk_pubkey E priv) utx], tx_TxOuts = [],
         tx_Parent = None, tx_Content = Some content\<rparr>)"

definition bad_comment_tx :: "env \<Rightarrow> privkey \<Rightarrow> UnspentTx list \<Rightarrow> bytes \<Rightarrow> bytes \<Rightarrow> Transaction go" where
  "bad_comment_tx E priv unspentTxs parent content =
     bind_go (go_nth unspentTxs 0) (\<lambda>utx.
       SignTx E priv \<lparr>tx_Type = COMMENT, tx_TxIns = Some [spend_input (clerk_pubkey E priv) utx], tx_TxOuts = [],
         tx_Parent = Some parent, tx_Content = Some content\<rparr>)"

definition bad_upvote_tx :: "env \<Rightarrow> privkey \<Rightarrow> UnspentTx list \<Rightarrow> bytes \<Rightarrow> bytes \<Rightarrow> Transaction option go" where
  "bad_upvote_tx E priv unspentTxs parent destination =
     (let txFee = word_of_nat TX_FEE; upvote = word_of_nat TX_UPVOTE;
          (inputSum, txIns) = select_inputs (clerk_pubkey E priv) (upvote + txFee) unspentTxs 0 []
      in if inputSum < upvote + txFee then Ret None
         else let upvTx = \<lparr>to_Value = upvote, to_PubKeyHash = destination\<rparr>
              in bind_go (SignTx E priv \<lparr>tx_Type = UPVOTE, tx_TxIns = Some txIns, tx_TxOuts = [upvTx],
                                         tx_Parent = Some parent, tx_Content = None\<rparr>) (\<lambda>tx. Ret (Some tx)))"

definition BadPostStructure :: "env \<Rightarrow> utxo_net \<Rightarrow> append_net \<Rightarrow> BadClerk \<Rightarrow> bytes \<Rightarrow> bool go option" where
  "BadPostStructure E unet anet ck content =
     clerk_op unet anet (bc_Clerk ck) (\<lambda>unspentTxs.
       bind_go (bad_post_tx E (ck_privKey (bc_Clerk ck)) unspentTxs content) (\<lambda>tx. Ret (Some tx)))"

definition BadCommentStructure :: "env \<Rightarrow> utxo_net \<Rightarrow> append_net \<Rightarrow> BadClerk \<Rightarrow> bytes \<Rightarrow> bytes \<Rightarrow> bool go option" where
  "BadCommentStructure E unet anet ck parent content =
     clerk_op unet anet (bc_Clerk ck) (\<lambda>unspentTxs.
       bind_go (bad_comment_tx E (ck_privKey (bc_Clerk ck)) unspentTxs parent content) (\<lambda>tx. Ret (Some tx)))"

definition BadUpvoteStructure :: "env \<Rightarrow> utxo_net \<Rightarrow> append_net \<Rightarrow> BadClerk \<Rightarrow> bytes \<Rightarrow> bytes \<Rightarrow> bool go option" where
  "BadUpvoteStructure E unet anet ck parent destination =
     clerk_op unet anet (bc_Clerk ck) (\<lambda>unspentTxs.
       bad_upvote_tx E (ck_privKey (bc_Clerk ck)) unspentTxs parent destination)"

text \<open>The transactions a bad clerk can build.\<close>

definition bad_clerk_builds :: "env \<Rightarrow> Transaction \<Rightarrow> bool" where
  "bad_clerk_builds E tx \<longleftrightarrow> (\<exists>priv us parent content dest.
     bad_post_tx E priv us content = Ret tx \<or> bad_comment_tx E priv us parent content = Ret tx \<or>
     bad_upvote_tx E priv us parent dest = Ret (Some tx))"

subsection \<open>They are never accepted\<close>

lemma SignTx_frame:
  assumes "SignTx E priv tx = Ret tx'"
  shows "tx_Type tx' = tx_Type tx \<and> tx_TxOuts tx' = tx_TxOuts tx"
proof -
  obtain r where r: "HashNoSig E tx = Ret r" using assms by (auto simp: SignTx_def go_simps)
  show ?thesis
  proof (cases r)
    case (Inl err)
    with r assms show ?thesis by (auto simp: SignTx_def)
  next
    case (Inr h)
    with r assms show ?thesis by (cases "Sign E priv (sl h)") (auto simp: SignTx_def)
  qed
qed

lemma bad_clerk_builds_shape:
  assumes "bad_clerk_builds E tx"
  shows "tx_TxOuts tx = [] \<and> tx_Type tx \<in> {POST, COMMENT} \<or> tx_Type tx = UPVOTE \<and> length (tx_TxOuts tx) = 1"
proof -
  consider (post) priv us content where "bad_post_tx E priv us content = Ret tx"
    | (comment) priv us parent content where "bad_comment_tx E priv us parent content = Ret tx"
    | (upvote) priv us parent dest where "bad_upvote_tx E priv us parent dest = Ret (Some tx)"
    using assms unfolding bad_clerk_builds_def by blast
  then show ?thesis
  proof cases
    case post
    then show ?thesis by (auto simp: bad_post_tx_def go_simps dest!: SignTx_frame)
  next
    case comment
    then show ?thesis by (auto simp: bad_comment_tx_def go_simps dest!: SignTx_frame)
  next
    case upvote
    then show ?thesis by (auto simp: bad_upvote_tx_def Let_def go_simps split: prod.splits if_splits dest!: SignTx_frame)
  qed
qed

lemma bad_tx_not_accepted:
  assumes "bad_clerk_builds E' tx"
  shows "\<not> tx_accepted E db chain tx"
proof
  assume acc: "tx_accepted E db chain tx"
  then obtain in0 ins where ins: "sl (tx_TxIns tx) = in0 # ins" by (cases "sl (tx_TxIns tx)") (auto simp: tx_accepted_def)
  have "tx_TxOuts tx \<noteq> []" "ValidateStructure E tx = Ret None" using acc by (simp_all add: tx_accepted_def)
  then show False using ValidateStructure_Ret_None[OF ins, of E] bad_clerk_builds_shape[OF assms] by (auto simp: tx_type_defs)
qed

subsection \<open>Properties\<close>

text \<open>C20: The nodes withstand the bad clerk: no transaction that it can build, from any coins and with any
  key, is in a block of a reachable node after the first, even if some miner that does not follow the
  protocol sent the block; and no reachable node accepts one for its next block.\<close>

theorem bad_clerk_never_on_chain:
  assumes "reach (node_start E) (node_step E) n" and "nd_Blockchain n = map Some bs" and "bad_clerk_builds E tx"
  shows "list_all (\<lambda>b. tx \<notin> set (b_Transactions b)) (tl bs) \<and>
    validateTransaction E (nd_Utxo n) (nd_Blockchain n) tx \<noteq> Ret None"
proof -
  have "tx \<notin> set (b_Transactions b)" if "b \<in> set (tl bs)" for b
    using chain_tx_accepted[OF reach_history[OF assms(1,2)] that, of tx] bad_clerk_builds_shape[OF assms(3)]
      bad_tx_not_accepted[OF assms(3)] by (auto simp: tx_type_defs)
  then show ?thesis using bad_tx_not_accepted[OF assms(3)] by (auto simp: list_all_iff validateTransaction_None)
qed

theorem bad_clerk_never_on_chain_witness:
  "\<exists>n tx. reach (node_start demo_env) (node_step demo_env) n \<and> bad_post_tx demo_env 7 [demo_coin] [104, 105] = Ret tx \<and>
     validateTransaction demo_env (nd_Utxo n) (nd_Blockchain n) tx \<noteq> Ret None"
proof -
  let ?tx = "\<lparr>tx_Type = POST, tx_TxIns = Some [spend_input (clerk_pubkey demo_env 7) demo_coin], tx_TxOuts = [],
      tx_Parent = None, tx_Content = Some [104, 105]\<rparr>"
  have "validateComponents ?tx = None" by (simp add: validateComponents_None demo_coin_def HASH_NUM_BYTES_def)
  from SignTx_ok[OF demo_ecdsa_ok this] obtain tx where "SignTx demo_env 7 ?tx = Ret tx" by blast
  then have tx: "bad_post_tx demo_env 7 [demo_coin] [104, 105] = Ret tx" by (simp add: bad_post_tx_def go_nth_def)
  then have bad: "bad_clerk_builds demo_env tx" unfolding bad_clerk_builds_def by blast
  obtain n where n: "reach (node_start demo_env) (node_step demo_env) n" by (rule demo_node_exists)
  obtain bs where "nd_Blockchain n = map Some bs" using ninv.inv_reach[OF n] by (rule node_invE)
  from bad_clerk_never_on_chain[OF n this bad] n tx show ?thesis by blast
qed

end
