(* ===== verification/PKPairs.thy ===== *)
theory PKPairs
  imports Clerk
begin

text \<open>
  \<^verbatim>\<open>src/util/pk_pairs.go\<close>: the key file of the tests and the clients.  \<open>pk_main\<close> is what the generator prints, as
  lines; \<open>ReadPKPairs\<close> reads such a file.  The random key and \<^verbatim>\<open>privKey.Serialize\<close> of the library are parameters.
  A file that cannot be opened reads as no lines; \<^verbatim>\<open>scanner.Text\<close> is empty after the last line.
\<close>

record PKPair =
  pk_Priv :: string
  pk_Pub :: string
  pk_PubHash :: string

definition GeneratePKPairs :: "env \<Rightarrow> (privkey \<Rightarrow> bytes) \<Rightarrow> privkey option \<Rightarrow> PKPair" where
  "GeneratePKPairs E SerializePriv newKey =
     (case newKey of
        None \<Rightarrow> \<lparr>pk_Priv = [], pk_Pub = [], pk_PubHash = []\<rparr>
      | Some privKey \<Rightarrow>
          (let pubKey = PubKey E privKey
           in \<lparr>pk_Priv = EncodeToString (SerializePriv privKey), pk_Pub = EncodeToString (SerializeCompressed E pubKey),
               pk_PubHash = EncodeToString (sl (PKHash E (SerializeCompressed E pubKey)))\<rparr>))"

text \<open>\<^verbatim>\<open>fmt.Println\<close> of two strings: a space separates them.\<close>

definition Println :: "string \<Rightarrow> string \<Rightarrow> string" where
  "Println a b = a @ '' '' @ b"

definition print_pair :: "PKPair \<Rightarrow> string list" where
  "print_pair pkPair = [Println ''priv: '' (pk_Priv pkPair), Println ''pub: '' (pk_Pub pkPair), Println ''pubhash: '' (pk_PubHash pkPair), []]"

definition pk_main :: "env \<Rightarrow> (privkey \<Rightarrow> bytes) \<Rightarrow> (nat \<Rightarrow> privkey option) \<Rightarrow> string list" where
  "pk_main E SerializePriv newKey = concat (map (\<lambda>i. print_pair (GeneratePKPairs E SerializePriv (newKey i))) [0..<10])"

text \<open>\<^verbatim>\<open>strings.Split(s, "  ")\<close>, with \<open>cur\<close> for the part under way.\<close>

fun split_spaces :: "string \<Rightarrow> string \<Rightarrow> string list" where
  "split_spaces cur [] = [cur]"
| "split_spaces cur [c] = [cur @ [c]]"
| "split_spaces cur (c # d # s) =
     (if c = CHR '' '' \<and> d = CHR '' '' then cur # split_spaces [] s else split_spaces (cur @ [c]) (d # s))"

definition scan_field :: "string list \<Rightarrow> (string \<times> string list) go" where
  "scan_field lines =
     (let (text, rest) = (case lines of [] \<Rightarrow> ([], []) | t # r \<Rightarrow> (t, r))
      in bind_go (go_nth (split_spaces [] text) 1) (\<lambda>x. Ret (x, rest)))"

fun read_pairs :: "nat \<Rightarrow> string list \<Rightarrow> PKPair list go" where
  "read_pairs 0 lines = Ret []"
| "read_pairs (Suc n) lines =
     bind_go (scan_field lines) (\<lambda>(priv, lines).
     bind_go (scan_field lines) (\<lambda>(pub, lines).
     bind_go (scan_field lines) (\<lambda>(pubHash, lines).
     bind_go (read_pairs n (drop 1 lines)) (\<lambda>pairs.
     Ret (\<lparr>pk_Priv = priv, pk_Pub = pub, pk_PubHash = pubHash\<rparr> # pairs)))))"

definition ReadPKPairs :: "string list \<Rightarrow> PKPair list go" where
  "ReadPKPairs lines = read_pairs 10 lines"

subsection \<open>Reading what was printed\<close>

lemma split_spaces_none: "CHR '' '' \<notin> set s \<Longrightarrow> split_spaces cur s = [cur @ s]"
  by (induction cur s rule: split_spaces.induct) auto

lemma scan_printed:
  assumes "CHR '' '' \<notin> set x"
  shows "scan_field (Println ''priv: '' x # rest) = Ret (x, rest)" and "scan_field (Println ''pub: '' x # rest) = Ret (x, rest)"
    and "scan_field (Println ''pubhash: '' x # rest) = Ret (x, rest)"
  using split_spaces_none[OF assms, of "[]"] by (simp_all add: scan_field_def go_nth_def Println_def)

definition spaceless :: "PKPair \<Rightarrow> bool" where
  "spaceless pkPair \<longleftrightarrow> CHR '' '' \<notin> set (pk_Priv pkPair) \<union> set (pk_Pub pkPair) \<union> set (pk_PubHash pkPair)"

lemma read_printed:
  "\<forall>p \<in> set pairs. spaceless p \<Longrightarrow> read_pairs (length pairs) (concat (map print_pair pairs) @ rest) = Ret pairs"
proof (induction pairs)
  case Nil
  then show ?case by simp
next
  case (Cons p pairs)
  then have "CHR '' '' \<notin> set (pk_Priv p)" "CHR '' '' \<notin> set (pk_Pub p)" "CHR '' '' \<notin> set (pk_PubHash p)" by (auto simp: spaceless_def)
  note scan = this[THEN scan_printed(1)] this[THEN scan_printed(2)] this[THEN scan_printed(3)]
  from Cons show ?case by (simp add: print_pair_def scan)
qed

lemma GeneratePKPairs_spaceless: "spaceless (GeneratePKPairs E ser newKey)"
  using EncodeToString_no_space by (auto simp: spaceless_def GeneratePKPairs_def Let_def split: option.split)

subsection \<open>Properties\<close>



end
