(* ===== verification/Client.thy ===== *)
theory Client
  imports Forum BadClerk PKPairs
begin

text \<open>
  \<^verbatim>\<open>src/client/client.go\<close>: the text client.  It shows the chain of a node as a front page (posts, the tree of
  comments below each, and the number of upvotes), and lets the user post, comment and upvote by the
  abbreviation of a transaction hash: six bytes in hexadecimal and a newline.  The map from abbreviations
  holds pointers that nothing else keeps; they are values here.  What is printed for a transaction is a
  record \<open>entry\<close>; the drawing around it, \<^verbatim>\<open>Block.ToString\<close>, the banner and the prompts are left out.
  \<^verbatim>\<open>src/client/client2.go\<close> is the same code with other ports, see \<open>client_main\<close> and \<open>client2_main\<close>.

  The session with the user reads lines from a list; at its end \<^verbatim>\<open>ReadString\<close> returns the empty string again and
  again.  The answers of the network may be different for each command: \<open>world k\<close> has those for command \<open>k\<close>.
\<close>

subsection \<open>Abbreviations of hashes\<close>

definition hex_digit :: "nat \<Rightarrow> char" where
  "hex_digit n = ''0123456789abcdef'' ! n"

definition hex_byte :: "byte \<Rightarrow> string" where
  "hex_byte b = [hex_digit (unat b div 16), hex_digit (unat b mod 16)]"

text \<open>\<^verbatim>\<open>fmt.Sprintf("%x\n", hash[0:6])\<close>.\<close>

definition abbreviation_of :: "bytes \<Rightarrow> string go" where
  "abbreviation_of hash = bind_go (go_prefix hash 6) (\<lambda>p. Ret (concat (map hex_byte p) @ [CHR 0x0A]))"

subsection \<open>The state\<close>

record TxClient =
  tc_tx :: Transaction
  tc_hash :: bytes
  tc_score :: int
  tc_address :: bytes

type_synonym hash_map = "(string, TxClient) gomap"

record Client =
  cl_clerkPort :: string
  cl_nodePort :: string
  cl_server :: "string option"
  cl_hashMap :: hash_map

definition MakeClient :: "(string \<Rightarrow> bool) \<Rightarrow> string \<Rightarrow> string \<Rightarrow> Client" where
  "MakeClient dial clerkPort nodePort =
     \<lparr>cl_clerkPort = clerkPort, cl_nodePort = nodePort, cl_server = (if dial nodePort then Some nodePort else None), cl_hashMap = []\<rparr>"

subsection \<open>The front page\<close>

text \<open>The first loop creates the entries, the second one counts the upvotes.\<close>

definition index_tx :: "env \<Rightarrow> Transaction \<Rightarrow> hash_map \<Rightarrow> hash_map go" where
  "index_tx E tx hashMap =
     bind_go (Tx_Hash E tx) (\<lambda>h.
     bind_go (abbreviation_of (sl h)) (\<lambda>k.
     let txc = \<lparr>tc_tx = tx, tc_hash = sl h, tc_score = 0, tc_address = []\<rparr>
     in if tx_Type tx = POST \<or> tx_Type tx = COMMENT
        then bind_go (go_nth (tx_TxOuts tx) 0) (\<lambda>out0. Ret (go_put k (txc\<lparr>tc_address := to_PubKeyHash out0\<rparr>) hashMap))
        else Ret (go_put k txc hashMap)))"

definition count_upvote :: "Transaction \<Rightarrow> hash_map \<Rightarrow> hash_map go" where
  "count_upvote tx hashMap =
     (if tx_Type tx = UPVOTE
      then bind_go (abbreviation_of (sl (tx_Parent tx))) (\<lambda>k.
           bind_go (deref (go_get hashMap k)) (\<lambda>txc. Ret (go_put k (txc\<lparr>tc_score := tc_score txc + 1\<rparr>) hashMap)))
      else Ret hashMap)"

record entry =
  en_indent :: nat
  en_score :: int
  en_content :: bytes
  en_tag :: string

text \<open>
  \<^verbatim>\<open>renderContent\<close>.  The first argument bounds the depth; a path of comments longer than there are
  transactions repeats one of them and goes on forever, which overflows the stack.
\<close>

fun renderContent :: "nat \<Rightarrow> env \<Rightarrow> hash_map \<Rightarrow> Transaction list \<Rightarrow> Transaction \<Rightarrow> nat \<Rightarrow> entry list go" where
  "renderContent 0 E hashMap txs tx indent = Panic StackOverflow"
| "renderContent (Suc n) E hashMap txs tx indent =
     bind_go (Tx_Hash E tx) (\<lambda>h.
     bind_go (abbreviation_of (sl h)) (\<lambda>k.
     bind_go (deref (go_get hashMap k)) (\<lambda>txc.
     bind_go (mapM_go (\<lambda>txd. if tx_Type txd = COMMENT \<and> sl (tx_Parent txd) = sl h
                then renderContent n E hashMap txs txd (indent + 1) else Ret []) txs) (\<lambda>comments.
     Ret (\<lparr>en_indent = indent, en_score = tc_score txc, en_content = sl (tx_Content tx), en_tag = k\<rparr> # concat comments)))))"

definition renderFrontPage :: "env \<Rightarrow> Block list \<Rightarrow> Client \<Rightarrow> (Client \<times> entry list) go" where
  "renderFrontPage E blockchain cl =
     (let txs = concat (map b_Transactions blockchain)
      in bind_go (fold_go (index_tx E) txs (cl_hashMap cl)) (\<lambda>hashMap.
         bind_go (fold_go count_upvote txs hashMap) (\<lambda>hashMap.
         bind_go (mapM_go (\<lambda>tx. if tx_Type tx = POST then renderContent (Suc (length txs)) E hashMap txs tx 0 else Ret []) txs) (\<lambda>out.
         Ret (cl\<lparr>cl_hashMap := hashMap\<rparr>, concat out)))))"

text \<open>\<^verbatim>\<open>QueryBlockchain\<close>; \<open>reply\<close> is the node's answer, \<open>None\<close> for an error, which leaves an empty log.\<close>

definition QueryBlockchain :: "env \<Rightarrow> Block list option \<Rightarrow> Client \<Rightarrow> (Client \<times> entry list) go" where
  "QueryBlockchain E reply cl =
     bind_go (deref (cl_server cl)) (\<lambda>_. renderFrontPage E (sl reply) cl)"

subsection \<open>The session\<close>

definition bytes_of :: "string \<Rightarrow> bytes" where
  "bytes_of text = map (\<lambda>c. word_of_nat (of_char c)) text"

definition read_line :: "string list \<Rightarrow> string \<times> string list" where
  "read_line input = (case input of [] \<Rightarrow> ([], []) | text # rest \<Rightarrow> (text, rest))"

text \<open>The answers of the clerk's nodes and of the client's node while a command runs.\<close>

record world =
  wd_utxo :: utxo_net
  wd_append :: append_net
  wd_chain :: "Block list option"

record session =
  ss_client :: Client
  ss_input :: "string list"
  ss_out :: "(string + entry) list"

definition say :: "string \<Rightarrow> session \<Rightarrow> session" where
  "say msg st = st\<lparr>ss_out := ss_out st @ [Inl msg]\<rparr>"

definition report :: "bool go option \<Rightarrow> session \<Rightarrow> session go option" where
  "report r st = map_option (\<lambda>r. bind_go r (\<lambda>ok. Ret (say (if ok then ''Success!'' else ''Failed :('') st))) r"

text \<open>\<^verbatim>\<open>MakeClerk\<close> may have returned nil.\<close>

definition with_clerk :: "Clerk option \<Rightarrow> (Clerk \<Rightarrow> bool go option) \<Rightarrow> bool go option" where
  "with_clerk ck f = (case ck of None \<Rightarrow> Some (Panic NilDeref) | Some c \<Rightarrow> f c)"

text \<open>The body of the \<^verbatim>\<open>switch\<close>; the Boolean is \<^verbatim>\<open>quit\<close>.\<close>

definition run_command :: "env \<Rightarrow> world \<Rightarrow> Clerk option \<Rightarrow> string \<Rightarrow> session \<Rightarrow> (session \<times> bool) go option" where
  "run_command E w ck command st =
     (let go_on = map_option (\<lambda>r. bind_go r (\<lambda>st. Ret (st, False)))
      in if command = ''help'' @ [CHR 0x0A] then
           Some (Ret (fold say [''Available commands:'', ''  * help'', ''  * post'', ''  * comment'', ''  * upvote'', ''  * view'', ''  * quit''] st, False))
         else if command = ''view'' @ [CHR 0x0A] then
           Some (bind_go (QueryBlockchain E (wd_chain w) (ss_client st)) (\<lambda>(cl, page).
             Ret (st\<lparr>ss_client := cl, ss_out := ss_out st @ map Inr page\<rparr>, False)))
         else if command = ''post'' @ [CHR 0x0A] then
           (let (text, rest) = read_line (ss_input st)
            in go_on (report (with_clerk ck (\<lambda>ck. Post E (wd_utxo w) (wd_append w) ck (bytes_of text))) (st\<lparr>ss_input := rest\<rparr>)))
         else if command = ''comment'' @ [CHR 0x0A] then
           (let (text, rest) = read_line (ss_input st); st = st\<lparr>ss_input := rest\<rparr>
            in case go_get (cl_hashMap (ss_client st)) text of
                 None \<Rightarrow> Some (Ret (say ''Couldn't find parent'' st, False))
               | Some txc \<Rightarrow>
                   (let (text, rest) = read_line (ss_input st)
                    in go_on (report (with_clerk ck (\<lambda>ck. Comment E (wd_utxo w) (wd_append w) ck (tc_hash txc) (bytes_of text))) (st\<lparr>ss_input := rest\<rparr>))))
         else if command = ''upvote'' @ [CHR 0x0A] then
           (let (text, rest) = read_line (ss_input st); st = st\<lparr>ss_input := rest\<rparr>
            in case go_get (cl_hashMap (ss_client st)) text of
                 None \<Rightarrow> Some (Ret (say ''Couldn't find parent'' st, False))
               | Some txc \<Rightarrow> go_on (report (with_clerk ck (\<lambda>ck. Upvote E (wd_utxo w) (wd_append w) ck (tc_hash txc) (tc_address txc))) st))
         else if command = ''quit'' @ [CHR 0x0A] then Some (Ret (st, True))
         else Some (Ret (say ''not a recognized command'' st, False)))"

partial_function (option) main_loop :: "env \<Rightarrow> (nat \<Rightarrow> world) \<Rightarrow> Clerk option \<Rightarrow> nat \<Rightarrow> session \<Rightarrow> session go option" where
  "main_loop E world ck k st =
     (let (command, rest) = read_line (ss_input st)
      in case run_command E (world k) ck command (st\<lparr>ss_input := rest\<rparr>) of
           None \<Rightarrow> None
         | Some (Panic p) \<Rightarrow> Some (Panic p)
         | Some (Ret (st, quit)) \<Rightarrow> if quit then Some (Ret st) else main_loop E world ck (k + 1) st)"

text \<open>
  \<^verbatim>\<open>main\<close>: one node and one clerk with the first two key pairs of the file, then the session.  \<open>dial\<close> and \<open>ask\<close> are
  the network at start-up, \<open>random\<close> is the clerk's number, \<open>lines\<close> the key file.
\<close>

definition main_with :: "string \<Rightarrow> string \<Rightarrow> string list \<Rightarrow> env \<Rightarrow> (string \<Rightarrow> bool) \<Rightarrow> (string \<Rightarrow> Block list option) \<Rightarrow> int \<Rightarrow>
    string list \<Rightarrow> (nat \<Rightarrow> world) \<Rightarrow> string list \<Rightarrow> session go option" where
  "main_with nodePort clerkPort servers E dial ask random lines world input =
     (let E = E\<lparr>DIFFICULTY := 1, BLOCK_SIZE_THRESHOLD := 1\<rparr>
      in case ReadPKPairs lines of
           Panic p \<Rightarrow> Some (Panic p)
         | Ret pkPairs \<Rightarrow>
             (case StartDRNode E dial ask 0 nodePort (pk_PubHash (pkPairs ! 0)) servers of
                None \<Rightarrow> None
              | Some (Panic p) \<Rightarrow> Some (Panic p)
              | Some (Ret drNode) \<Rightarrow>
                  main_loop E world (MakeClerk E dial random clerkPort (pk_Priv (pkPairs ! 1)) [nodePort]) 0
                    \<lparr>ss_client = MakeClient dial clerkPort nodePort, ss_input = input, ss_out = []\<rparr>))"

definition client_main :: "env \<Rightarrow> (string \<Rightarrow> bool) \<Rightarrow> (string \<Rightarrow> Block list option) \<Rightarrow> int \<Rightarrow> string list \<Rightarrow> (nat \<Rightarrow> world) \<Rightarrow>
    string list \<Rightarrow> session go option" where
  "client_main = main_with ''10000'' ''10100'' []"

definition client2_main :: "env \<Rightarrow> (string \<Rightarrow> bool) \<Rightarrow> (string \<Rightarrow> Block list option) \<Rightarrow> int \<Rightarrow> string list \<Rightarrow> (nat \<Rightarrow> world) \<Rightarrow>
    string list \<Rightarrow> session go option" where
  "client2_main = main_with ''20000'' ''20200'' [''10000'']"

subsection \<open>Scores\<close>

text \<open>The transactions with a given abbreviation, and the upvotes of it.\<close>

definition abbreviates :: "env \<Rightarrow> string \<Rightarrow> Transaction \<Rightarrow> bool" where
  "abbreviates E k tx \<longleftrightarrow> map_go (\<lambda>h. abbreviation_of (sl h)) (Tx_Hash E tx) = Ret (Ret k)"

definition upvotes :: "string \<Rightarrow> Transaction \<Rightarrow> bool" where
  "upvotes k tx \<longleftrightarrow> tx_Type tx = UPVOTE \<and> abbreviation_of (sl (tx_Parent tx)) = Ret k"

lemma index_tx_get:
  assumes "index_tx E tx hm = Ret hm'"
  shows "if abbreviates E k tx then \<exists>txc. go_get hm' k = Some txc \<and> tc_tx txc = tx \<and> tc_score txc = 0
    else go_get hm' k = go_get hm k"
proof -
  obtain h k' txc where h: "Tx_Hash E tx = Ret h" "abbreviation_of (sl h) = Ret k'" "hm' = go_put k' txc hm" "tc_tx txc = tx" "tc_score txc = 0"
    using assms by (auto simp: index_tx_def bind_go_eq_Ret Let_def split: if_splits)
  then show ?thesis by (auto simp: abbreviates_def)
qed

lemma index_txs_get:
  assumes "fold_go (index_tx E) txs hm = Ret hm'"
  shows "if list_ex (abbreviates E k) txs then \<exists>txc. go_get hm' k = Some txc \<and> tc_tx txc \<in> set txs \<and> abbreviates E k (tc_tx txc) \<and> tc_score txc = 0
    else go_get hm' k = go_get hm k"
  using assms
proof (induction txs arbitrary: hm' rule: rev_induct)
  case Nil
  then show ?case by simp
next
  case (snoc tx txs)
  then obtain hm1 where hm1: "fold_go (index_tx E) txs hm = Ret hm1" "index_tx E tx hm1 = Ret hm'" by (auto simp: fold_go_snoc bind_go_eq_Ret)
  show ?case
  proof (cases "abbreviates E k tx")
    case True
    then show ?thesis using index_tx_get[OF hm1(2), of k] by auto
  next
    case False
    then have "go_get hm' k = go_get hm1 k" using index_tx_get[OF hm1(2), of k] by simp
    with False snoc.IH[OF hm1(1)] show ?thesis by (auto split: if_splits)
  qed
qed

lemma count_upvotes_get:
  assumes "fold_go count_upvote txs hm = Ret hm'"
  shows "go_get hm' k = map_option (\<lambda>txc. txc\<lparr>tc_score := tc_score txc + int (length (filter (upvotes k) txs))\<rparr>) (go_get hm k)"
  using assms
proof (induction txs arbitrary: hm)
  case Nil
  then show ?case by (cases "go_get hm k") simp_all
next
  case (Cons tx txs)
  then obtain hm1 where hm1: "count_upvote tx hm = Ret hm1" "fold_go count_upvote txs hm1 = Ret hm'" by (auto simp: bind_go_eq_Ret)
  have "go_get hm1 k = map_option (\<lambda>txc. txc\<lparr>tc_score := tc_score txc + (if upvotes k tx then 1 else 0)\<rparr>) (go_get hm k)"
    using hm1(1) by (cases "go_get hm k") (auto simp: count_upvote_def upvotes_def bind_go_eq_Ret deref_eq_Ret split: if_splits)
  with Cons.IH[OF hm1(2)] show ?case by (cases "go_get hm k") (simp_all add: algebra_simps)
qed

subsection \<open>The page of a reachable node\<close>

text \<open>A transaction that the page can name.\<close>

definition named :: "env \<Rightarrow> hash_map \<Rightarrow> Transaction \<Rightarrow> bool" where
  "named E hm tx \<longleftrightarrow> (\<exists>h k. Tx_Hash E tx = Ret h \<and> abbreviation_of (sl h) = Ret k \<and> go_get hm k \<noteq> None)"

lemma abbreviation_of_long: "6 \<le> length h \<Longrightarrow> \<exists>k. abbreviation_of h = Ret k"
  by (simp add: abbreviation_of_def go_prefix_def)

lemma index_txs_returns:
  assumes "\<forall>tx \<in> set txs. (\<exists>h. Tx_Hash E tx = Ret h \<and> 6 \<le> length (sl h)) \<and> (tx_Type tx = POST \<or> tx_Type tx = COMMENT \<longrightarrow> tx_TxOuts tx \<noteq> [])"
  shows "\<exists>hm'. fold_go (index_tx E) txs hm = Ret hm'"
  using assms
proof (induction txs arbitrary: hm)
  case Nil
  then show ?case by simp
next
  case (Cons tx txs)
  then obtain h k where "Tx_Hash E tx = Ret h" "abbreviation_of (sl h) = Ret k" using abbreviation_of_long by fastforce
  with Cons.prems have "\<exists>hm1. index_tx E tx hm = Ret hm1" by (auto simp: index_tx_def Let_def go_nth_def)
  with Cons show ?case by auto
qed

lemma count_upvotes_returns:
  assumes "\<forall>tx \<in> set txs. tx_Type tx = UPVOTE \<longrightarrow> (\<exists>k. abbreviation_of (sl (tx_Parent tx)) = Ret k \<and> go_get hm k \<noteq> None)"
  shows "\<exists>hm'. fold_go count_upvote txs hm = Ret hm'"
  using assms
proof (induction txs arbitrary: hm)
  case Nil
  then show ?case by simp
next
  case (Cons tx txs)
  have "\<exists>hm1. count_upvote tx hm = Ret hm1 \<and> (\<forall>k. go_get hm k \<noteq> None \<longrightarrow> go_get hm1 k \<noteq> None)"
    using Cons.prems by (cases "tx_Type tx = UPVOTE") (auto simp: count_upvote_def)
  then obtain hm1 where hm1: "count_upvote tx hm = Ret hm1" "\<forall>k. go_get hm k \<noteq> None \<longrightarrow> go_get hm1 k \<noteq> None" by blast
  then have "\<exists>hm'. fold_go count_upvote txs hm1 = Ret hm'" using Cons.prems by (intro Cons.IH) (simp, blast)
  with hm1(1) show ?case by simp
qed

text \<open>When every comment comes after what it comments on, the depth is bounded.\<close>

lemma renderContent_returns:
  assumes named: "\<forall>tx \<in> set txs. named E hm tx"
    and later: "\<And>i j h. i < length txs \<Longrightarrow> j < length txs \<Longrightarrow> Tx_Hash E (txs ! i) = Ret h \<Longrightarrow> tx_Type (txs ! j) = COMMENT \<Longrightarrow>
      sl (tx_Parent (txs ! j)) = sl h \<Longrightarrow> i < j"
  shows "i < length txs \<Longrightarrow> length txs - i \<le> n \<Longrightarrow> \<exists>out. renderContent n E hm txs (txs ! i) indent = Ret out"
proof (induction n arbitrary: i indent)
  case 0
  then show ?case by simp
next
  case (Suc n)
  obtain h k where h: "Tx_Hash E (txs ! i) = Ret h" "abbreviation_of (sl h) = Ret k" "go_get hm k \<noteq> None"
    using named Suc.prems(1) unfolding named_def by (meson nth_mem)
  let ?child = "\<lambda>txd. if tx_Type txd = COMMENT \<and> sl (tx_Parent txd) = sl h then renderContent n E hm txs txd (indent + 1) else Ret []"
  have "\<exists>out. ?child txd = Ret out" if mem: "txd \<in> set txs" for txd
  proof -
    obtain j where j: "j < length txs" "txd = txs ! j" using mem unfolding in_set_conv_nth by blast
    show ?thesis
    proof (cases "tx_Type txd = COMMENT \<and> sl (tx_Parent txd) = sl h")
      case True
      then have "i < j" using later[OF Suc.prems(1) j(1) h(1)] j(2) by simp
      then have "length txs - j \<le> n" using Suc.prems by simp
      from Suc.IH[OF j(1) this] True j(2) show ?thesis by simp
    qed auto
  qed
  then obtain outs where "mapM_go ?child txs = Ret outs" using mapM_go_returns[of ?child txs] by blast
  with h show ?case by (auto simp del: mapM_go.simps)
qed

lemma concat_position:
  "j < length (concat xss) \<Longrightarrow> \<exists>q < length xss. concat xss ! j \<in> set (xss ! q) \<and> length (concat (take q xss)) \<le> j"
proof (induction xss arbitrary: j)
  case Nil
  then show ?case by simp
next
  case (Cons xs xss)
  show ?case
  proof (cases "j < length xs")
    case True
    then show ?thesis by (intro exI[of _ 0]) (simp add: nth_append)
  next
    case False
    with Cons.prems have "j - length xs < length (concat xss)" by simp
    from Cons.IH[OF this] obtain q where "q < length xss" "concat xss ! (j - length xs) \<in> set (xss ! q)"
        "length (concat (take q xss)) \<le> j - length xs" by blast
    with False show ?thesis by (intro exI[of _ "Suc q"]) (auto simp: nth_append)
  qed
qed

lemma comment_after_parent:
  assumes "reach (node_start E) (node_step E) n" and "scrypt_ok E" and "nd_Blockchain n = map Some bs"
    and "distinct (map (Tx_Hash E) (chain_txs bs))"
    and "i < length (chain_txs bs)" and "j < length (chain_txs bs)" and "Tx_Hash E (chain_txs bs ! i) = Ret h"
    and "tx_Type (chain_txs bs ! j) = COMMENT" and "sl (tx_Parent (chain_txs bs ! j)) = sl h"
  shows "i < j"
proof -
  let ?txs = "chain_txs bs"
  obtain q where q: "q < length bs" "?txs ! j \<in> set (b_Transactions (bs ! q))" "length (chain_txs (take q bs)) \<le> j"
    using concat_position[of j "map b_Transactions bs"] assms(6) by (auto simp: chain_txs_def take_map)
  from chain_answers[OF assms(1-3) q(1,2)] assms(8) obtain parent h' where
    p: "parent \<in> set (chain_txs (take q bs))" "Tx_Hash E parent = Ret h'" "sl h' = sl (tx_Parent (?txs ! j))"
    by (auto simp: answers_def)
  obtain i' where i': "i' < length (chain_txs (take q bs))" "parent = chain_txs (take q bs) ! i'" using p(1) by (auto simp: in_set_conv_nth)
  have "?txs = chain_txs (take q bs) @ chain_txs (drop q bs)" by (simp add: chain_txs_def flip: concat_append map_append)
  with i' have at: "i' < length ?txs" "?txs ! i' = parent" by (simp_all add: nth_append)
  have "h' = h"
    using Tx_Hash_Ret_Some[OF assms(2) p(2)] Tx_Hash_Ret_Some[OF assms(2,7)] p(3) assms(9) by auto
  with p(2) at assms(7) have "map (Tx_Hash E) ?txs ! i' = map (Tx_Hash E) ?txs ! i" using assms(5) by simp
  then have "i' = i" using nth_eq_iff_index_eq[OF assms(4), of i' i] at(1) assms(5) by simp
  with i'(1) q(3) show ?thesis by simp
qed

lemma abbreviates_named:
  assumes "scrypt_ok E" and "Tx_Hash E tx = Ret h"
  shows "\<exists>k. abbreviation_of (sl h) = Ret k \<and> abbreviates E k tx"
proof -
  have "6 \<le> length (sl h)" using Tx_Hash_Ret_Some[OF assms] by (auto simp: HASH_NUM_BYTES_def)
  then show ?thesis using abbreviation_of_long assms(2) by (fastforce simp: abbreviates_def)
qed

lemma view_returns:
  assumes "reach (node_start E) (node_step E) n" and "scrypt_ok E" and "nd_Blockchain n = map Some bs"
    and "distinct (map (Tx_Hash E) (chain_txs bs))"
  shows "\<exists>cl' page. renderFrontPage E bs cl = Ret (cl', page)"
proof -
  let ?txs = "chain_txs bs"
  have hash: "\<exists>h. Tx_Hash E tx = Ret h" if "tx \<in> set ?txs" for tx
    using chain_tx_hash[OF ninv.inv_reach[OF assms(1)] assms(3) that] .
  have at: "\<exists>i < length bs. tx \<in> set (b_Transactions (bs ! i))" if "tx \<in> set ?txs" for tx
    using that by (auto simp: chain_txs_def in_set_conv_nth[of _ bs])
  have outs: "tx_TxOuts tx \<noteq> []" if "tx \<in> set ?txs" "tx_Type tx = POST \<or> tx_Type tx = COMMENT" for tx
  proof -
    have "tx_Type tx \<noteq> COINBASE" using that(2) by (auto simp: tx_type_defs)
    with at[OF that(1)] chain_tx_at[OF assms(1-3)] show ?thesis unfolding tx_accepted_def by blast
  qed
  have "\<exists>hm1. fold_go (index_tx E) ?txs (cl_hashMap cl) = Ret hm1"
  proof (rule index_txs_returns, intro ballI conjI impI)
    fix tx assume tx: "tx \<in> set ?txs"
    then obtain h where "Tx_Hash E tx = Ret h" using hash by blast
    then show "\<exists>h. Tx_Hash E tx = Ret h \<and> 6 \<le> length (sl h)" using Tx_Hash_Ret_Some[OF assms(2)] by (fastforce simp: HASH_NUM_BYTES_def)
    show "tx_TxOuts tx \<noteq> []" if "tx_Type tx = POST \<or> tx_Type tx = COMMENT" using outs[OF tx that] .
  qed
  then obtain hm1 where hm1: "fold_go (index_tx E) ?txs (cl_hashMap cl) = Ret hm1" by blast
  have indexed: "\<exists>k. abbreviation_of (sl h) = Ret k \<and> go_get hm1 k \<noteq> None" if mem: "tx \<in> set ?txs" and h: "Tx_Hash E tx = Ret h" for tx h
  proof -
    obtain k where k: "abbreviation_of (sl h) = Ret k" "abbreviates E k tx" using abbreviates_named[OF assms(2) h] by blast
    then have "list_ex (abbreviates E k) ?txs" using mem by (auto simp: list_ex_iff)
    with index_txs_get[OF hm1, of k] k(1) show ?thesis by auto
  qed
  have "\<exists>hm2. fold_go count_upvote ?txs hm1 = Ret hm2"
  proof (rule count_upvotes_returns, intro ballI impI)
    fix tx assume "tx \<in> set ?txs" "tx_Type tx = UPVOTE"
    with at chain_answers[OF assms(1-3)] obtain i parent where p: "answers E (take i bs) tx parent" by blast
    then have "parent \<in> set ?txs" by (auto simp: answers_def chain_txs_def dest: in_set_takeD)
    with p indexed show "\<exists>k. abbreviation_of (sl (tx_Parent tx)) = Ret k \<and> go_get hm1 k \<noteq> None"
      unfolding answers_def by metis
  qed
  then obtain hm2 where hm2: "fold_go count_upvote ?txs hm1 = Ret hm2" by blast
  have "named E hm2 tx" if "tx \<in> set ?txs" for tx
    using hash[OF that] indexed[OF that] count_upvotes_get[OF hm2] unfolding named_def by fastforce
  then have named: "\<forall>tx \<in> set ?txs. named E hm2 tx" by blast
  let ?show = "\<lambda>tx. if tx_Type tx = POST then renderContent (Suc (length ?txs)) E hm2 ?txs tx 0 else Ret []"
  have "\<exists>out. ?show tx = Ret out" if mem: "tx \<in> set ?txs" for tx
  proof -
    obtain i where i: "i < length ?txs" "tx = ?txs ! i" using mem unfolding in_set_conv_nth by blast
    have bound: "length ?txs - i \<le> Suc (length ?txs)" by simp
    have "\<exists>out. renderContent (Suc (length ?txs)) E hm2 ?txs (?txs ! i) 0 = Ret out"
      by (rule renderContent_returns[OF named _ i(1) bound]) (rule comment_after_parent[OF assms])
    then have "\<exists>out. (if P then renderContent (Suc (length ?txs)) E hm2 ?txs (?txs ! i) 0 else Ret []) = Ret out" for P
      by (cases P) (simp_all only: if_True if_False, blast)
    then show ?thesis unfolding i(2) .
  qed
  then obtain out where "mapM_go ?show ?txs = Ret out" using mapM_go_returns[of ?show ?txs] by blast
  with hm1 hm2 show ?thesis unfolding renderFrontPage_def Let_def chain_txs_def by (simp del: mapM_go.simps)
qed

subsection \<open>The end of a session\<close>

lemma report_keeps: "report r st = Some (Ret st') \<Longrightarrow> ss_input st' = ss_input st"
  by (auto simp: report_def say_def bind_go_eq_Ret)

lemma read_line_drop: "read_line input = (text, rest) \<Longrightarrow> \<exists>n. rest = drop n input"
  by (cases input) (auto simp: read_line_def intro: exI[of _ 0] exI[of _ 1])

lemma read_two_drop:
  assumes "read_line input = (a, rest)" and "read_line rest = (b, rest')"
  shows "\<exists>n. rest' = drop n input"
proof -
  obtain n where "rest = drop n input" using read_line_drop[OF assms(1)] by blast
  moreover obtain m where "rest' = drop m rest" using read_line_drop[OF assms(2)] by blast
  ultimately show ?thesis by (metis drop_drop)
qed

lemma run_command_input:
  assumes "run_command E w ck command st = Some (Ret (st', quit))"
  shows "(\<exists>n. ss_input st' = drop n (ss_input st)) \<and> (quit \<longrightarrow> command = ''quit'' @ [CHR 0x0A])"
proof -
  have keep: "\<exists>n. ss_input st = drop n (ss_input st)" by (rule exI[of _ 0]) simp
  obtain t rest where t: "read_line (ss_input st) = (t, rest)" by (cases "read_line (ss_input st)")
  obtain t2 rest2 where t2: "read_line rest = (t2, rest2)" by (cases "read_line rest")
  note one = read_line_drop[OF t] and two = read_two_drop[OF t t2]
  from assms show ?thesis
    unfolding run_command_def Let_def t prod.case
    using keep one two t2
    by (auto simp: say_def bind_go_eq_Ret split: if_splits option.splits dest!: report_keeps)
qed

lemma main_loop_quit:
  assumes "main_loop E world ck k st = Some r"
  shows "(\<exists>st'. r = Ret st') \<longrightarrow> ''quit'' @ [CHR 0x0A] \<in> set (ss_input st)"
proof (rule main_loop.raw_induct[OF _ assms, of "\<lambda>E world ck k st r. (\<exists>st'. r = Ret st') \<longrightarrow> ''quit'' @ [CHR 0x0A] \<in> set (ss_input st)"],
    intro impI)
  fix rec E world ck k st r
  assume IH: "\<And>E world ck k st r. rec E world ck k st = Some r \<Longrightarrow>
        (\<exists>st'. r = Ret st') \<longrightarrow> ''quit'' @ [CHR 0x0A] \<in> set (ss_input st)"
    and eq: "(let (command, rest) = read_line (ss_input st)
      in case run_command E (world k) ck command (st\<lparr>ss_input := rest\<rparr>) of
           None \<Rightarrow> None
         | Some (Panic p) \<Rightarrow> Some (Panic p)
         | Some (Ret (st, quit)) \<Rightarrow> if quit then Some (Ret st) else rec E world ck (k + 1) st) = Some r"
    and r: "\<exists>st'. r = Ret st'"
  obtain command rest where line: "read_line (ss_input st) = (command, rest)" by (cases "read_line (ss_input st)")
  with eq r obtain st1 quit where run: "run_command E (world k) ck command (st\<lparr>ss_input := rest\<rparr>) = Some (Ret (st1, quit))"
    by (auto split: option.splits go.splits)
  note run_command_input[OF run]
  then obtain n where n: "ss_input st1 = drop n rest" "quit \<longrightarrow> command = ''quit'' @ [CHR 0x0A]" by auto
  show "''quit'' @ [CHR 0x0A] \<in> set (ss_input st)"
  proof (cases quit)
    case True
    with n(2) line show ?thesis by (cases "ss_input st") (auto simp: read_line_def)
  next
    case False
    with eq line run have "rec E world ck (k + 1) st1 = Some r" by simp
    then have "''quit'' @ [CHR 0x0A] \<in> set (ss_input st1)" using IH r by blast
    then have "''quit'' @ [CHR 0x0A] \<in> set rest" using n(1) set_drop_subset by fastforce
    then show ?thesis using line by (cases "ss_input st") (auto simp: read_line_def)
  qed
qed

subsection \<open>Properties\<close>

text \<open>C23: Scores: whatever the client showed before, after it rendered a list of blocks the entry for the
  abbreviation of any transaction in them belongs to a transaction in them with this abbreviation, and its
  score is the number of upvotes in them whose parent has this abbreviation.\<close>

theorem front_page_scores:
  assumes "renderFrontPage E bs cl = Ret (cl', page)" and "tx \<in> set (chain_txs bs)" and "Tx_Hash E tx = Ret h"
    and "abbreviation_of (sl h) = Ret k"
  shows "\<exists>txc. go_get (cl_hashMap cl') k = Some txc \<and> tc_tx txc \<in> set (chain_txs bs) \<and> abbreviates E k (tc_tx txc) \<and>
    tc_score txc = int (length (filter (upvotes k) (chain_txs bs)))"
proof -
  obtain hm1 hm2 where hm: "fold_go (index_tx E) (chain_txs bs) (cl_hashMap cl) = Ret hm1" "fold_go count_upvote (chain_txs bs) hm1 = Ret hm2"
      "cl_hashMap cl' = hm2"
    using assms(1) by (auto simp: renderFrontPage_def Let_def chain_txs_def bind_go_eq_Ret simp del: renderContent.simps)
  have "list_ex (abbreviates E k) (chain_txs bs)" using assms(2-4) by (auto simp: list_ex_iff abbreviates_def intro!: bexI[of _ tx])
  with index_txs_get[OF hm(1), of k] count_upvotes_get[OF hm(2), of k] hm(3) show ?thesis by auto
qed

text \<open>A post and two upvotes of it.\<close>

definition demo_upvote :: Transaction where
  "demo_upvote = (demo_post 7 demo_txid 9)\<lparr>tx_Type := UPVOTE, tx_Parent := Some demo_parent_hash\<rparr>"

definition demo_page :: "(Client \<times> entry list) go" where
  "demo_page = renderFrontPage demo_env [unmined demo_env [] [] 0 [demo_post 7 demo_txid 9, demo_upvote, demo_upvote]]
     (MakeClient (\<lambda>_. True) ''20200'' ''20000'')"

lemma demo_page_returns: "(case demo_page of Panic p \<Rightarrow> False | Ret (cl, page) \<Rightarrow> map en_score page = [2])"
  by code_simp

theorem front_page_scores_witness:
  "\<exists>cl page k txc. demo_page = Ret (cl, page) \<and> go_get (cl_hashMap cl) k = Some txc \<and> tc_score txc = 2"
proof -
  obtain cl page where page: "demo_page = Ret (cl, page)" using demo_page_returns by (auto split: go.splits prod.splits)
  let ?bs = "[unmined demo_env [] [] 0 [demo_post 7 demo_txid 9, demo_upvote, demo_upvote]]"
  have h: "Tx_Hash demo_env (demo_post 7 demo_txid 9) = Ret (Hash demo_env (tx_layout in_layout (demo_post 7 demo_txid 9)))"
    by (intro Tx_Hash_layout) simp
  obtain k where k: "abbreviation_of demo_parent_hash = Ret k"
    using abbreviation_of_long[of demo_parent_hash] by (auto simp: demo_parent_hash_def demo_scrypt_ok HASH_NUM_BYTES_def)
  have mem: "demo_post 7 demo_txid 9 \<in> set (chain_txs ?bs)" by (simp add: chain_txs_def)
  have "length (filter (upvotes k) (chain_txs ?bs)) = 2"
    using k by (simp add: chain_txs_def upvotes_def demo_upvote_def demo_post_def tx_type_defs)
  with front_page_scores[OF page[unfolded demo_page_def] mem h k[unfolded demo_parent_hash_def]] page show ?thesis by auto
qed




definition demo_world :: world where
  "demo_world = \<lparr>wd_utxo = (\<lambda>k i. None), wd_append = (\<lambda>tx k i. None), wd_chain = None\<rparr>"


end
