(* ===== verification/Labrpc.thy ===== *)
theory Labrpc
  imports Prelude
begin

text \<open>
  \<^verbatim>\<open>src/labrpc/labrpc.go\<close>: the simulated network for tests.  Names (\<^verbatim>\<open>interface{}\<close>) are of a type \<open>'n\<close>, the
  receiver behind a service has the state \<open>'s\<close>.  Servers are shared by pointer (\<^verbatim>\<open>IsServerDead\<close> compares
  pointers), so that \<open>rn_servers\<close> maps names to addresses in \<open>rn_heap\<close>, with \<open>None\<close> for nil.  A service is
  held by value: each is added to one server.

  A method is what the code reads of it by reflection, with \<open>mt_Call\<close> for the decoding of the argument, the
  call and the encoding of the reply.  \<^verbatim>\<open>log.Fatalf\<close> ends the process: it is \<open>Panic (Explicit _)\<close>.  Sleeps have
  no effect on the state; random choices (drop the request, drop the reply) are arguments.
\<close>

subsection \<open>Services\<close>

record 's reflect_method =
  mt_Name :: string
  mt_PkgPath :: string
  mt_NumIn :: nat
  mt_In2_Ptr :: bool
  mt_NumOut :: nat
  mt_Call :: "bytes \<Rightarrow> 's \<Rightarrow> 's \<times> bytes"

record 's Service =
  sv_name :: string
  sv_rcvr :: 's
  sv_methods :: "(string, 's reflect_method) gomap"

record 'n reqMsg =
  rq_endname :: 'n
  rq_svcMeth :: string
  rq_args :: bytes

record replyMsg =
  rp_ok :: bool
  rp_reply :: bytes

definition no_reply :: replyMsg where
  "no_reply = \<lparr>rp_ok = False, rp_reply = []\<rparr>"

definition not_suitable :: "'s reflect_method \<Rightarrow> bool" where
  "not_suitable method \<longleftrightarrow>
     mt_PkgPath method \<noteq> '''' \<or> mt_NumIn method \<noteq> 3 \<or> \<not> mt_In2_Ptr method \<or> mt_NumOut method \<noteq> 0"

text \<open>\<open>name\<close> and \<open>methods\<close> are what reflection says of the receiver's type.\<close>

definition MakeService :: "string \<Rightarrow> 's reflect_method list \<Rightarrow> 's \<Rightarrow> 's Service" where
  "MakeService name methods rcvr =
     \<lparr>sv_name = name, sv_rcvr = rcvr,
      sv_methods = fold (\<lambda>method ms. if not_suitable method then ms else go_put (mt_Name method) method ms) methods []\<rparr>"

definition Service_dispatch :: "string \<Rightarrow> bytes \<Rightarrow> 's Service \<Rightarrow> ('s Service \<times> replyMsg) go" where
  "Service_dispatch methname args svc =
     (case go_get (sv_methods svc) methname of
        Some method \<Rightarrow>
          (let (rcvr, reply) = mt_Call method args (sv_rcvr svc)
           in Ret (svc\<lparr>sv_rcvr := rcvr\<rparr>, \<lparr>rp_ok = True, rp_reply = reply\<rparr>))
      | None \<Rightarrow> Panic (Explicit ''labrpc.Service.dispatch(): unknown method''))"

subsection \<open>Servers\<close>

record 's Server =
  rs_services :: "(string, 's Service) gomap"
  rs_count :: int

definition MakeServer :: "'s Server" where
  "MakeServer = \<lparr>rs_services = [], rs_count = 0\<rparr>"

definition AddService :: "'s Service \<Rightarrow> 's Server \<Rightarrow> 's Server" where
  "AddService svc rs = rs\<lparr>rs_services := go_put (sv_name svc) svc (rs_services rs)\<rparr>"

text \<open>\<^verbatim>\<open>strings.LastIndex\<close> for a single character, \<open>None\<close> for \<open>-1\<close>.\<close>

fun LastIndex :: "string \<Rightarrow> char \<Rightarrow> nat option" where
  "LastIndex [] c = None"
| "LastIndex (x # xs) c =
     (case LastIndex xs c of Some i \<Rightarrow> Some (Suc i) | None \<Rightarrow> if x = c then Some 0 else None)"

definition split_svcMeth :: "string \<Rightarrow> (string \<times> string) go" where
  "split_svcMeth svcMeth =
     (case LastIndex svcMeth CHR ''.'' of
        None \<Rightarrow> Panic SliceBounds
      | Some dot \<Rightarrow> Ret (take dot svcMeth, drop (dot + 1) svcMeth))"

definition Server_dispatch :: "'n reqMsg \<Rightarrow> 's Server \<Rightarrow> ('s Server \<times> replyMsg) go" where
  "Server_dispatch req rs =
     (let rs = rs\<lparr>rs_count := rs_count rs + 1\<rparr>
      in bind_go (split_svcMeth (rq_svcMeth req)) (\<lambda>(serviceName, methodName).
         case go_get (rs_services rs) serviceName of
           Some service \<Rightarrow>
             bind_go (Service_dispatch methodName (rq_args req) service) (\<lambda>(service, reply).
               Ret (rs\<lparr>rs_services := go_put serviceName service (rs_services rs)\<rparr>, reply))
         | None \<Rightarrow> Panic (Explicit ''labrpc.Server.dispatch(): unknown service'')))"

definition Server_GetCount :: "'s Server \<Rightarrow> int" where
  "Server_GetCount rs = rs_count rs"

subsection \<open>The network\<close>

record 'n ClientEnd =
  ce_endname :: 'n

record ('n, 's) Network =
  rn_reliable :: bool
  rn_longDelays :: bool
  rn_longReordering :: bool
  rn_ends :: "('n, 'n ClientEnd) gomap"
  rn_enabled :: "('n, bool) gomap"
  rn_servers :: "('n, nat option) gomap"
  rn_connections :: "('n, 'n option) gomap"
  rn_heap :: "'s Server list"

definition MakeNetwork :: "'s Server list \<Rightarrow> ('n, 's) Network" where
  "MakeNetwork heap =
     \<lparr>rn_reliable = True, rn_longDelays = False, rn_longReordering = False, rn_ends = [], rn_enabled = [],
      rn_servers = [], rn_connections = [], rn_heap = heap\<rparr>"

definition Reliable :: "bool \<Rightarrow> ('n, 's) Network \<Rightarrow> ('n, 's) Network" where
  "Reliable yes rn = rn\<lparr>rn_reliable := yes\<rparr>"

definition LongReordering :: "bool \<Rightarrow> ('n, 's) Network \<Rightarrow> ('n, 's) Network" where
  "LongReordering yes rn = rn\<lparr>rn_longReordering := yes\<rparr>"

definition LongDelays :: "bool \<Rightarrow> ('n, 's) Network \<Rightarrow> ('n, 's) Network" where
  "LongDelays yes rn = rn\<lparr>rn_longDelays := yes\<rparr>"

definition MakeEnd :: "'n \<Rightarrow> ('n, 's) Network \<Rightarrow> (('n, 's) Network \<times> 'n ClientEnd) go" where
  "MakeEnd endname rn =
     (if go_get (rn_ends rn) endname \<noteq> None then Panic (Explicit ''MakeEnd: already exists'')
      else let e = \<lparr>ce_endname = endname\<rparr>
           in Ret (rn\<lparr>rn_ends := go_put endname e (rn_ends rn), rn_enabled := go_put endname False (rn_enabled rn),
                      rn_connections := go_put endname None (rn_connections rn)\<rparr>, e))"

definition AddServer :: "'n \<Rightarrow> nat option \<Rightarrow> ('n, 's) Network \<Rightarrow> ('n, 's) Network" where
  "AddServer servername rs rn = rn\<lparr>rn_servers := go_put servername rs (rn_servers rn)\<rparr>"

definition DeleteServer :: "'n \<Rightarrow> ('n, 's) Network \<Rightarrow> ('n, 's) Network" where
  "DeleteServer servername rn = rn\<lparr>rn_servers := go_put servername None (rn_servers rn)\<rparr>"

definition Connect :: "'n \<Rightarrow> 'n option \<Rightarrow> ('n, 's) Network \<Rightarrow> ('n, 's) Network" where
  "Connect endname servername rn = rn\<lparr>rn_connections := go_put endname servername (rn_connections rn)\<rparr>"

definition Enable :: "'n \<Rightarrow> bool \<Rightarrow> ('n, 's) Network \<Rightarrow> ('n, 's) Network" where
  "Enable endname enabled rn = rn\<lparr>rn_enabled := go_put endname enabled (rn_enabled rn)\<rparr>"

text \<open>Reading a Go map: the zero value for a missing key.\<close>

definition enabled_of :: "('n, 's) Network \<Rightarrow> 'n \<Rightarrow> bool" where
  "enabled_of rn endname = (case go_get (rn_enabled rn) endname of None \<Rightarrow> False | Some b \<Rightarrow> b)"

definition connection_of :: "('n, 's) Network \<Rightarrow> 'n \<Rightarrow> 'n option" where
  "connection_of rn endname = (case go_get (rn_connections rn) endname of None \<Rightarrow> None | Some s \<Rightarrow> s)"

definition server_of :: "('n, 's) Network \<Rightarrow> 'n \<Rightarrow> nat option" where
  "server_of rn servername = (case go_get (rn_servers rn) servername of None \<Rightarrow> None | Some p \<Rightarrow> p)"

definition GetCount :: "'n \<Rightarrow> ('n, 's) Network \<Rightarrow> int go" where
  "GetCount servername rn =
     bind_go (deref (server_of rn servername)) (\<lambda>a. bind_go (go_nth (rn_heap rn) a) (\<lambda>svr. Ret (Server_GetCount svr)))"

definition ReadEndnameInfo :: "'n \<Rightarrow> ('n, 's) Network \<Rightarrow> bool \<times> 'n option \<times> nat option \<times> bool \<times> bool" where
  "ReadEndnameInfo endname rn =
     (let servername = connection_of rn endname;
          server = (case servername of None \<Rightarrow> None | Some s \<Rightarrow> server_of rn s)
      in (enabled_of rn endname, servername, server, rn_reliable rn, rn_longReordering rn))"

definition IsServerDead :: "'n \<Rightarrow> 'n \<Rightarrow> nat option \<Rightarrow> ('n, 's) Network \<Rightarrow> bool" where
  "IsServerDead endname servername server rn \<longleftrightarrow> \<not> enabled_of rn endname \<or> server_of rn servername \<noteq> server"

subsection \<open>A request\<close>

text \<open>
  \<^verbatim>\<open>ProcessReq\<close> up to the start of the handler: \<open>None\<close> when the reply is \<^verbatim>\<open>{false, nil}\<close> at once, otherwise
  the server and what was read of the network; \<open>lost\<close> is the outcome of \<^verbatim>\<open>rand.Int()%1000 < 100\<close>.
\<close>

definition req_start :: "'n reqMsg \<Rightarrow> bool \<Rightarrow> ('n, 's) Network \<Rightarrow> ('n \<times> nat \<times> bool \<times> bool) option" where
  "req_start req lost rn =
     (let (enabled, servername, server, reliable, longreordering) = ReadEndnameInfo (rq_endname req) rn
      in case (servername, server) of
           (Some s, Some a) \<Rightarrow>
             if enabled then (if \<not> reliable \<and> lost then None else Some (s, a, reliable, longreordering)) else None
         | _ \<Rightarrow> None)"

text \<open>The handler: \<^verbatim>\<open>server.dispatch(req)\<close>.\<close>

definition serve :: "nat \<Rightarrow> 'n reqMsg \<Rightarrow> ('n, 's) Network \<Rightarrow> (('n, 's) Network \<times> replyMsg) go" where
  "serve a req rn =
     bind_go (go_nth (rn_heap rn) a) (\<lambda>rs.
     bind_go (Server_dispatch req rs) (\<lambda>(rs, reply).
     Ret (rn\<lparr>rn_heap := (rn_heap rn)[a := rs]\<rparr>, reply)))"

text \<open>After the handler returned.  With \<^verbatim>\<open>longreordering\<close> the reply may be delayed, not changed.\<close>

definition req_finish :: "bool \<Rightarrow> bool \<Rightarrow> bool \<Rightarrow> replyMsg \<Rightarrow> replyMsg" where
  "req_finish reliable lost serverDead reply =
     (if serverDead then no_reply else if \<not> reliable \<and> lost then no_reply else reply)"

text \<open>What other threads may do while a request is in flight.\<close>

datatype 'n net_action =
    ActMakeEnd 'n | ActAddServer 'n "nat option" | ActDeleteServer 'n | ActConnect 'n "'n option"
  | ActEnable 'n bool | ActReliable bool | ActLongReordering bool | ActLongDelays bool | ActServe nat "'n reqMsg"

fun net_act :: "'n net_action \<Rightarrow> ('n, 's) Network \<Rightarrow> ('n, 's) Network go" where
  "net_act (ActMakeEnd e) rn = bind_go (MakeEnd e rn) (\<lambda>(rn, _). Ret rn)"
| "net_act (ActAddServer s p) rn = Ret (AddServer s p rn)"
| "net_act (ActDeleteServer s) rn = Ret (DeleteServer s rn)"
| "net_act (ActConnect e s) rn = Ret (Connect e s rn)"
| "net_act (ActEnable e b) rn = Ret (Enable e b rn)"
| "net_act (ActReliable b) rn = Ret (Reliable b rn)"
| "net_act (ActLongReordering b) rn = Ret (LongReordering b rn)"
| "net_act (ActLongDelays b) rn = Ret (LongDelays b rn)"
| "net_act (ActServe a req) rn = bind_go (serve a req rn) (\<lambda>(rn, _). Ret rn)"

text \<open>One run: the handler returns before the first timeout, and \<open>mid\<close> happens before its reply is read.\<close>

definition ProcessReq :: "'n reqMsg \<Rightarrow> bool \<Rightarrow> 'n net_action list \<Rightarrow> bool \<Rightarrow> ('n, 's) Network \<Rightarrow> (('n, 's) Network \<times> replyMsg) go" where
  "ProcessReq req lost1 mid lost2 rn =
     (case req_start req lost1 rn of
        None \<Rightarrow> Ret (rn, no_reply)
      | Some (servername, server, reliable, longreordering) \<Rightarrow>
          bind_go (serve server req rn) (\<lambda>(rn, reply).
          bind_go (fold_go net_act mid rn) (\<lambda>rn.
          Ret (rn, req_finish reliable lost2 (IsServerDead (rq_endname req) servername (Some server) rn) reply))))"

text \<open>\<open>decode\<close> is the decoding of the reply, \<open>None\<close> for an error; the result is \<open>None\<close> for \<^verbatim>\<open>false\<close>.\<close>

definition Call :: "(bytes \<Rightarrow> 'r option) \<Rightarrow> 'n ClientEnd \<Rightarrow> string \<Rightarrow> bytes \<Rightarrow> bool \<Rightarrow> 'n net_action list \<Rightarrow> bool \<Rightarrow>
    ('n, 's) Network \<Rightarrow> (('n, 's) Network \<times> 'r option) go" where
  "Call decode e svcMeth args lost1 mid lost2 rn =
     (let req = \<lparr>rq_endname = ce_endname e, rq_svcMeth = svcMeth, rq_args = args\<rparr>
      in bind_go (ProcessReq req lost1 mid lost2 rn) (\<lambda>(rn, rep).
         if rp_ok rep
         then (case decode (rp_reply rep) of
             None \<Rightarrow> Panic (Explicit ''ClientEnd.Call(): decode reply'')
           | Some reply \<Rightarrow> Ret (rn, Some reply))
         else Ret (rn, None)))"

subsection \<open>A request as a state machine\<close>

text \<open>
  \<open>call_step acts req\<close>: the steps of \<^verbatim>\<open>ProcessReq\<close>, of its handler goroutine, and of other threads, whose
  actions are those in \<open>acts\<close>.  \<open>step_timeout\<close> is an iteration of the waiting loop that finds the server dead,
  which may also happen when the reply is there; the handler goes on after it.
\<close>

datatype 'n phase = Sent | Waiting 'n nat bool bool | Replied replyMsg

datatype handler = NotStarted | InHandler nat | Answered replyMsg

record ('n, 's) call_state =
  cs_net :: "('n, 's) Network"
  cs_phase :: "'n phase"
  cs_handler :: handler

inductive call_step :: "('n net_action \<Rightarrow> bool) \<Rightarrow> 'n reqMsg \<Rightarrow> ('n, 's) call_state \<Rightarrow> ('n, 's) call_state \<Rightarrow> bool"
  for acts :: "'n net_action \<Rightarrow> bool" and req :: "'n reqMsg" where
  step_fail: "cs_phase c = Sent \<Longrightarrow> req_start req lost (cs_net c) = None \<Longrightarrow>
    call_step acts req c (c\<lparr>cs_phase := Replied no_reply\<rparr>)"
| step_start: "cs_phase c = Sent \<Longrightarrow> req_start req lost (cs_net c) = Some (s, a, reliable, reordering) \<Longrightarrow>
    call_step acts req c (c\<lparr>cs_phase := Waiting s a reliable reordering, cs_handler := InHandler a\<rparr>)"
| step_handler: "cs_handler c = InHandler a \<Longrightarrow> serve a req (cs_net c) = Ret (rn, reply) \<Longrightarrow>
    call_step acts req c (c\<lparr>cs_net := rn, cs_handler := Answered reply\<rparr>)"
| step_timeout: "cs_phase c = Waiting s a reliable reordering \<Longrightarrow> IsServerDead (rq_endname req) s (Some a) (cs_net c) \<Longrightarrow>
    call_step acts req c (c\<lparr>cs_phase := Replied no_reply\<rparr>)"
| step_finish: "cs_phase c = Waiting s a reliable reordering \<Longrightarrow> cs_handler c = Answered reply \<Longrightarrow>
    call_step acts req c (c\<lparr>cs_phase := Replied (req_finish reliable lost (IsServerDead (rq_endname req) s (Some a) (cs_net c)) reply)\<rparr>)"
| step_other: "acts act \<Longrightarrow> net_act act (cs_net c) = Ret rn \<Longrightarrow> call_step acts req c (c\<lparr>cs_net := rn\<rparr>)"

definition call_start :: "('n, 's) call_state \<Rightarrow> bool" where
  "call_start c \<longleftrightarrow> cs_phase c = Sent \<and> cs_handler c = NotStarted"

text \<open>The direct style is a run of the state machine.\<close>

lemma other_steps:
  assumes "fold_go net_act mid (cs_net c) = Ret rn" and "list_all acts mid"
  shows "(call_step acts req)\<^sup>*\<^sup>* c (c\<lparr>cs_net := rn\<rparr>)"
  using assms
proof (induction mid arbitrary: c)
  case Nil
  then have "c\<lparr>cs_net := rn\<rparr> = c" by simp
  then show ?case by simp
next
  case (Cons act mid)
  then obtain rn1 where rn1: "net_act act (cs_net c) = Ret rn1" "fold_go net_act mid rn1 = Ret rn" by (auto simp: go_simps)
  have "call_step acts req c (c\<lparr>cs_net := rn1\<rparr>)" using Cons.prems(2) rn1(1) by (intro step_other) auto
  moreover have "(call_step acts req)\<^sup>*\<^sup>* (c\<lparr>cs_net := rn1\<rparr>) (c\<lparr>cs_net := rn1\<rparr>\<lparr>cs_net := rn\<rparr>)"
    using Cons.prems(2) rn1(2) by (intro Cons.IH) simp_all
  ultimately show ?case by (simp add: converse_rtranclp_into_rtranclp)
qed

lemma ProcessReq_run:
  assumes "ProcessReq req lost1 mid lost2 rn = Ret (rn', r)" and "list_all acts mid"
  shows "\<exists>h. (call_step acts req)\<^sup>*\<^sup>* \<lparr>cs_net = rn, cs_phase = Sent, cs_handler = NotStarted\<rparr> \<lparr>cs_net = rn', cs_phase = Replied r, cs_handler = h\<rparr>"
proof -
  let ?c = "\<lparr>cs_net = rn, cs_phase = Sent, cs_handler = NotStarted\<rparr>"
  show ?thesis
  proof (cases "req_start req lost1 rn")
    case None
    then have "call_step acts req ?c (?c\<lparr>cs_phase := Replied no_reply\<rparr>)" by (intro step_fail) simp_all
    with None assms(1) show ?thesis by (auto simp: ProcessReq_def)
  next
    case (Some info)
    obtain s a rel reord where info: "info = (s, a, rel, reord)" by (cases info)
    obtain rn1 reply where rn1: "serve a req rn = Ret (rn1, reply)" "fold_go net_act mid rn1 = Ret rn'"
        "r = req_finish rel lost2 (IsServerDead (rq_endname req) s (Some a) rn') reply"
      using assms(1) Some info by (auto simp: ProcessReq_def go_simps)
    let ?c1 = "\<lparr>cs_net = rn, cs_phase = Waiting s a rel reord, cs_handler = InHandler a\<rparr>"
    let ?c2 = "\<lparr>cs_net = rn1, cs_phase = Waiting s a rel reord, cs_handler = Answered reply\<rparr>"
    let ?c3 = "\<lparr>cs_net = rn', cs_phase = Waiting s a rel reord, cs_handler = Answered reply\<rparr>"
    have "call_step acts req ?c ?c1" using step_start[of ?c req lost1 s a rel reord acts] Some info by simp
    moreover have "call_step acts req ?c1 ?c2" using step_handler[of ?c1 a req rn1 reply acts] rn1(1) by simp
    moreover have "(call_step acts req)\<^sup>*\<^sup>* ?c2 ?c3" using other_steps[of mid ?c2 rn' acts req] rn1(2) assms(2) by simp
    moreover have "call_step acts req ?c3 (?c3\<lparr>cs_phase := Replied r\<rparr>)"
      unfolding rn1(3) using step_finish[of ?c3 s a rel reord reply acts req lost2] by simp
    ultimately have "(call_step acts req)\<^sup>*\<^sup>* ?c (?c3\<lparr>cs_phase := Replied r\<rparr>)"
      by (meson converse_rtranclp_into_rtranclp rtranclp.rtrancl_into_rtrancl)
    then show ?thesis by auto
  qed
qed

subsection \<open>Splitting a method name\<close>

lemma LastIndex_none: "c \<notin> set xs \<Longrightarrow> LastIndex xs c = None"
  by (induction xs) auto

lemma LastIndex_last: "c \<notin> set ys \<Longrightarrow> LastIndex (xs @ c # ys) c = Some (length xs)"
  by (induction xs) (simp_all add: LastIndex_none)

lemma LastIndex_mem: "(\<exists>i. LastIndex xs c = Some i) \<longleftrightarrow> c \<in> set xs"
  by (induction xs) (auto split: option.splits)

lemma split_svcMeth_join: "CHR ''.'' \<notin> set meth \<Longrightarrow> split_svcMeth (svc @ CHR ''.'' # meth) = Ret (svc, meth)"
  by (simp add: split_svcMeth_def LastIndex_last)

subsection \<open>What the replies can be\<close>

lemma net_act_servers:
  assumes "net_act act rn = Ret rn'" and "\<forall>p. act \<noteq> ActAddServer s p" and "server_of rn s = None"
  shows "server_of rn' s = None"
  using assms
  by (cases act) (auto simp: MakeEnd_def AddServer_def DeleteServer_def Connect_def Enable_def Reliable_def LongReordering_def
      LongDelays_def serve_def server_of_def go_simps Let_def split: if_splits prod.splits)

text \<open>After the deletion of the server that a request waits for: no positive reply.\<close>

definition deleted_inv :: "'n \<Rightarrow> ('n, 's) call_state \<Rightarrow> bool" where
  "deleted_inv s c \<longleftrightarrow> server_of (cs_net c) s = None \<and>
     (case cs_phase c of Sent \<Rightarrow> False | Waiting s' a rel reord \<Rightarrow> s' = s | Replied r \<Rightarrow> \<not> rp_ok r)"

interpretation gone: invariant_system "\<lambda>c. deleted_inv s c" "call_step (\<lambda>act. \<forall>p. act \<noteq> ActAddServer s p) req" "deleted_inv s" for s req
proof
  fix c c' assume inv: "deleted_inv s c" and step: "call_step (\<lambda>act. \<forall>p. act \<noteq> ActAddServer s p) req c c'"
  from step show "deleted_inv s c'"
  proof cases
    case (step_handler a rn reply)
    then have "server_of rn s = server_of (cs_net c) s" by (auto simp: serve_def server_of_def go_simps)
    with inv step_handler show ?thesis by (simp add: deleted_inv_def)
  next
    case (step_finish s' a rel reord reply lost)
    with inv have "IsServerDead (rq_endname req) s' (Some a) (cs_net c)" by (simp add: deleted_inv_def IsServerDead_def)
    with inv step_finish show ?thesis by (simp add: deleted_inv_def req_finish_def no_reply_def)
  next
    case (step_other act rn)
    with inv net_act_servers[of act "cs_net c" rn s] show ?thesis by (simp add: deleted_inv_def)
  qed (use inv in \<open>auto simp: deleted_inv_def no_reply_def\<close>)
qed

text \<open>A positive reply is the handler's answer to this very request.\<close>

definition answered_inv :: "'n reqMsg \<Rightarrow> ('n, 's) call_state \<Rightarrow> bool" where
  "answered_inv req c \<longleftrightarrow>
     (\<forall>reply. cs_handler c = Answered reply \<longrightarrow> (\<exists>a rn rn'. serve a req (rn :: ('n, 's) Network) = Ret (rn', reply))) \<and>
     (\<forall>reply. cs_phase c = Replied reply \<longrightarrow> rp_ok reply \<longrightarrow> cs_handler c = Answered reply) \<and>
     (cs_phase c = Sent \<longrightarrow> cs_handler c = NotStarted)"

interpretation honest: invariant_system "call_start :: ('n, 's) call_state \<Rightarrow> bool" "call_step acts req" "answered_inv req" for acts req
proof
  fix c :: "('n, 's) call_state" assume "call_start c"
  then show "answered_inv req c" by (simp add: call_start_def answered_inv_def)
next
  fix c c' :: "('n, 's) call_state" assume inv: "answered_inv req c" and step: "call_step acts req c c'"
  from step show "answered_inv req c'"
  proof cases
    case (step_handler a rn reply)
    with inv have "\<not> (\<exists>r. cs_phase c = Replied r \<and> rp_ok r)" "cs_phase c \<noteq> Sent" by (auto simp: answered_inv_def)
    with step_handler show ?thesis unfolding answered_inv_def by auto
  next
    case (step_finish s a rel reord reply lost)
    with inv show ?thesis by (auto simp: answered_inv_def req_finish_def no_reply_def split: if_splits)
  qed (use inv in \<open>auto simp: answered_inv_def no_reply_def\<close>)
qed

subsection \<open>Services and methods\<close>

lemma MakeService_methods:
  "go_get (fold (\<lambda>m ms. if not_suitable m then ms else go_put (mt_Name m) m ms) methods ms) name =
     (case List.find (\<lambda>m. mt_Name m = name \<and> \<not> not_suitable m) (rev methods) of None \<Rightarrow> go_get ms name | Some m \<Rightarrow> Some m)"
proof (induction methods arbitrary: ms)
  case Nil
  then show ?case by simp
next
  case (Cons m methods)
  have snoc: "List.find P (xs @ [x]) = (case List.find P xs of None \<Rightarrow> if P x then Some x else None | Some y \<Rightarrow> Some y)"
    for P and x :: "'s reflect_method" and xs
    by (induction xs) auto
  show ?case using Cons.IH by (auto simp: snoc split: option.splits)
qed

lemma serve_method:
  assumes "a < length (rn_heap rn)" and "go_get (rs_services (rn_heap rn ! a)) svc = Some service"
    and "go_get (sv_methods service) meth = Some method" and "CHR ''.'' \<notin> set meth" and "rq_svcMeth req = svc @ CHR ''.'' # meth"
  shows "\<exists>rs. serve a req rn = Ret (rn\<lparr>rn_heap := (rn_heap rn)[a := rs]\<rparr>,
      \<lparr>rp_ok = True, rp_reply = snd (mt_Call method (rq_args req) (sv_rcvr service))\<rparr>) \<and>
    rs_count rs = rs_count (rn_heap rn ! a) + 1 \<and>
    go_get (rs_services rs) svc = Some (service\<lparr>sv_rcvr := fst (mt_Call method (rq_args req) (sv_rcvr service))\<rparr>)"
proof -
  let ?rs = "rn_heap rn ! a"
  obtain rcvr answer where call: "mt_Call method (rq_args req) (sv_rcvr service) = (rcvr, answer)" by force
  have "Server_dispatch req ?rs = Ret (?rs\<lparr>rs_count := rs_count ?rs + 1,
      rs_services := go_put svc (service\<lparr>sv_rcvr := rcvr\<rparr>) (rs_services ?rs)\<rparr>, \<lparr>rp_ok = True, rp_reply = answer\<rparr>)"
    using assms(2-5) call by (simp add: Server_dispatch_def split_svcMeth_join Service_dispatch_def)
  with assms(1) call show ?thesis by (auto simp: serve_def go_nth_def)
qed

subsection \<open>A network for evaluation\<close>

text \<open>One server with a service \<open>Counter\<close> whose method \<open>Add\<close> adds the argument's length and returns the sum.\<close>

definition demo_method :: "int reflect_method" where
  "demo_method = \<lparr>mt_Name = ''Add'', mt_PkgPath = '''', mt_NumIn = 3, mt_In2_Ptr = True, mt_NumOut = 0,
     mt_Call = (\<lambda>args s. (s + int (length args), [word_of_int (s + int (length args))]))\<rparr>"

definition demo_net :: "(string, int) Network" where
  "demo_net = Enable ''end'' True (Connect ''end'' (Some ''srv'')
     (case MakeEnd ''end'' (AddServer ''srv'' (Some 0) (MakeNetwork [AddService (MakeService ''Counter'' [demo_method] 40) MakeServer])) of
        Ret (rn, _) \<Rightarrow> rn))"

definition demo_req :: "string reqMsg" where
  "demo_req = \<lparr>rq_endname = ''end'', rq_svcMeth = ''Counter.Add'', rq_args = [1, 2]\<rparr>"

lemma demo_net_eq:
  "demo_net = \<lparr>rn_reliable = True, rn_longDelays = False, rn_longReordering = False, rn_ends = [(''end'', \<lparr>ce_endname = ''end''\<rparr>)],
     rn_enabled = [(''end'', True)], rn_servers = [(''srv'', Some 0)], rn_connections = [(''end'', Some ''srv'')],
     rn_heap = [\<lparr>rs_services = [(''Counter'', \<lparr>sv_name = ''Counter'', sv_rcvr = 40, sv_methods = [(''Add'', demo_method)]\<rparr>)], rs_count = 0\<rparr>]\<rparr>"
proof -
  have "\<not> not_suitable demo_method" "mt_Name demo_method = ''Add''" by (simp_all add: not_suitable_def demo_method_def)
  then show ?thesis
    by (simp add: demo_net_def MakeNetwork_def AddServer_def MakeEnd_def Connect_def Enable_def AddService_def MakeService_def MakeServer_def
        go_put_def go_get_def Let_def)
qed

subsection \<open>Properties\<close>

text \<open>C25: A request on an enabled end that is connected to a live server, for a registered method: unless the
  request is lost, the handler runs once on the receiver's state, with the argument, and the server counts the
  call, also when the reply is then lost; on a reliable network the handler's answer always comes back.\<close>

theorem request_delivered:
  assumes "enabled_of rn (rq_endname req)" and "connection_of rn (rq_endname req) = Some s" and "server_of rn s = Some a"
    and "a < length (rn_heap rn)" and "go_get (rs_services (rn_heap rn ! a)) svc = Some service"
    and "go_get (sv_methods service) meth = Some method" and "CHR ''.'' \<notin> set meth" and "rq_svcMeth req = svc @ CHR ''.'' # meth"
    and "mt_Call method (rq_args req) (sv_rcvr service) = (rcvr, answer)"
  shows "if \<not> rn_reliable rn \<and> lost1 then ProcessReq req lost1 [] lost2 rn = Ret (rn, no_reply)
    else \<exists>rs. ProcessReq req lost1 [] lost2 rn = Ret (rn\<lparr>rn_heap := (rn_heap rn)[a := rs]\<rparr>,
           if \<not> rn_reliable rn \<and> lost2 then no_reply else \<lparr>rp_ok = True, rp_reply = answer\<rparr>) \<and>
         rs_count rs = rs_count (rn_heap rn ! a) + 1 \<and> go_get (rs_services rs) svc = Some (service\<lparr>sv_rcvr := rcvr\<rparr>)"
proof -
  obtain rs where rs: "serve a req rn = Ret (rn\<lparr>rn_heap := (rn_heap rn)[a := rs]\<rparr>, \<lparr>rp_ok = True, rp_reply = answer\<rparr>)"
      "rs_count rs = rs_count (rn_heap rn ! a) + 1" "go_get (rs_services rs) svc = Some (service\<lparr>sv_rcvr := rcvr\<rparr>)"
    using serve_method[OF assms(4-8)] assms(9) by auto
  have start: "req_start req lost1 rn = (if \<not> rn_reliable rn \<and> lost1 then None else Some (s, a, rn_reliable rn, rn_longReordering rn))"
    using assms(1-3) by (simp add: req_start_def ReadEndnameInfo_def)
  have "\<not> IsServerDead (rq_endname req) s (Some a) (rn\<lparr>rn_heap := (rn_heap rn)[a := rs]\<rparr>)"
    using assms(1,3) by (simp add: IsServerDead_def enabled_of_def server_of_def)
  then show ?thesis using rs start by (auto simp: ProcessReq_def req_finish_def)
qed

theorem request_delivered_witness:
  "\<exists>rn'. ProcessReq demo_req True [] True demo_net = Ret (rn', \<lparr>rp_ok = True, rp_reply = [42]\<rparr>)"
proof -
  have "mt_Call demo_method (rq_args demo_req) 40 = (42, [42])" by (simp add: demo_method_def demo_req_def)
  moreover have "rn_reliable demo_net" by (simp add: demo_net_eq)
  ultimately show ?thesis
    using request_delivered[of demo_net demo_req "''srv''" 0 "''Counter''"
        "\<lparr>sv_name = ''Counter'', sv_rcvr = 40, sv_methods = [(''Add'', demo_method)]\<rparr>" "''Add''" demo_method 42 "[42]" True True]
    by (auto simp: demo_net_eq demo_req_def enabled_of_def connection_of_def server_of_def go_get_def)
qed





text \<open>The handlers of \<^verbatim>\<open>DRNode\<close> return an error, so that \<^verbatim>\<open>MakeService\<close> would leave all of them out, and a call
  to one of them would end the process.\<close>

lemma error_handlers_rejected:
  assumes "\<forall>m \<in> set methods. mt_NumOut m = 1"
  shows "\<exists>msg. Service_dispatch meth args (MakeService name methods rcvr) = Panic (Explicit msg)"
proof -
  have "List.find (\<lambda>m. mt_Name m = meth \<and> \<not> not_suitable m) (rev methods) = None"
    using assms by (auto simp: find_None_iff not_suitable_def)
  then have "go_get (sv_methods (MakeService name methods rcvr)) meth = None" by (simp add: MakeService_def MakeService_methods)
  then show ?thesis by (simp add: Service_dispatch_def)
qed

end
