(* ===== verification/Stall.thy ===== *)
theory Stall
  imports Forum
begin

text \<open>
  What stops the nodes of \<^verbatim>\<open>src/node/miner.go\<close> from making progress together: the counter \<^verbatim>\<open>numPending\<close>, which
  \<^verbatim>\<open>SendBlock\<close> lowers also for transactions that are not pending, and forks of the chain, which remain.
\<close>

subsection \<open>A received block lowers the counter\<close>

lemma SendBlock_counter:
  assumes "node_inv E n" and "SendBlock E b n = Ret (m, err)" and "nd_Blockchain m \<noteq> nd_Blockchain n"
  shows "nd_numPending m = nd_numPending n - (int (length (b_Transactions b)) - 1)" and "nd_quit m = nd_quit n"
    and "nd_SeenTxs m = nd_SeenTxs n"
proof -
  obtain bs where bs: "nd_Blockchain n = map Some bs" "bs \<noteq> []" using assms(1) by (rule node_invE)
  have empty: "nd_SideChains n = []" "nd_OrphanChains n = []" using assms(1) by (simp_all add: node_inv_def)
  from assms(2) bs empty
  have "nd_numPending m = nd_numPending n - (int (length (b_Transactions b)) - 1) \<and> nd_quit m = nd_quit n \<and> nd_SeenTxs m = nd_SeenTxs n"
    by (cases rule: SendBlock_cases) (use assms(3) in auto)
  then show "nd_numPending m = nd_numPending n - (int (length (b_Transactions b)) - 1)" "nd_quit m = nd_quit n" "nd_SeenTxs m = nd_SeenTxs n"
    by blast+
qed

lemma mine_below_threshold:
  "nd_numPending n < BLOCK_SIZE_THRESHOLD E \<Longrightarrow> mine E now ord n = Some (Ret (n, []))"
  by (simp add: mine_def)

subsection \<open>Forks\<close>

lemma mined_block_timestamp:
  assumes "node_inv E n" and "mine E now ord n = Some (Ret (n', msgs))" and "nd_Blockchain n' = nd_Blockchain n @ [Some b]"
  shows "b_Timestamp b = word_of_int now"
proof -
  obtain bs where "nd_Blockchain n = map Some bs" "bs \<noteq> []" using assms(1) by (rule node_invE)
  with assms(2) show ?thesis
  proof (cases rule: mine_cases)
    case (idle p)
    with assms(3) show ?thesis by simp
  next
    case (mined tns b' p0 p db prev)
    then have "b' = b" using assms(3) by simp
    with mined(2) show ?thesis by (auto simp: GenerateBlock_def Let_def unmined_def dest!: proofOfWork_Ret(5) split: go.splits)
  qed
qed

lemma steps_keep_blocks:
  assumes "(node_step E)\<^sup>*\<^sup>* n n'" and "reach (node_start E) (node_step E) n" and "i < length (nd_Blockchain n)"
  shows "i < length (nd_Blockchain n') \<and> nd_Blockchain n' ! i = nd_Blockchain n ! i"
proof -
  have "reach (node_start E) (node_step E) n' \<and> i < length (nd_Blockchain n') \<and> nd_Blockchain n' ! i = nd_Blockchain n ! i"
    using assms(1)
  proof (induction rule: rtranclp_induct)
    case base
    then show ?case using assms(2,3) by blast
  next
    case (step m m')
    then obtain bs where "nd_Blockchain m' = nd_Blockchain m @ map Some bs" using node_step_appends ninv.inv_reach by blast
    with step show ?case by (auto simp: nth_append intro: reach_step)
  qed
  then show ?thesis by blast
qed

text \<open>Two turns of the same node at different times make different blocks.\<close>

lemma wallet_fork:
  obtains n m where "reach (node_start wallet_env) (node_step wallet_env) n" and "reach (node_start wallet_env) (node_step wallet_env) m"
    and "length (nd_Blockchain n) = 2" and "length (nd_Blockchain m) = 2" and "nd_Blockchain n ! 1 \<noteq> nd_Blockchain m ! 1"
proof -
  obtain n tx where n: "reach (node_start wallet_env) (node_step wallet_env) n" "\<not> nd_quit n" "nd_numPending n = 0" "nd_PendingTxs n = []"
      "nd_SeenTxs n = []" "nd_pubHash n = hd genesis_pubKeyHashB64" "\<exists>g. nd_Blockchain n = [Some g]"
    and tx: "distinct (tx_inputs tx)" "validateTransaction wallet_env (nd_Utxo n) (nd_Blockchain n) tx = Ret None"
    by (rule wallet_post_ready)
  have idle: "\<forall>s tn. go_get (nd_PendingTxs n) s = Some tn \<longrightarrow> tn_Status tn \<noteq> PENDING" using n(4) by (simp add: go_get_def)
  have fork: "\<exists>m b. reach (node_start wallet_env) (node_step wallet_env) m \<and> nd_Blockchain m = nd_Blockchain n @ [Some b] \<and>
      b_Timestamp b = word_of_int now" for now
  proof -
    obtain n1 n2 s b msgs ord where app: "AppendTx wallet_env tx 3 n = Ret (n1, Polling s (nd_servers n))"
        and turn: "mine wallet_env now ord n1 = Some (Ret (n2, msgs))" and n2: "reach (node_start wallet_env) (node_step wallet_env) n2"
        and b: "nd_Blockchain n2 = nd_Blockchain n @ [Some b]"
      by (rule wallet_turn[where now = now, OF n(1-3,6) idle tx(2,1)]) (use n(5) in \<open>auto simp: go_get_def\<close>)
    have "nd_Blockchain n1 = nd_Blockchain n" using app by (auto simp: AppendTx_def go_simps Let_def split: if_splits)
    with b have "b_Timestamp b = word_of_int now"
      by (intro mined_block_timestamp[OF node_inv_AppendTx[OF ninv.inv_reach[OF n(1)] app] turn]) simp
    with n2 b show ?thesis by blast
  qed
  obtain m b where m: "reach (node_start wallet_env) (node_step wallet_env) m" "nd_Blockchain m = nd_Blockchain n @ [Some b]"
      "b_Timestamp b = word_of_int 0" using fork by blast
  obtain m' b' where m': "reach (node_start wallet_env) (node_step wallet_env) m'" "nd_Blockchain m' = nd_Blockchain n @ [Some b']"
      "b_Timestamp b' = word_of_int 1" using fork by blast
  have "b \<noteq> b'" using m(3) m'(3) by auto
  then show thesis using that[OF m(1) m'(1)] m(2) m'(2) n(7) by (auto simp: nth_append)
qed

subsection \<open>Properties\<close>

text \<open>C36: A fork is permanent: once the chains of two reachable nodes hold different blocks at the same height, they do so
  for ever, whatever blocks, longer chains among them, the nodes receive; the rule that the longest chain wins,
  which the side chains are for, never takes effect.\<close>

theorem forks_never_heal:
  assumes "reach (node_start E) (node_step E) n" and "reach (node_start E) (node_step E) m"
    and "i < length (nd_Blockchain n)" and "i < length (nd_Blockchain m)" and "nd_Blockchain n ! i \<noteq> nd_Blockchain m ! i"
    and "(node_step E)\<^sup>*\<^sup>* n n'" and "(node_step E)\<^sup>*\<^sup>* m m'"
  shows "i < length (nd_Blockchain n') \<and> i < length (nd_Blockchain m') \<and> nd_Blockchain n' ! i \<noteq> nd_Blockchain m' ! i"
  using steps_keep_blocks[OF assms(6,1,3)] steps_keep_blocks[OF assms(7,2,4)] assms(5) by simp

theorem forks_never_heal_witness:
  "\<exists>n m. reach (node_start wallet_env) (node_step wallet_env) n \<and> reach (node_start wallet_env) (node_step wallet_env) m \<and>
     (\<forall>n' m'. (node_step wallet_env)\<^sup>*\<^sup>* n n' \<longrightarrow> (node_step wallet_env)\<^sup>*\<^sup>* m m' \<longrightarrow> nd_Blockchain n' \<noteq> nd_Blockchain m')"
proof -
  obtain n m where n: "reach (node_start wallet_env) (node_step wallet_env) n" "reach (node_start wallet_env) (node_step wallet_env) m"
      "length (nd_Blockchain n) = 2" "length (nd_Blockchain m) = 2" "nd_Blockchain n ! 1 \<noteq> nd_Blockchain m ! 1"
    by (rule wallet_fork)
  have "nd_Blockchain n' \<noteq> nd_Blockchain m'" if "(node_step wallet_env)\<^sup>*\<^sup>* n n'" "(node_step wallet_env)\<^sup>*\<^sup>* m m'" for n' m'
    using forks_never_heal[OF n(1,2) _ _ n(5) that] n(3,4) by auto
  with n(1,2) show ?thesis by blast
qed

text \<open>The pending counter counts the transactions of others: a running node that receives a valid block with
  one post, which was never pending here, subtracts it from \<^verbatim>\<open>numPending\<close> all the same.  The node
  then takes a valid transaction into its pending map and, although the threshold is one transaction, no turn
  of its miner takes it up.\<close>

theorem received_block_stalls_miner:
  "\<exists>E n b m tx m1 s. reach (node_start E) (node_step E) n \<and> SendBlock E b n = Ret (m, None) \<and> \<not> nd_quit m \<and>
     BLOCK_SIZE_THRESHOLD E = 1 \<and> validateTransaction E (nd_Utxo m) (nd_Blockchain m) tx = Ret None \<and>
     AppendTx E tx 3 m = Ret (m1, Polling s (nd_servers m)) \<and>
     (\<exists>tn. go_get (nd_PendingTxs m1) s = Some tn \<and> tn_Status tn = PENDING) \<and>
     (\<forall>now ord. mine E now ord m1 = Some (Ret (m1, [])))"
proof -
  obtain n n2 tx s b u where n: "reach (node_start wallet_env) (node_step wallet_env) n" "nd_numPending n = 0"
      "nd_PendingTxs n = []" "nd_SeenTxs n = []" "\<not> nd_quit n"
    and chain: "\<exists>g. nd_Blockchain n2 = [Some g, Some b]" "\<exists>cb. b_Transactions b = [tx, cb]"
    and u: "owned wallet_env (nd_Utxo n2) 7 u" "ut_Value u = 101"
    and sent: "\<exists>m. SendBlock wallet_env b n = Ret (m, None) \<and> same_ledger n2 m"
    and fresh: "nd_Blockchain n2 \<noteq> nd_Blockchain n"
    by (rule wallet_first_post)
  from sent obtain m where m: "SendBlock wallet_env b n = Ret (m, None)" "same_ledger n2 m" by blast
  then have "nd_Blockchain m \<noteq> nd_Blockchain n" using fresh by (simp add: same_ledger_def)
  note counter = SendBlock_counter[OF ninv.inv_reach[OF n(1)] m(1) this]
  have "owned wallet_env (nd_Utxo m) 7 u" using u(1) m(2) by (simp add: same_ledger_def)
  from single_post_accepted[OF wallet_scrypt_ok wallet_ecdsa_ok this, of POST None "nd_Blockchain m" _ "Some [106]"] u(2)
  obtain tx' where tx': "validateTransaction wallet_env (nd_Utxo m) (nd_Blockchain m) tx' = Ret None"
    by (auto simp: parent_ok_def tx_type_defs)
  have threshold: "BLOCK_SIZE_THRESHOLD wallet_env = 1" by (simp add: wallet_env_def demo_env_def)
  have comps: "validateComponents tx' = None" using tx' by (simp add: validateTransaction_None tx_accepted_def)
  then obtain m1 s' where m1: "AppendTx wallet_env tx' 3 m = Ret (m1, Polling s' (nd_servers m))" "nd_numPending m1 = nd_numPending m + 1"
      "\<exists>tn. go_get (nd_PendingTxs m1) s' = Some tn \<and> tn_Status tn = PENDING"
    using counter(3) n(4) by (simp add: AppendTx_def Tx_Hash_layout Let_def go_get_def[of "[]"])
  have "nd_numPending m1 = 0" using m1(2) counter(1) n(2) chain(2) by auto
  then have quiet: "mine wallet_env now ord m1 = Some (Ret (m1, []))" for now ord
    using threshold by (intro mine_below_threshold) simp
  have "\<not> nd_quit m" using counter(2) n(5) by simp
  with n(1) m(1) tx' m1(1,3) threshold quiet show ?thesis by blast
qed

end
