(* ===== verification/Network.thy ===== *)
theory Network
  imports Forum
begin

text \<open>
  Several nodes and the messages between them: a node forwards a registered transaction to its peers
  (\<^verbatim>\<open>AppendTx\<close>), sends them each block it mines (\<^verbatim>\<open>mine\<close>), and asks a peer for its log when it starts
  (\<^verbatim>\<open>StartDRNode\<close>).  A call is a message that is handled once, at any later time and in any order, or
  lost.  The state also records, for the properties, which blocks were mined and which transactions were submitted.
\<close>

subsection \<open>State and steps\<close>

datatype message = TxMsg string Transaction int | BlockMsg string Block

record net =
  net_nodes :: "string \<rightharpoonup> DRNode"
  net_flight :: "message multiset"
  net_mined :: "Block set"
  net_submitted :: "Transaction set"

text \<open>The calls that \<^verbatim>\<open>AppendTx\<close> starts, and the block that a turn of \<^verbatim>\<open>mine\<close> appended.\<close>

fun forwards :: "Transaction \<Rightarrow> int \<Rightarrow> append_result \<Rightarrow> message multiset" where
  "forwards tx clerkId (Replied ok) = {#}"
| "forwards tx clerkId (Polling s servers) = mset (map (\<lambda>c. TxMsg c tx clerkId) servers)"

definition appended :: "DRNode \<Rightarrow> DRNode \<Rightarrow> Block set" where
  "appended n n' = {b. Some b \<in> set (drop (length (nd_Blockchain n)) (nd_Blockchain n'))}"

text \<open>The steps of one node that involve no transaction and no block.\<close>

inductive local_step :: "DRNode \<Rightarrow> DRNode \<Rightarrow> bool" where
  local_poll: "AppendTx_poll s n = Ret (n', res) \<Longrightarrow> local_step n n'"
| local_Gossip: "Gossip dial args n = (n', reply) \<Longrightarrow> local_step n n'"
| local_gossip_send: "gossip_send reply n = Some n' \<Longrightarrow> local_step n n'"
| local_gossip_receive: "gossip_receive dial n = Some n' \<Longrightarrow> local_step n n'"
| local_Kill: "Kill n = Ret n' \<Longrightarrow> local_step n n'"

inductive net_step :: "env \<Rightarrow> net \<Rightarrow> net \<Rightarrow> bool" for E :: env where
  net_join: "net_nodes w p = None \<Longrightarrow>
    StartDRNode E (\<lambda>q. net_nodes w q \<noteq> None) (\<lambda>q. map_option GetBlockLog (net_nodes w q)) me p pubHash servers = Some (Ret n) \<Longrightarrow>
    net_step E w (w\<lparr>net_nodes := (net_nodes w)(p \<mapsto> n)\<rparr>)"
| net_submit: "net_nodes w p = Some n \<Longrightarrow> AppendTx E tx clerkId n = Ret (n', res) \<Longrightarrow>
    net_step E w (w\<lparr>net_nodes := (net_nodes w)(p \<mapsto> n'), net_flight := net_flight w + forwards tx clerkId res,
      net_submitted := insert tx (net_submitted w)\<rparr>)"
| net_tx: "TxMsg p tx clerkId \<in># net_flight w \<Longrightarrow> net_nodes w p = Some n \<Longrightarrow> AppendTx E tx clerkId n = Ret (n', res) \<Longrightarrow>
    net_step E w (w\<lparr>net_nodes := (net_nodes w)(p \<mapsto> n'),
      net_flight := net_flight w - {#TxMsg p tx clerkId#} + forwards tx clerkId res\<rparr>)"
| net_block: "BlockMsg p b \<in># net_flight w \<Longrightarrow> net_nodes w p = Some n \<Longrightarrow> SendBlock E b n = Ret (n', err) \<Longrightarrow>
    net_step E w (w\<lparr>net_nodes := (net_nodes w)(p \<mapsto> n'), net_flight := net_flight w - {#BlockMsg p b#}\<rparr>)"
| net_mine: "net_nodes w p = Some n \<Longrightarrow> mset ord = mset (map fst (nd_PendingTxs n)) \<Longrightarrow> mine E now ord n = Some (Ret (n', msgs)) \<Longrightarrow>
    net_step E w (w\<lparr>net_nodes := (net_nodes w)(p \<mapsto> n'), net_flight := net_flight w + mset (map (\<lambda>(c, b). BlockMsg c b) msgs),
      net_mined := net_mined w \<union> appended n n'\<rparr>)"
| net_local: "net_nodes w p = Some n \<Longrightarrow> local_step n n' \<Longrightarrow> net_step E w (w\<lparr>net_nodes := (net_nodes w)(p \<mapsto> n')\<rparr>)"
| net_lose: "net_step E w (w\<lparr>net_flight := net_flight w - {#m#}\<rparr>)"
| net_crash: "net_step E w (w\<lparr>net_nodes := (net_nodes w)(p := None)\<rparr>)"

definition net_start :: "net \<Rightarrow> bool" where
  "net_start w \<longleftrightarrow> net_nodes w = Map.empty \<and> net_flight w = {#} \<and> net_mined w = {} \<and> net_submitted w = {}"

subsection \<open>Each node runs as a node\<close>

lemma local_step_node: "local_step n n' \<Longrightarrow> node_step E n n'"
  by (cases rule: local_step.cases) (auto intro: node_step.intros)

subsection \<open>Where blocks and transactions come from\<close>

text \<open>A node whose blocks are genesis blocks or in \<open>S\<close>, and whose pending transactions are in \<open>T\<close>.\<close>

definition genesis_blocks :: "env \<Rightarrow> Block set" where
  "genesis_blocks E = {g. GenerateGenesisBlock E = Some (Ret g)}"

definition sourced :: "env \<Rightarrow> Block set \<Rightarrow> Transaction set \<Rightarrow> DRNode \<Rightarrow> bool" where
  "sourced E S T n \<longleftrightarrow> node_inv E n \<and> hd (nd_Blockchain n) \<in> Some ` genesis_blocks E \<and>
     {b. Some b \<in> set (nd_Blockchain n)} \<union> set (nd_Log n) \<subseteq> genesis_blocks E \<union> S \<and>
     (\<forall>s tn. go_get (nd_PendingTxs n) s = Some tn \<longrightarrow> tn_Tx tn \<in> T)"

lemma sourced_mono: "sourced E S T n \<Longrightarrow> S \<subseteq> S' \<Longrightarrow> T \<subseteq> T' \<Longrightarrow> sourced E S' T' n"
  unfolding sourced_def by blast

lemma sourced_frame:
  assumes "sourced E S T n" and "node_inv E n'" and "nd_Blockchain n' = nd_Blockchain n" and "set (nd_Log n') \<subseteq> genesis_blocks E \<union> S"
    and "same_txs (nd_PendingTxs n) (nd_PendingTxs n')"
  shows "sourced E S T n'"
proof -
  have "tn_Tx tn \<in> T" if "go_get (nd_PendingTxs n') s = Some tn" for s tn
    using same_txs_get[OF assms(5) that] assms(1) unfolding sourced_def by metis
  with assms show ?thesis unfolding sourced_def by auto
qed

lemma sourced_extend:
  assumes "sourced E S T n" and "node_inv E n'" and "nd_Blockchain n' = nd_Blockchain n @ [Some b]" and "nd_Log n' = nd_Log n @ [b]"
    and "same_txs (nd_PendingTxs n) (nd_PendingTxs n')" and "b \<in> genesis_blocks E \<union> S"
  shows "sourced E S T n'"
proof -
  have "tn_Tx tn \<in> T" if "go_get (nd_PendingTxs n') s = Some tn" for s tn
    using same_txs_get[OF assms(5) that] assms(1) unfolding sourced_def by metis
  moreover have "nd_Blockchain n \<noteq> []" using assms(1) by (auto simp: sourced_def node_inv_def chain_ok_def)
  ultimately show ?thesis using assms unfolding sourced_def by auto
qed

lemma sourced_SendBlock:
  assumes "sourced E S T n" and "SendBlock E b n = Ret (n', err)" and "b \<in> genesis_blocks E \<union> S"
  shows "sourced E S T n'"
proof -
  have inv: "node_inv E n" using assms(1) by (simp add: sourced_def)
  then have inv': "node_inv E n'" by (rule node_inv_SendBlock) (rule assms(2))
  obtain bs where bs: "nd_Blockchain n = map Some bs" "bs \<noteq> []" "nd_SideChains n = []" "nd_OrphanChains n = []"
    using inv by (rule node_invE)
  from assms(2) bs show ?thesis
  proof (cases rule: SendBlock_cases)
    case (rejected h)
    then show ?thesis using assms(1,3) by (intro sourced_frame[OF assms(1) inv']) (auto simp: sourced_def)
  next
    case (accepted p db k)
    then show ?thesis using assms(3) by (intro sourced_extend[OF assms(1) inv', of b]) auto
  qed
qed

lemma sourced_AppendTx:
  assumes "sourced E S T n" and "AppendTx E tx clerkId n = Ret (n', res)" and "tx \<in> T"
  shows "sourced E S T n'"
proof -
  have "node_inv E n'" using assms(1) by (intro node_inv_AppendTx[OF _ assms(2)]) (simp add: sourced_def)
  with assms show ?thesis by (auto simp: AppendTx_def go_simps Let_def sourced_def split: if_splits)
qed

lemma sourced_local:
  assumes "sourced E S T n" and "local_step n n'"
  shows "sourced E S T n'"
proof -
  have inv: "node_inv E n'" using assms(1) local_step_node[OF assms(2), of E] node_inv_step by (auto simp: sourced_def)
  have log: "set (nd_Log n) \<subseteq> genesis_blocks E \<union> S" using assms(1) by (simp add: sourced_def)
  from assms(2) show ?thesis
  proof (cases rule: local_step.cases)
    case (local_poll s res)
    then obtain p where "n' = n\<lparr>nd_PendingTxs := p\<rparr>" "same_txs (nd_PendingTxs n) p" by (rule AppendTx_poll_Ret)
    with log show ?thesis by (intro sourced_frame[OF assms(1) inv]) auto
  next
    case (local_Gossip dial args reply)
    with log show ?thesis by (intro sourced_frame[OF assms(1) inv]) (auto simp: Gossip_def Let_def split: if_splits)
  next
    case (local_gossip_send reply)
    with log show ?thesis by (intro sourced_frame[OF assms(1) inv]) (auto simp: gossip_send_def)
  next
    case (local_gossip_receive dial)
    with log show ?thesis
      by (intro sourced_frame[OF assms(1) inv]) (auto simp: gossip_receive_def split: option.splits list.splits)
  next
    case local_Kill
    with log show ?thesis by (intro sourced_frame[OF assms(1) inv]) (auto simp: Kill_def split: if_splits)
  qed
qed

text \<open>A turn of the miner appends a block of pending transactions, and sends nothing else.\<close>

lemma sourced_mine:
  assumes "sourced E S T n" and "mine E now ord n = Some (Ret (n', msgs))"
  shows "sourced E (S \<union> appended n n') T n'" and "(c, b) \<in> set msgs \<Longrightarrow> b \<in> appended n n'"
    and "b \<in> appended n n' \<Longrightarrow> set (butlast (b_Transactions b)) \<subseteq> T"
proof -
  have inv: "node_inv E n" using assms(1) by (simp add: sourced_def)
  have inv': "node_inv E n'" by (rule node_inv_mine[OF inv assms(2)])
  have mono: "sourced E (S \<union> appended n n') T n" using assms(1) by (rule sourced_mono) auto
  obtain bs where bs: "nd_Blockchain n = map Some bs" "bs \<noteq> []" using inv by (rule node_invE)
  from assms(2) bs have "sourced E (S \<union> appended n n') T n' \<and> (\<forall>c b. (c, b) \<in> set msgs \<longrightarrow> b \<in> appended n n') \<and>
      (\<forall>b \<in> appended n n'. set (butlast (b_Transactions b)) \<subseteq> T)"
  proof (cases rule: mine_cases)
    case (idle p)
    have "set (nd_Log n) \<subseteq> genesis_blocks E \<union> (S \<union> appended n n')" using mono by (simp add: sourced_def)
    with idle have "sourced E (S \<union> appended n n') T n'" by (intro sourced_frame[OF mono inv']) auto
    moreover have "appended n n' = {}" using idle by (simp add: appended_def)
    ultimately show ?thesis using idle by simp
  next
    case (mined tns b' p0 p db prev)
    have app: "appended n n' = {b'}" using mined(4) by (simp add: appended_def)
    then have "b' \<in> genesis_blocks E \<union> (S \<union> appended n n')" by simp
    then have "sourced E (S \<union> appended n n') T n'" by (rule sourced_extend[OF mono inv', rotated 3]) (use mined in simp_all)
    moreover have "b_Transactions b' = map tn_Tx tns @ [MakeCoinbaseTx (map tn_Tx tns) (nd_pubHash n)]"
      by (rule GenerateBlock_Ret[OF mined(2)]) simp
    moreover have "tn_Tx tn \<in> T" if "tn \<in> set tns" for tn
      using collect_pending_Ret[OF mined(1)] that assms(1) by (auto simp: taken_from_def sourced_def) metis
    ultimately show ?thesis using app mined(7) by auto
  qed
  then show "sourced E (S \<union> appended n n') T n'" "(c, b) \<in> set msgs \<Longrightarrow> b \<in> appended n n'"
    "b \<in> appended n n' \<Longrightarrow> set (butlast (b_Transactions b)) \<subseteq> T" by blast+
qed

text \<open>A node that starts knows the genesis block and what its peers sent.\<close>

lemma sourced_start:
  assumes "StartDRNode E dial ask me port pubHash servers = Some (Ret n)"
    and "\<And>s log. ask s = Some log \<Longrightarrow> set log \<subseteq> genesis_blocks E \<union> S"
  shows "sourced E S T n"
proof -
  obtain n0 where n0: "bootstrap E (new_node me port pubHash) = Some (Ret n0)" "connect_servers E dial ask servers n0 = Ret n"
    using assms(1) by (auto simp: StartDRNode_def bind_go_eq_Ret)
  have "nd_PendingTxs n0 = []" using n0(1) by (auto simp: bootstrap_def new_node_def go_simps)
  moreover obtain g where "GenerateGenesisBlock E = Some (Ret g)" "nd_Blockchain n0 = [Some g]" "nd_Log n0 = [g]"
    using n0(1) by (rule bootstrap_Ret)
  ultimately have "sourced E S T n0"
    using bootstrap_inv[OF n0(1)] by (simp add: sourced_def genesis_blocks_def go_get_def)
  with n0(2) show ?thesis
  proof (rule connect_servers_known[where A = "genesis_blocks E \<union> S"])
    fix m s assume m: "sourced E S T m"
    then have "node_inv E (m\<lparr>nd_servers := nd_servers m @ [s], nd_ports := nd_ports m @ [s]\<rparr>)"
      unfolding sourced_def by (auto intro: node_inv_frame)
    with m show "sourced E S T (m\<lparr>nd_servers := nd_servers m @ [s], nd_ports := nd_ports m @ [s]\<rparr>)"
      by (simp add: sourced_def)
  next
    fix m log assume "sourced E S T m" "length (nd_Blockchain m) = 1" "set log \<subseteq> genesis_blocks E \<union> S"
    then show "sourced E S T (m\<lparr>nd_Log := log\<rparr>)" by (simp add: sourced_def node_inv_short_log)
  qed (use assms(2) sourced_SendBlock in blast)+
qed

subsection \<open>The invariant of the network\<close>

definition net_inv :: "env \<Rightarrow> net \<Rightarrow> bool" where
  "net_inv E w \<longleftrightarrow>
     (\<forall>p n. net_nodes w p = Some n \<longrightarrow> reach (node_start E) (node_step E) n \<and> sourced E (net_mined w) (net_submitted w) n) \<and>
     (\<forall>p b. BlockMsg p b \<in># net_flight w \<longrightarrow> b \<in> net_mined w) \<and>
     (\<forall>p tx clerkId. TxMsg p tx clerkId \<in># net_flight w \<longrightarrow> tx \<in> net_submitted w) \<and>
     (\<forall>b \<in> net_mined w. set (butlast (b_Transactions b)) \<subseteq> net_submitted w)"

lemma net_inv_node:
  assumes "net_inv E w" and "net_nodes w p = Some n"
  shows "reach (node_start E) (node_step E) n" and "sourced E (net_mined w) (net_submitted w) n"
  using assms by (simp_all add: net_inv_def)

text \<open>Replacing a node, with fewer or sourced messages and larger records.\<close>

lemma net_inv_update:
  assumes "net_inv E w" and "reach (node_start E) (node_step E) n" and "sourced E S T n"
    and "net_mined w \<subseteq> S" and "net_submitted w \<subseteq> T"
    and "\<forall>m \<in> set_mset F. m \<in># net_flight w \<or> (\<exists>c b. m = BlockMsg c b \<and> b \<in> S) \<or> (\<exists>c tx i. m = TxMsg c tx i \<and> tx \<in> T)"
    and "\<forall>b \<in> S - net_mined w. set (butlast (b_Transactions b)) \<subseteq> T"
  shows "net_inv E (w\<lparr>net_nodes := (net_nodes w)(p \<mapsto> n), net_flight := F, net_mined := S, net_submitted := T\<rparr>)"
proof -
  have nodes: "reach (node_start E) (node_step E) m \<and> sourced E S T m" if "((net_nodes w)(p \<mapsto> n)) q = Some m" for q m
  proof (cases "q = p")
    case False
    with that have "net_nodes w q = Some m" by simp
    from net_inv_node[OF assms(1) this] show ?thesis using sourced_mono assms(4,5) by blast
  qed (use that assms(2,3) in simp)
  have "b \<in> S" if "BlockMsg c b \<in># F" for c b
    using bspec[OF assms(6) that] assms(1,4) by (auto simp: net_inv_def)
  moreover have "tx \<in> T" if "TxMsg c tx i \<in># F" for c tx i
    using bspec[OF assms(6) that] assms(1,5) by (fastforce simp: net_inv_def)
  moreover have "set (butlast (b_Transactions b)) \<subseteq> T" if "b \<in> S" for b
    using that assms(1,5,7) unfolding net_inv_def by (cases "b \<in> net_mined w") blast+
  ultimately show ?thesis using nodes unfolding net_inv_def by simp
qed

lemma forwards_tx: "m \<in># forwards tx clerkId res \<Longrightarrow> \<exists>c. m = TxMsg c tx clerkId"
  by (cases res) auto

lemma net_inv_step:
  assumes "net_inv E w" and "net_step E w w'"
  shows "net_inv E w'"
  using assms(2)
proof (cases rule: net_step.cases)
  case (net_join p me pubHash servers n)
  have "set log \<subseteq> genesis_blocks E \<union> net_mined w" if "map_option GetBlockLog (net_nodes w q) = Some log" for q log
    using that net_inv_node(2)[OF assms(1)] by (auto simp: GetBlockLog_def sourced_def)
  from sourced_start[OF net_join(3) this] have src: "sourced E (net_mined w) (net_submitted w) n" .
  have "net_inv E (w\<lparr>net_nodes := (net_nodes w)(p \<mapsto> n), net_flight := net_flight w,
      net_mined := net_mined w, net_submitted := net_submitted w\<rparr>)"
    by (rule net_inv_update[OF assms(1) reach_StartDRNode[OF net_join(3)] src]) (auto)
  then show ?thesis unfolding net_join(1) by simp
next
  case (net_submit p n tx clerkId n' res)
  note node = net_inv_node[OF assms(1) net_submit(2)]
  have "sourced E (net_mined w) (insert tx (net_submitted w)) n" using node(2) by (rule sourced_mono) auto
  then have src: "sourced E (net_mined w) (insert tx (net_submitted w)) n'" using net_submit(3) by (rule sourced_AppendTx) simp
  have "net_inv E (w\<lparr>net_nodes := (net_nodes w)(p \<mapsto> n'), net_flight := net_flight w + forwards tx clerkId res,
      net_mined := net_mined w, net_submitted := insert tx (net_submitted w)\<rparr>)"
    by (rule net_inv_update[OF assms(1) reach_step[OF node(1) step_AppendTx[OF net_submit(3)]] src]) (auto dest: forwards_tx)
  then show ?thesis unfolding net_submit(1) by simp
next
  case (net_tx p tx clerkId n n' res)
  note node = net_inv_node[OF assms(1) net_tx(3)]
  have tx: "tx \<in> net_submitted w" using assms(1) net_tx(2) unfolding net_inv_def by blast
  have src: "sourced E (net_mined w) (net_submitted w) n'" using node(2) net_tx(4) tx by (rule sourced_AppendTx)
  have "net_inv E (w\<lparr>net_nodes := (net_nodes w)(p \<mapsto> n'), net_flight := net_flight w - {#TxMsg p tx clerkId#} + forwards tx clerkId res,
      net_mined := net_mined w, net_submitted := net_submitted w\<rparr>)"
    by (rule net_inv_update[OF assms(1) reach_step[OF node(1) step_AppendTx[OF net_tx(4)]] src]) (use tx in \<open>auto dest: forwards_tx in_diffD\<close>)
  then show ?thesis unfolding net_tx(1) by simp
next
  case (net_block p b n n' err)
  note node = net_inv_node[OF assms(1) net_block(3)]
  have "b \<in> genesis_blocks E \<union> net_mined w" using assms(1) net_block(2) by (auto simp: net_inv_def)
  with node(2) net_block(4) have src: "sourced E (net_mined w) (net_submitted w) n'" by (rule sourced_SendBlock)
  have "net_inv E (w\<lparr>net_nodes := (net_nodes w)(p \<mapsto> n'), net_flight := net_flight w - {#BlockMsg p b#},
      net_mined := net_mined w, net_submitted := net_submitted w\<rparr>)"
    by (rule net_inv_update[OF assms(1) reach_step[OF node(1) step_SendBlock[OF net_block(4)]] src]) (auto dest: in_diffD)
  then show ?thesis unfolding net_block(1) by simp
next
  case (net_mine p n ord now n' msgs)
  note node = net_inv_node[OF assms(1) net_mine(2)]
  note src = sourced_mine[OF node(2) net_mine(4)]
  have "net_inv E (w\<lparr>net_nodes := (net_nodes w)(p \<mapsto> n'), net_flight := net_flight w + mset (map (\<lambda>(c, b). BlockMsg c b) msgs),
      net_mined := net_mined w \<union> appended n n', net_submitted := net_submitted w\<rparr>)"
    by (rule net_inv_update[OF assms(1) reach_step[OF node(1) step_mine[OF net_mine(3,4)]] src(1)]) (use src(2,3) in auto)
  then show ?thesis unfolding net_mine(1) by simp
next
  case (net_local p n n')
  note node = net_inv_node[OF assms(1) net_local(2)]
  have src: "sourced E (net_mined w) (net_submitted w) n'" using node(2) net_local(3) by (rule sourced_local)
  have "net_inv E (w\<lparr>net_nodes := (net_nodes w)(p \<mapsto> n'), net_flight := net_flight w,
      net_mined := net_mined w, net_submitted := net_submitted w\<rparr>)"
    by (rule net_inv_update[OF assms(1) reach_step[OF node(1) local_step_node[OF net_local(3)]] src]) (auto)
  then show ?thesis unfolding net_local(1) by simp
next
  case (net_lose m)
  moreover have "k \<in># net_flight w" if "k \<in># net_flight w - {#m#}" for k using that by (rule in_diffD)
  ultimately show ?thesis using assms(1) unfolding net_inv_def by (simp, blast)
next
  case (net_crash p)
  with assms(1) show ?thesis by (auto simp: net_inv_def)
qed

lemma net_inv_start: "net_start w \<Longrightarrow> net_inv E w"
  by (simp add: net_start_def net_inv_def)

interpretation net: invariant_system net_start "net_step E" "net_inv E" for E
  by unfold_locales (auto intro: net_inv_start net_inv_step)

text \<open>The genesis block is only the first block of a chain.\<close>

lemma genesis_not_sealed:
  assumes "scrypt_ok E" and "g \<in> genesis_blocks E"
  shows "\<not> block_sealed E g"
proof -
  have "b_Transactions g = [genesis_tx]" using assms by (auto simp: genesis_blocks_def GenerateGenesisBlock_Ret(1))
  then show ?thesis by (simp add: block_sealed_def VerifyCoinbaseTx_None genesis_tx_def genesis_pubKeyHashB64_def)
qed

lemma sourced_chain:
  assumes "scrypt_ok E" and "sourced E S T n"
  obtains g bs where "GenerateGenesisBlock E = Some (Ret g)" and "nd_Blockchain n = map Some (g # bs)" and "set bs \<subseteq> S"
proof -
  have "node_inv E n" using assms(2) by (simp add: sourced_def)
  then obtain cs where cs: "nd_Blockchain n = map Some cs" "chain_ok E cs" "cs \<noteq> []" by (rule node_invE)
  then obtain g bs where g: "cs = g # bs" by (cases cs) auto
  have "b \<in> S" if "b \<in> set bs" for b
  proof -
    have "block_sealed E b" using cs(2) g that by (auto simp: chain_ok_def list_all_iff)
    then have "b \<notin> genesis_blocks E" using genesis_not_sealed[OF assms(1)] by blast
    moreover have "b \<in> genesis_blocks E \<union> S" using assms(2) cs(1) g that by (auto simp: sourced_def)
    ultimately show ?thesis by blast
  qed
  moreover have "GenerateGenesisBlock E = Some (Ret g)" using assms(2) cs(1) g by (auto simp: sourced_def genesis_blocks_def)
  ultimately show thesis using that cs(1) g by blast
qed

subsection \<open>Properties\<close>

text \<open>C4: Nothing comes from nowhere: in every state of a network of any number of nodes, whatever messages are delayed,
  reordered or lost and whatever nodes crash and start again, each node is in a reachable state of a node; all
  chains start with the same genesis block; each further block on a chain was mined by a node of the network;
  and each transaction in it, but for its coinbase, was submitted to a node of the network.\<close>

theorem network_provenance:
  assumes "scrypt_ok E" and "reach net_start (net_step E) w" and "net_nodes w p = Some n"
  shows "reach (node_start E) (node_step E) n \<and>
    (\<exists>g bs. GenerateGenesisBlock E = Some (Ret g) \<and> nd_Blockchain n = map Some (g # bs) \<and>
       list_all (\<lambda>b. b \<in> net_mined w \<and> set (butlast (b_Transactions b)) \<subseteq> net_submitted w) bs)"
proof -
  have inv: "net_inv E w" using assms(2) by (rule net.inv_reach)
  note node = net_inv_node[OF inv assms(3)]
  obtain g bs where "GenerateGenesisBlock E = Some (Ret g)" "nd_Blockchain n = map Some (g # bs)" "set bs \<subseteq> net_mined w"
    by (rule sourced_chain[OF assms(1) node(2)])
  moreover have "\<forall>b \<in> net_mined w. set (butlast (b_Transactions b)) \<subseteq> net_submitted w" using inv by (simp add: net_inv_def)
  ultimately show ?thesis using node(1) by (auto simp: list_all_iff)
qed

theorem network_provenance_witness:
  "\<exists>w n g b tx. reach net_start (net_step wallet_env) w \<and> net_nodes w ''1'' = Some n \<and> nd_Blockchain n = [Some g, Some b] \<and>
     butlast (b_Transactions b) = [tx] \<and> b \<in> net_mined w \<and> tx \<in> net_submitted w"
proof -
  obtain n tx where start: "StartDRNode wallet_env (\<lambda>_. False) (\<lambda>_. None) 0 ''1'' (hd genesis_pubKeyHashB64) [] = Some (Ret n)"
    and n: "reach (node_start wallet_env) (node_step wallet_env) n" "\<not> nd_quit n" "nd_numPending n = 0" "nd_PendingTxs n = []"
      "nd_SeenTxs n = []" "nd_pubHash n = hd genesis_pubKeyHashB64" "\<exists>g. nd_Blockchain n = [Some g]"
    and tx: "distinct (tx_inputs tx)" "validateTransaction wallet_env (nd_Utxo n) (nd_Blockchain n) tx = Ret None"
    by (rule wallet_post_ready)
  have idle: "\<forall>s tn. go_get (nd_PendingTxs n) s = Some tn \<longrightarrow> tn_Status tn \<noteq> PENDING" using n(4) by (simp add: go_get_def)
  obtain n1 n2 s b msgs ord where app: "AppendTx wallet_env tx 3 n = Ret (n1, Polling s (nd_servers n))"
      and turn: "mine wallet_env 0 ord n1 = Some (Ret (n2, msgs))" "mset ord = mset (map fst (nd_PendingTxs n1))"
      and b: "nd_Blockchain n2 = nd_Blockchain n @ [Some b]" "butlast (b_Transactions b) = [tx]"
    by (rule wallet_turn[where now = 0, OF n(1-3,6) idle tx(2,1)]) (use n(5) in \<open>auto simp: go_get_def\<close>)
  let ?step = "net_step wallet_env"
  let ?w0 = "\<lparr>net_nodes = Map.empty, net_flight = {#}, net_mined = {}, net_submitted = {}\<rparr>"
  have w0: "reach net_start ?step ?w0" by (rule reach_init) (simp add: net_start_def)
  obtain w1 where w1: "reach net_start ?step w1" "net_nodes w1 ''1'' = Some n"
    using reach_step[OF w0 net_join[of ?w0 "''1''" wallet_env 0 "hd genesis_pubKeyHashB64" "[]" n]] start by fastforce
  obtain w2 where w2: "reach net_start ?step w2" "net_nodes w2 ''1'' = Some n1"
    using reach_step[OF w1(1) net_submit[OF w1(2) app]] by fastforce
  obtain w3 where w3: "reach net_start ?step w3" "net_nodes w3 ''1'' = Some n2"
    using reach_step[OF w2(1) net_mine[OF w2(2) turn(2,1)]] by fastforce
  obtain g where g: "nd_Blockchain n = [Some g]" using n(7) by blast
  from network_provenance[OF wallet_scrypt_ok w3] w3 b g show ?thesis by (auto simp: map_eq_Cons_conv)
qed

end
