(* ===== verification/Spec2Isabelle.thy ===== *)
theory Spec2Isabelle
  imports Client Labrpc Stall Network
begin

text \<open>
  DReddit is a forum on a block chain, written in Go.  A \<^emph>\<open>node\<close> (\<^verbatim>\<open>src/node\<close>) keeps a chain of blocks and a
  database of unspent outputs (UTXO), takes transactions from \<^emph>\<open>clerks\<close> (\<^verbatim>\<open>src/clerk\<close>), mines blocks out of
  them, exchanges blocks and peer lists with other nodes, and answers queries.  A \<^emph>\<open>client\<close> (\<^verbatim>\<open>src/client\<close>) is a
  text interface on top of a clerk and a node.  Transactions are transfers, posts, comments and upvotes.

  \<^bold>\<open>Theories and what they model\<close> (names of definitions are those of the code)

  \<^item> \<open>Prelude\<close>: Go's panics (\<open>'a go\<close>), nil slices, slice and map operations; reachability and the locale
    \<open>invariant_system\<close>.
  \<^item> \<open>Encoding\<close>: \<^verbatim>\<open>packInt\<close>, base64.  \<open>Crypto\<close>: \<^verbatim>\<open>hash.go\<close> and the parameters \<open>env\<close>: scrypt, ECDSA, the
    difficulty and the block-size threshold.
  \<^item> \<open>Transaction\<close>: \<^verbatim>\<open>transaction.go\<close>.  \<open>Merkle\<close>: \<^verbatim>\<open>merkle.go\<close>.  \<open>Block\<close>: \<^verbatim>\<open>block.go\<close>.  \<open>UtxoDb\<close>: \<^verbatim>\<open>utxodb.go\<close> and
    \<^verbatim>\<open>updateUtxoDb\<close>.
  \<^item> \<^verbatim>\<open>miner.go\<close> is \<open>Validation\<close> (transactions and the transactions of a block), \<open>SideChain\<close> (the pointer trees),
    \<open>Node\<close> (the state \<open>DRNode\<close> and \<^verbatim>\<open>SendBlock\<close>) and \<open>Miner\<close> (start-up, \<^verbatim>\<open>AppendTx\<close>, mining, gossip).
  \<^item> \<open>Clerk\<close>, \<open>BadClerk\<close>: \<^verbatim>\<open>clerk.go\<close>, \<^verbatim>\<open>bad_clerk.go\<close>.  \<open>PKPairs\<close>: \<^verbatim>\<open>util/pk_pairs.go\<close>.
  \<^item> \<open>Network\<close>: the calls between nodes in \<^verbatim>\<open>AppendTx\<close>, \<^verbatim>\<open>mine\<close> and \<^verbatim>\<open>StartDRNode\<close> as messages that are handled once, at
    any later time and in any order, or lost.  A node starts in one step, with the logs its peers have then.
  \<^item> \<open>Client\<close>: \<^verbatim>\<open>client.go\<close> and \<^verbatim>\<open>client2.go\<close>.  \<open>Labrpc\<close>: \<^verbatim>\<open>labrpc.go\<close>, the simulated network.

  \<^bold>\<open>Conventions\<close>

  \<^item> A result \<open>Panic p\<close> is a Go run-time panic, \<open>Ret x\<close> a normal return.  An \<open>option\<close> around a \<open>go\<close> result is
    \<open>None\<close> for a loop that never ends (proof of work, the clerk's retries, the client's command loop): these are
    partial functions, and theorems say when they end.
  \<^item> A Go error is a string option, \<open>verdict\<close>.  \<^verbatim>\<open>uint32\<close> is \<open>32 word\<close>, so that sums wrap; \<^verbatim>\<open>int\<close> is \<open>int\<close>.
  \<^item> Strings used as byte containers are byte lists; strings that are read as text are \<open>string\<close>.
  \<^item> The iteration order of a Go map, random numbers, the time, and the answers of remote procedures are
    arguments.  Locks are not modelled: each handler, and each turn of a background loop, is one step, which is
    what a lock held throughout gives; the waiting part of \<^verbatim>\<open>AppendTx\<close> is a step of its own.
  \<^item> A slice's capacity is its length.  Nil and empty slices are told apart only where the code does.  An RPC
    does not change its arguments (gob sends an empty slice as nil).

  \<^bold>\<open>What is proved\<close>

  \<^item> Encodings: layouts of packed structures, round trips, when hashing panics, when layouts are injective.
  \<^item> Merkle tree: the array algorithm equals the recursive definition.  Proof of work: least nonce, divergence.
  \<^item> UTXO database: refinement of an abstract ledger (locale \<open>utxo\<close> of \<open>UtxoDb\<close>), exact queries, conservation.
  \<^item> Validation: both validators against declarative specifications.
  \<^item> Node: \<open>node_step\<close> has a rule for each handler and loop turn; the invariants (\<open>NodeInv\<close>, \<open>Peers\<close>, \<open>History\<close>)
    hold in all reachable states: links and seals, the database is the ledger of the chain, each block was checked
    against the chain before it, pending transactions, peer lists.
  \<^item> \<open>Consensus\<close>: replication, replay, acceptance of mined blocks, progress, a transaction is taken once.
  \<^item> \<open>Clerk\<close>, \<open>Pipeline\<close>, \<open>BadClerk\<close>, \<open>Forum\<close>: what a clerk builds is accepted, mined and reported; what a bad
    clerk builds never is; comments and upvotes on a chain have parents in earlier blocks.  \<open>Stall\<close>: a received
    block can keep a node from mining, and a fork never heals.
  \<^item> \<open>Network\<close>: many nodes and the messages between them; every block on a chain was mined by one of them, and
    every transaction submitted to one.
  \<^item> \<open>Client\<close>: the page of a reachable node renders, scores count upvotes, how a session ends.  \<open>Labrpc\<close>: delivery,
    no reply from a deleted server, no invented reply.

  \<^bold>\<open>Bounds\<close>

  \<^item> \<open>FindParent\<close> and \<open>Recompute\<close> take the number of cells as a bound on the depth of recursion, \<open>heal_loop\<close> on the
    length of a walk to the root: a longer path repeats a cell and would never end.  \<open>renderContent\<close> takes the
    number of transactions plus one for the same reason.
  \<^item> \<open>floor_log2\<close> in \<open>nextPowerOfTwo\<close> is exact, where the code computes with floating point.

  \<^bold>\<open>Assumptions on external code\<close> (\<open>Crypto\<close>, \<open>Block\<close>)

  \<^item> \<open>scrypt_ok\<close>: scrypt returns a key of the requested length.  \<open>ecdsa_ok\<close>: keys parse back and signatures verify.
    \<open>pow_solvable\<close>: every header has a fitting nonce.  None of them is assumed globally; the theorems that need one
    name it.  \<open>demo_env\<close> and \<open>wallet_env\<close> are concrete instances for the witnesses.

  \<^bold>\<open>Not modelled\<close>

  \<^item> Printing and logging (\<^verbatim>\<open>ToString\<close>, \<^verbatim>\<open>DPrintf\<close>, the drawing and the prompts of the client), sleeping, the HTTP
    listener, gob: they do not act on the state.  The tests are not part of the program.
\<close>

end
